(* ===== verification/Prelude.thy ===== *)
theory Prelude
  imports Main "HOL-Library.Word"
begin

text \<open>
  Shared vocabulary of the CMU-TCP development: the C integer types as words, the ways a
  C function can go wrong as a sum type, the few pieces of C and libc that every component
  uses (\<open>assert\<close>, \<open>%\<close>, \<open>malloc\<close>, \<open>memcpy\<close>).
\<close>

unbundle bit_operations_syntax

section \<open>C integers\<close>

type_synonym u8 = "8 word"
type_synonym u16 = "16 word"
type_synonym u32 = "32 word"

section \<open>Faults\<close>

text \<open>
  A C function of the program returns a value or runs into one of these: an
  \<open>assert\<close> that aborts the process, an access outside an allocated object, a read of a
  pointer field that was never assigned, a dereference of \<open>NULL\<close>, an access to a freed
  object, a division by zero, a loop that never ends, or a call that waits for something
  (a datagram, a flag, room in a buffer) that is not there yet.
\<close>

datatype fault =
    AssertFail
  | OutOfBounds
  | UninitRead
  | NullDeref
  | UseAfterFree
  | DivByZero
  | Diverges
  | Blocked

type_synonym 'a res = "fault + 'a"

text \<open>Sequencing: the first fault ends the computation.\<close>

fun bindF :: "'a res \<Rightarrow> ('a \<Rightarrow> 'b res) \<Rightarrow> 'b res" where
  "bindF (Inl e) f = Inl e"
| "bindF (Inr x) f = f x"

lemma bindF_eq_Inr [simp]:
  "bindF m f = Inr y \<longleftrightarrow> (\<exists>x. m = Inr x \<and> f x = Inr y)"
  by (cases m) auto

lemma bindF_eq_Inl:
  "bindF m f = Inl e \<longleftrightarrow> m = Inl e \<or> (\<exists>x. m = Inr x \<and> f x = Inl e)"
  by (cases m) auto

lemma bindF_assoc [simp]: "bindF (bindF m f) g = bindF m (\<lambda>x. bindF (f x) g)"
  by (cases m) auto

lemma bindF_cong [fundef_cong]:
  "m = m' \<Longrightarrow> (\<And>x. m' = Inr x \<Longrightarrow> f x = f' x) \<Longrightarrow> bindF m f = bindF m' f'"
  by (cases m') auto

text \<open>\<open>assert(b)\<close>: the build does not define \<open>NDEBUG\<close>, so asserts are live.\<close>

definition assertF :: "bool \<Rightarrow> unit res" where
  "assertF b = (if b then Inr () else Inl AssertFail)"

lemma assertF_True [simp]: "assertF True = Inr ()"
  and assertF_False [simp]: "assertF False = Inl AssertFail"
  by (simp_all add: assertF_def)

lemma assertF_eq_Inr [simp]: "assertF b = Inr u \<longleftrightarrow> b"
  by (simp add: assertF_def)

lemma assertF_eq_Inl [simp]: "assertF b = Inl e \<longleftrightarrow> \<not> b \<and> e = AssertFail"
  by (auto simp: assertF_def)

text \<open>The \<open>%\<close> of \<open>uint32_t\<close>, undefined for a zero divisor.\<close>

definition umod :: "u32 \<Rightarrow> u32 \<Rightarrow> u32 res" where
  "umod a b = (if b = 0 then Inl DivByZero else Inr (a mod b))"

lemma umod_nonzero [simp]: "b \<noteq> 0 \<Longrightarrow> umod a b = Inr (a mod b)"
  by (simp add: umod_def)

section \<open>Byte memory\<close>

text \<open>
  A block of memory is the list of its bytes. \<open>malloc\<close> is taken to succeed; what a fresh
  block holds is not known, so it is a parameter \<open>junk\<close> of whoever allocates.
\<close>

definition malloc :: "(nat \<Rightarrow> u8) \<Rightarrow> nat \<Rightarrow> u8 list" where
  "malloc junk n = map junk [0..<n]"

lemma length_malloc [simp]: "length (malloc junk n) = n"
  by (simp add: malloc_def)

text \<open>
  \<open>memcpy(dst + doff, src + soff, len)\<close>. Copying no bytes touches nothing; otherwise both
  ranges must lie inside their blocks.
\<close>

definition memcpy :: "u8 list \<Rightarrow> nat \<Rightarrow> u8 list \<Rightarrow> nat \<Rightarrow> nat \<Rightarrow> u8 list res" where
  "memcpy dst doff src soff len =
     (if len = 0 then Inr dst
      else if doff + len \<le> length dst \<and> soff + len \<le> length src
      then Inr (take doff dst @ take len (drop soff src) @ drop (doff + len) dst)
      else Inl OutOfBounds)"

lemma memcpy_0 [simp]: "memcpy dst doff src soff 0 = Inr dst"
  by (simp add: memcpy_def)

lemma memcpy_in_bounds:
  assumes "doff + len \<le> length dst" and "soff + len \<le> length src"
  shows "memcpy dst doff src soff len =
    Inr (take doff dst @ take len (drop soff src) @ drop (doff + len) dst)"
  using assms by (simp add: memcpy_def)

lemma memcpy_out_of_bounds:
  assumes "0 < len" and "length dst < doff + len \<or> length src < soff + len"
  shows "memcpy dst doff src soff len = Inl OutOfBounds"
  using assms by (auto simp: memcpy_def)

lemma memcpy_length: "memcpy dst doff src soff len = Inr d \<Longrightarrow> length d = length dst"
  by (auto simp: memcpy_def split: if_splits)

text \<open>A \<open>memcpy\<close> seen one byte at a time.\<close>

lemma memcpy_nth:
  assumes "doff + len \<le> length dst" and "soff + len \<le> length src" and "i < length dst"
  shows "(take doff dst @ take len (drop soff src) @ drop (doff + len) dst) ! i =
    (if doff \<le> i \<and> i < doff + len then src ! (soff + (i - doff)) else dst ! i)"
proof (cases "i < doff")
  case True
  with assms show ?thesis by (simp add: nth_append)
next
  case False
  then obtain j where j: "i = doff + j" by (metis le_add_diff_inverse not_less)
  have l: "length (take len (drop soff src)) = len" and d: "length (take doff dst) = doff"
    using assms by auto
  from j l d assms show ?thesis by (simp add: nth_append del: length_take)
qed

section \<open>Words as numbers\<close>

text \<open>
  The two steps every proof about the code's unsigned arithmetic takes: a sum that fits and
  a difference that does not go below zero are the sum and difference of the numbers.
\<close>

lemma unat_add32: "unat a + unat b < 2 ^ 32 \<Longrightarrow> unat (a + b) = unat a + unat b"
  for a b :: u32
  by (simp add: unat_word_ariths)

lemma unat_sub32: "unat b \<le> unat a \<Longrightarrow> unat (a - b) = unat a - unat b" for a b :: u32
  by (simp add: unat_sub word_le_nat_alt)

lemma unat_mod32: "unat (a mod b) = unat a mod unat b" for a b :: u32
  by (simp add: unat_mod)

lemma unat_u32_less: "unat (a :: u32) < 2 ^ 32"
  using unsigned_less [of a, where 'a = nat] by simp

lemma u32_eqI: "unat a = unat b \<Longrightarrow> a = b" for a b :: u32
  by (simp add: word_unat_eq_iff)

lemma unat_uminus32:
  fixes a :: u32
  assumes "a \<noteq> 0"
  shows "unat (- a) = 2 ^ 32 - unat a"
proof -
  have "(unat (- a) + unat a) mod 2 ^ 32 = 0"
    using unat_word_ariths(1) [of "- a" a] by simp
  then obtain k where k: "unat (- a) + unat a = 2 ^ 32 * k"
    by (auto simp only: mod_eq_0_iff_dvd elim!: dvdE)
  have "unat a \<noteq> 0" using assms by (simp add: unat_eq_0)
  with k unat_u32_less [of a] unat_u32_less [of "- a"] have "k = 1" by simp
  with k show ?thesis by simp
qed

text \<open>The sign bit of the C cast to \<open>int32_t\<close>.\<close>

lemma sint_neg_u32: "sint (w :: u32) < 0 \<longleftrightarrow> 2 ^ 31 \<le> unat w"
proof -
  have "sint w < 0 \<longleftrightarrow> bit w 31" using bit_last_iff [of w] by simp
  also have "\<dots> \<longleftrightarrow> odd (unat w div 2 ^ 31)"
    unfolding bit_iff_odd [of "unat w", symmetric] by (simp add: bit_unsigned_iff)
  also have "\<dots> \<longleftrightarrow> 2 ^ 31 \<le> unat w"
  proof -
    have "unat w div 2 ^ 31 < 2" using unat_u32_less [of w] by (simp add: less_mult_imp_div_less)
    then show ?thesis by (cases "2 ^ 31 \<le> unat w") (auto simp: div_eq_0_iff elim!: oddE)
  qed
  finally show ?thesis .
qed

lemma unat_of_nat32: "n < 2 ^ 32 \<Longrightarrow> unat (of_nat n :: u32) = n"
  by (simp add: unat_of_nat)

text \<open>Between \<open>uint16_t\<close> and \<open>uint32_t\<close>.\<close>

lemma unat_u16_less: "unat (w :: u16) < 2 ^ 16"
  using unsigned_less [of w, where 'a = nat] by simp

lemma unat_u16_u32: "unat (ucast x :: u16) = unat x mod 2 ^ 16" for x :: u32
  by (simp add: unsigned_ucast_eq unsigned_take_bit_eq take_bit_eq_mod)

lemma unat_u32_u16 [simp]: "unat (ucast x :: u32) = unat x" for x :: u16
proof -
  have "take_bit 32 (unat x) = unat x"
    using unat_u16_less [of x] by (intro take_bit_nat_eq_self) simp
  then show ?thesis by (simp add: unsigned_ucast_eq unsigned_take_bit_eq)
qed

lemmas word_nat = word_le_nat_alt word_less_nat_alt

end
