(* ===== verification/Packet.thy ===== *)
theory Packet
  imports Prelude
begin

text \<open>
  \<open>inc/cmu_packet.h\<close> and \<open>src/cmu_packet.c\<close>: the packed header of a CMU-TCP packet, the
  functions that read and write its fields through a cast of the packet's bytes, and
  \<open>create_packet\<close>. A packet is the list of its bytes, a pointer into it an offset; a field
  is stored in the host's byte order (little-endian: the x86 and ARM containers the project
  runs in), after the \<open>htons\<close>/\<open>htonl\<close> of the code. The lemmas show that what is
  built can be read back, that the header on the wire is big-endian at the documented
  offsets, and exactly when building a packet fails.
\<close>

unbundle bit_operations_syntax

section \<open>Fields in memory\<close>

text \<open>The fields of \<open>cmu_tcp_header_t\<close>; the struct is packed.\<close>

datatype header_field =
    Identifier | Source_port | Destination_port | Seq_num | Ack_num
  | Hlen | Plen | Flags | Advertised_window | Extension_length | Extension_data

fun field_size :: "header_field \<Rightarrow> nat" where
  "field_size Identifier = 4"
| "field_size Source_port = 2"
| "field_size Destination_port = 2"
| "field_size Seq_num = 4"
| "field_size Ack_num = 4"
| "field_size Hlen = 2"
| "field_size Plen = 2"
| "field_size Flags = 1"
| "field_size Advertised_window = 2"
| "field_size Extension_length = 2"
| "field_size Extension_data = 0"

definition cmu_tcp_header_t :: "header_field list" where
  "cmu_tcp_header_t = [Identifier, Source_port, Destination_port, Seq_num, Ack_num, Hlen, Plen,
     Flags, Advertised_window, Extension_length, Extension_data]"

definition sizeof_header :: nat where
  "sizeof_header = sum_list (map field_size cmu_tcp_header_t)"

definition offsetof :: "header_field \<Rightarrow> nat" where
  "offsetof f = sum_list (map field_size (takeWhile (\<lambda>g. g \<noteq> f) cmu_tcp_header_t))"

lemma sizeof_header [simp]: "sizeof_header = 25"
  by (simp add: sizeof_header_def cmu_tcp_header_t_def)

lemma offsetof [simp]:
  "offsetof Identifier = 0" "offsetof Source_port = 4" "offsetof Destination_port = 6"
  "offsetof Seq_num = 8" "offsetof Ack_num = 12" "offsetof Hlen = 16" "offsetof Plen = 18"
  "offsetof Flags = 20" "offsetof Advertised_window = 21" "offsetof Extension_length = 23"
  "offsetof Extension_data = 25"
  by (simp_all add: offsetof_def cmu_tcp_header_t_def)

definition SYN_FLAG_MASK :: u8 where "SYN_FLAG_MASK = 8"
definition ACK_FLAG_MASK :: u8 where "ACK_FLAG_MASK = 4"
definition FIN_FLAG_MASK :: u8 where "FIN_FLAG_MASK = 2"
definition IDENTIFIER :: u32 where "IDENTIFIER = 15441"

text \<open>\<open>inc/grading.h\<close> and the macro \<open>MSS\<close>.\<close>

definition MAX_LEN :: nat where "MAX_LEN = 1400"
definition MSS :: nat where "MSS = MAX_LEN - sizeof_header"
definition CP1_WINDOW_SIZE :: nat where "CP1_WINDOW_SIZE = MSS * 32"
definition DEFAULT_TIMEOUT :: int where "DEFAULT_TIMEOUT = 3000"

lemma MSS_eq [simp]: "MSS = 1375"
  by (simp add: MSS_def MAX_LEN_def)

text \<open>Loads and stores of a little-endian host, checked against the size of the block.\<close>

definition load8 :: "u8 list \<Rightarrow> nat \<Rightarrow> u8 res" where
  "load8 m off = (if off < length m then Inr (m ! off) else Inl OutOfBounds)"

definition load16 :: "u8 list \<Rightarrow> nat \<Rightarrow> u16 res" where
  "load16 m off =
     (if off + 2 \<le> length m
      then Inr (ucast (m ! off) OR push_bit 8 (ucast (m ! (off + 1))))
      else Inl OutOfBounds)"

definition load32 :: "u8 list \<Rightarrow> nat \<Rightarrow> u32 res" where
  "load32 m off =
     (if off + 4 \<le> length m
      then Inr (ucast (m ! off) OR push_bit 8 (ucast (m ! (off + 1)))
             OR push_bit 16 (ucast (m ! (off + 2))) OR push_bit 24 (ucast (m ! (off + 3))))
      else Inl OutOfBounds)"

definition store8 :: "u8 list \<Rightarrow> nat \<Rightarrow> u8 \<Rightarrow> u8 list res" where
  "store8 m off w = (if off < length m then Inr (m[off := w]) else Inl OutOfBounds)"

definition store16 :: "u8 list \<Rightarrow> nat \<Rightarrow> u16 \<Rightarrow> u8 list res" where
  "store16 m off w =
     (if off + 2 \<le> length m
      then Inr (m[off := ucast w, off + 1 := ucast (drop_bit 8 w)])
      else Inl OutOfBounds)"

definition store32 :: "u8 list \<Rightarrow> nat \<Rightarrow> u32 \<Rightarrow> u8 list res" where
  "store32 m off w =
     (if off + 4 \<le> length m
      then Inr (m[off := ucast w, off + 1 := ucast (drop_bit 8 w),
                  off + 2 := ucast (drop_bit 16 w), off + 3 := ucast (drop_bit 24 w)])
      else Inl OutOfBounds)"

text \<open>\<open>htons\<close>, \<open>ntohs\<close>, \<open>htonl\<close>, \<open>ntohl\<close> on such a host swap the bytes.\<close>

definition htons :: "u16 \<Rightarrow> u16" where
  "htons w = push_bit 8 (ucast (ucast w :: u8)) OR ucast (ucast (drop_bit 8 w) :: u8)"

definition htonl :: "u32 \<Rightarrow> u32" where
  "htonl w = push_bit 24 (ucast (ucast w :: u8)) OR push_bit 16 (ucast (ucast (drop_bit 8 w) :: u8))
     OR push_bit 8 (ucast (ucast (drop_bit 16 w) :: u8)) OR ucast (ucast (drop_bit 24 w) :: u8)"

abbreviation ntohs :: "u16 \<Rightarrow> u16" where "ntohs \<equiv> htons"
abbreviation ntohl :: "u32 \<Rightarrow> u32" where "ntohl \<equiv> htonl"

section \<open>Getters and setters\<close>

definition get_src :: "u8 list \<Rightarrow> u16 res" where
  "get_src header = bindF (load16 header (offsetof Source_port)) (\<lambda>v. Inr (ntohs v))"

definition get_dst :: "u8 list \<Rightarrow> u16 res" where
  "get_dst header = bindF (load16 header (offsetof Destination_port)) (\<lambda>v. Inr (ntohs v))"

definition get_seq :: "u8 list \<Rightarrow> u32 res" where
  "get_seq header = bindF (load32 header (offsetof Seq_num)) (\<lambda>v. Inr (ntohl v))"

definition get_ack :: "u8 list \<Rightarrow> u32 res" where
  "get_ack header = bindF (load32 header (offsetof Ack_num)) (\<lambda>v. Inr (ntohl v))"

definition get_hlen :: "u8 list \<Rightarrow> u16 res" where
  "get_hlen header = bindF (load16 header (offsetof Hlen)) (\<lambda>v. Inr (ntohs v))"

definition get_plen :: "u8 list \<Rightarrow> u16 res" where
  "get_plen header = bindF (load16 header (offsetof Plen)) (\<lambda>v. Inr (ntohs v))"

definition get_flags :: "u8 list \<Rightarrow> u8 res" where
  "get_flags header = load8 header (offsetof Flags)"

definition get_advertised_window :: "u8 list \<Rightarrow> u16 res" where
  "get_advertised_window header =
     bindF (load16 header (offsetof Advertised_window)) (\<lambda>v. Inr (ntohs v))"

definition get_extension_length :: "u8 list \<Rightarrow> u16 res" where
  "get_extension_length header =
     bindF (load16 header (offsetof Extension_length)) (\<lambda>v. Inr (ntohs v))"

text \<open>\<open>header + 1\<close>, as an offset into the packet.\<close>

definition get_extension_data :: "u8 list \<Rightarrow> nat" where
  "get_extension_data header = sizeof_header"

definition set_src :: "u8 list \<Rightarrow> u16 \<Rightarrow> u8 list res" where
  "set_src header src = store16 header (offsetof Source_port) (htons src)"

definition set_dst :: "u8 list \<Rightarrow> u16 \<Rightarrow> u8 list res" where
  "set_dst header dst = store16 header (offsetof Destination_port) (htons dst)"

definition set_seq :: "u8 list \<Rightarrow> u32 \<Rightarrow> u8 list res" where
  "set_seq header seq = store32 header (offsetof Seq_num) (htonl seq)"

definition set_ack :: "u8 list \<Rightarrow> u32 \<Rightarrow> u8 list res" where
  "set_ack header ack = store32 header (offsetof Ack_num) (htonl ack)"

definition set_hlen :: "u8 list \<Rightarrow> u16 \<Rightarrow> u8 list res" where
  "set_hlen header hlen = store16 header (offsetof Hlen) (htons hlen)"

definition set_plen :: "u8 list \<Rightarrow> u16 \<Rightarrow> u8 list res" where
  "set_plen header plen = store16 header (offsetof Plen) (htons plen)"

definition set_flags :: "u8 list \<Rightarrow> u8 \<Rightarrow> u8 list res" where
  "set_flags header flags = store8 header (offsetof Flags) flags"

definition set_advertised_window :: "u8 list \<Rightarrow> u16 \<Rightarrow> u8 list res" where
  "set_advertised_window header adv_window =
     store16 header (offsetof Advertised_window) (htons adv_window)"

definition set_extension_length :: "u8 list \<Rightarrow> u16 \<Rightarrow> u8 list res" where
  "set_extension_length header ext = store16 header (offsetof Extension_length) (htons ext)"

definition set_extension_data :: "u8 list \<Rightarrow> u8 list \<Rightarrow> u8 list res" where
  "set_extension_data header ext_data =
     bindF (get_extension_length header) (\<lambda>n.
       memcpy header (offsetof Extension_data) ext_data 0 (unat n))"

definition set_header ::
  "u8 list \<Rightarrow> u16 \<Rightarrow> u16 \<Rightarrow> u32 \<Rightarrow> u32 \<Rightarrow> u16 \<Rightarrow> u16 \<Rightarrow> u8 \<Rightarrow> u16 \<Rightarrow> u16 \<Rightarrow> u8 list \<Rightarrow> u8 list res"
where
  "set_header header src dst seq ack hlen plen flags adv_window ext ext_data =
     bindF (store32 header (offsetof Identifier) (htonl IDENTIFIER)) (\<lambda>h.
     bindF (store16 h (offsetof Source_port) (htons src)) (\<lambda>h.
     bindF (store16 h (offsetof Destination_port) (htons dst)) (\<lambda>h.
     bindF (store32 h (offsetof Seq_num) (htonl seq)) (\<lambda>h.
     bindF (store32 h (offsetof Ack_num) (htonl ack)) (\<lambda>h.
     bindF (store16 h (offsetof Hlen) (htons hlen)) (\<lambda>h.
     bindF (store16 h (offsetof Plen) (htons plen)) (\<lambda>h.
     bindF (store8 h (offsetof Flags) flags) (\<lambda>h.
     bindF (store16 h (offsetof Advertised_window) (htons adv_window)) (\<lambda>h.
     bindF (store16 h (offsetof Extension_length) (htons ext)) (\<lambda>h.
       memcpy h (offsetof Extension_data) ext_data 0 (unat ext)))))))))))"

text \<open>Where the payload starts, and how long the header says it is (in \<open>uint16_t\<close>).\<close>

definition get_payload :: "u8 list \<Rightarrow> nat res" where
  "get_payload pkt =
     bindF (get_extension_length pkt) (\<lambda>ext_len. Inr (sizeof_header + unat ext_len))"

definition get_payload_len :: "u8 list \<Rightarrow> u16 res" where
  "get_payload_len pkt =
     bindF (get_plen pkt) (\<lambda>plen. bindF (get_hlen pkt) (\<lambda>hlen. Inr (plen - hlen)))"

definition set_payload :: "u8 list \<Rightarrow> u8 list \<Rightarrow> u16 \<Rightarrow> u8 list res" where
  "set_payload pkt payload payload_len =
     bindF (get_extension_length pkt) (\<lambda>ext_len.
       memcpy pkt (sizeof_header + unat ext_len) payload 0 (unat payload_len))"

text \<open>
  \<open>create_packet\<close>; \<open>None\<close> is the \<open>NULL\<close> it returns for inconsistent lengths. The pointer
  \<open>payload\<close> is given by the bytes from where it points to the end of its block.
\<close>

definition create_packet ::
  "(nat \<Rightarrow> u8) \<Rightarrow> u16 \<Rightarrow> u16 \<Rightarrow> u32 \<Rightarrow> u32 \<Rightarrow> u16 \<Rightarrow> u16 \<Rightarrow> u8 \<Rightarrow> u16 \<Rightarrow> u16 \<Rightarrow> u8 list \<Rightarrow>
   u8 list \<Rightarrow> u16 \<Rightarrow> u8 list option res"
where
  "create_packet junk src dst seq ack hlen plen flags adv_window ext_len ext_data
     payload payload_len =
     (if unat hlen < sizeof_header then Inr None
      else if plen < hlen then Inr None
      else
        let packet = malloc junk (sizeof_header + unat payload_len) in
        bindF (set_header packet src dst seq ack hlen plen flags adv_window ext_len ext_data)
          (\<lambda>packet.
        bindF (get_payload packet) (\<lambda>pkt_payload.
        bindF (memcpy packet pkt_payload payload 0 (unat payload_len)) (\<lambda>packet.
          Inr (Some packet)))))"

section \<open>Sequence number comparison\<close>

definition before :: "u32 \<Rightarrow> u32 \<Rightarrow> bool" where
  "before seq1 seq2 \<longleftrightarrow> sint (seq1 - seq2) < 0"

definition after :: "u32 \<Rightarrow> u32 \<Rightarrow> bool" where
  "after seq1 seq2 \<longleftrightarrow> before seq2 seq1"

definition between :: "u32 \<Rightarrow> u32 \<Rightarrow> u32 \<Rightarrow> bool" where
  "between seq low high \<longleftrightarrow> high - low \<ge> seq - low"

section \<open>The header on the wire\<close>

text \<open>
  What the README promises: the fields in network byte order, one after the other, 25 bytes
  in all.
\<close>

definition be16 :: "u16 \<Rightarrow> u8 list" where
  "be16 w = [ucast (drop_bit 8 w), ucast w]"

definition be32 :: "u32 \<Rightarrow> u8 list" where
  "be32 w = [ucast (drop_bit 24 w), ucast (drop_bit 16 w), ucast (drop_bit 8 w), ucast w]"

lemma length_be [simp]: "length (be16 v) = 2" "length (be32 w) = 4"
  by (simp_all add: be16_def be32_def)

definition wire_header ::
  "u16 \<Rightarrow> u16 \<Rightarrow> u32 \<Rightarrow> u32 \<Rightarrow> u16 \<Rightarrow> u16 \<Rightarrow> u8 \<Rightarrow> u16 \<Rightarrow> u16 \<Rightarrow> u8 list"
where
  "wire_header src dst seq ack hlen plen flags adv_window ext =
     be32 IDENTIFIER @ be16 src @ be16 dst @ be32 seq @ be32 ack @ be16 hlen @ be16 plen @
     [flags] @ be16 adv_window @ be16 ext"

lemma length_wire_header [simp]:
  "length (wire_header src dst seq ack hlen plen flags adv_window ext) = 25"
  by (simp add: wire_header_def)

section \<open>Byte order\<close>

lemma ucast_htons: "(ucast (htons w) :: u8) = ucast (drop_bit 8 w)" "(ucast (drop_bit 8 (htons w)) :: u8) = ucast w"
  by (rule bit_word_eqI; auto simp: htons_def bit_simps)+

lemma ucast_htonl:
  "(ucast (htonl w) :: u8) = ucast (drop_bit 24 w)"
  "(ucast (drop_bit 8 (htonl w)) :: u8) = ucast (drop_bit 16 w)"
  "(ucast (drop_bit 16 (htonl w)) :: u8) = ucast (drop_bit 8 w)"
  "(ucast (drop_bit 24 (htonl w)) :: u8) = ucast w"
  by (rule bit_word_eqI; auto simp: htonl_def bit_simps)+

lemma len2E: "length ys = 2 \<Longrightarrow> \<exists>a b. ys = [a, b]"
  by (auto simp: numeral_eq_Suc length_Suc_conv)
lemma len4E: "length ys = 4 \<Longrightarrow> \<exists>a b c d. ys = [a, b, c, d]"
  by (auto simp: numeral_eq_Suc length_Suc_conv)

lemma store16_be:
  "length xs = off \<Longrightarrow> length ys = 2 \<Longrightarrow>
   store16 (xs @ ys @ zs) off (htons w) = Inr (xs @ be16 w @ zs)"
  by (auto dest!: len2E simp: store16_def be16_def ucast_htons list_update_append)

lemma store32_be:
  "length xs = off \<Longrightarrow> length ys = 4 \<Longrightarrow>
   store32 (xs @ ys @ zs) off (htonl w) = Inr (xs @ be32 w @ zs)"
  by (auto dest!: len4E simp: store32_def be32_def ucast_htonl list_update_append)

lemma bytes16:
  fixes a b :: u8
  defines "X \<equiv> ucast a OR push_bit 8 (ucast b) :: u16"
  shows "ucast X = a" "ucast (drop_bit 8 X) = b"
  unfolding X_def by (rule bit_word_eqI; auto simp: bit_simps dest: bit_imp_le_length)+

lemma le16_htons: "ucast (ucast (drop_bit 8 w) :: u8) OR push_bit 8 (ucast (ucast w :: u8)) = htons w"
  by (simp add: htons_def or.commute)

lemma htons_htons [simp]: "htons (htons w) = w"
  by (rule bit_word_eqI) (auto simp: htons_def bit_simps)

lemma bytes32:
  fixes a b c d :: u8
  defines "X \<equiv> ucast a OR push_bit 8 (ucast b) OR push_bit 16 (ucast c) OR push_bit 24 (ucast d) :: u32"
  shows "ucast X = a" "ucast (drop_bit 8 X) = b" "ucast (drop_bit 16 X) = c" "ucast (drop_bit 24 X) = d"
  unfolding X_def by (rule bit_word_eqI; auto simp: bit_simps dest: bit_imp_le_length)+

lemma word32_bytes:
  "push_bit 24 (ucast (ucast (drop_bit 24 w) :: u8) :: u32) OR push_bit 16 (ucast (ucast (drop_bit 16 w) :: u8))
     OR push_bit 8 (ucast (ucast (drop_bit 8 w) :: u8)) OR ucast (ucast w :: u8) = (w :: u32)"
proof (rule bit_word_eqI)
  fix n assume "n < LENGTH(32)"
  then consider "n < 8" | "8 \<le> n" "n < 16" | "16 \<le> n" "n < 24" | "24 \<le> n" "n < 32" by force
  then show "bit (push_bit 24 (ucast (ucast (drop_bit 24 w) :: u8) :: u32) OR push_bit 16 (ucast (ucast (drop_bit 16 w) :: u8))
     OR push_bit 8 (ucast (ucast (drop_bit 8 w) :: u8)) OR ucast (ucast w :: u8)) n = bit w n"
    by cases (auto simp: bit_simps)
qed

lemma le32_htonl:
  "ucast (ucast (drop_bit 24 w) :: u8) OR push_bit 8 (ucast (ucast (drop_bit 16 w) :: u8))
     OR push_bit 16 (ucast (ucast (drop_bit 8 w) :: u8)) OR push_bit 24 (ucast (ucast w :: u8)) = htonl w"
  by (simp add: htonl_def or.commute or.left_commute)

lemma htonl_htonl [simp]: "htonl (htonl w) = w"
proof -
  have "htonl (htonl w) = htonl (ucast (ucast (drop_bit 24 w) :: u8)
      OR push_bit 8 (ucast (ucast (drop_bit 16 w) :: u8))
      OR push_bit 16 (ucast (ucast (drop_bit 8 w) :: u8)) OR push_bit 24 (ucast (ucast w :: u8)))"
    by (simp only: le32_htonl)
  also have "\<dots> = w"
    by (subst htonl_def, unfold bytes32, rule word32_bytes)
  finally show ?thesis .
qed

lemma load16_be:
  "length xs = off \<Longrightarrow> load16 (xs @ be16 w @ zs) off = Inr (htons w)"
  by (simp add: load16_def be16_def nth_append le16_htons)

lemma load32_be:
  "length xs = off \<Longrightarrow> load32 (xs @ be32 w @ zs) off = Inr (htonl w)"
  by (simp add: load32_def be32_def nth_append le32_htonl)

lemma load8_at: "length xs = off \<Longrightarrow> load8 (xs @ y # zs) off = Inr y"
  by (simp add: load8_def nth_append)

lemma store8_app: "length xs = off \<Longrightarrow> store8 (xs @ y # zs) off w = Inr (xs @ w # zs)"
  by (simp add: store8_def list_update_append)

lemma header_split:
  assumes "25 \<le> length m"
  obtains a b c d e f g i j k where
    "m = a @ b @ c @ d @ e @ f @ g @ [i] @ j @ k @ drop 25 m"
    "length a = 4" "length b = 2" "length c = 2" "length d = 4" "length e = 4"
    "length f = 2" "length g = 2" "length j = 2" "length k = 2"
proof -
  have cut: "drop n m = take l (drop n m) @ drop (n + l) m" for n l
    by (metis append_take_drop_id drop_drop add.commute)
  have "take 1 (drop 20 m) = [m ! 20]"
    using assms by (simp add: take_Suc hd_drop_conv_nth)
  then have "m = take 4 m @ take 2 (drop 4 m) @ take 2 (drop 6 m) @ take 4 (drop 8 m) @
    take 4 (drop 12 m) @ take 2 (drop 16 m) @ take 2 (drop 18 m) @ [m ! 20] @
    take 2 (drop 21 m) @ take 2 (drop 23 m) @ drop 25 m"
    using cut [of 0 4] cut [of 4 2] cut [of 6 2] cut [of 8 4] cut [of 12 4] cut [of 16 2]
      cut [of 18 2] cut [of 20 1] cut [of 21 2] cut [of 23 2] by simp
  with assms show ?thesis by (intro that) (assumption, simp_all)
qed

lemma set_header_wire:
  assumes "25 \<le> length m"
  shows "set_header m src dst seq ack hlen plen flags adv_window ext ext_data =
    memcpy (wire_header src dst seq ack hlen plen flags adv_window ext @ drop 25 m) 25 ext_data 0
      (unat ext)"
proof -
  obtain a b c d e f g i j k r where m: "m = a @ b @ c @ d @ e @ f @ g @ [i] @ j @ k @ r"
      and r: "r = drop 25 m"
      and l: "length a = 4" "length b = 2" "length c = 2" "length d = 4" "length e = 4"
        "length f = 2" "length g = 2" "length j = 2" "length k = 2"
    using header_split [OF assms] by metis
  show ?thesis
    unfolding r [symmetric] unfolding m set_header_def wire_header_def
    by (simp add: l
      store32_be [of "[]" 0 a, simplified]
      store16_be [of "be32 IDENTIFIER" 4 b, simplified]
      store16_be [of "be32 IDENTIFIER @ be16 src" 6 c, simplified]
      store32_be [of "be32 IDENTIFIER @ be16 src @ be16 dst" 8 d, simplified]
      store32_be [of "be32 IDENTIFIER @ be16 src @ be16 dst @ be32 seq" 12 e, simplified]
      store16_be [of "be32 IDENTIFIER @ be16 src @ be16 dst @ be32 seq @ be32 ack" 16 f, simplified]
      store16_be [of "be32 IDENTIFIER @ be16 src @ be16 dst @ be32 seq @ be32 ack @ be16 hlen" 18 g, simplified]
      store8_app [of "be32 IDENTIFIER @ be16 src @ be16 dst @ be32 seq @ be32 ack @ be16 hlen @ be16 plen" 20, simplified]
      store16_be [of "be32 IDENTIFIER @ be16 src @ be16 dst @ be32 seq @ be32 ack @ be16 hlen @ be16 plen @ [flags]" 21 j, simplified]
      store16_be [of "be32 IDENTIFIER @ be16 src @ be16 dst @ be32 seq @ be32 ack @ be16 hlen @ be16 plen @ [flags] @ be16 adv_window" 23 k, simplified])
qed

lemma get_wire_header:
  fixes src dst seq ack hlen plen flags adv_window ext rest
  defines "h \<equiv> wire_header src dst seq ack hlen plen flags adv_window ext @ rest"
  shows "get_src h = Inr src"
    and "get_dst h = Inr dst"
    and "get_seq h = Inr seq"
    and "get_ack h = Inr ack"
    and "get_hlen h = Inr hlen"
    and "get_plen h = Inr plen"
    and "get_flags h = Inr flags"
    and "get_advertised_window h = Inr adv_window"
    and "get_extension_length h = Inr ext"
  unfolding h_def wire_header_def
  by (simp_all add: get_src_def get_dst_def get_seq_def get_ack_def get_hlen_def get_plen_def
    get_flags_def get_advertised_window_def get_extension_length_def
    load16_be [of "be32 IDENTIFIER" 4 src, simplified]
    load16_be [of "be32 IDENTIFIER @ be16 src" 6 dst, simplified]
    load32_be [of "be32 IDENTIFIER @ be16 src @ be16 dst" 8 seq, simplified]
    load32_be [of "be32 IDENTIFIER @ be16 src @ be16 dst @ be32 seq" 12 ack, simplified]
    load16_be [of "be32 IDENTIFIER @ be16 src @ be16 dst @ be32 seq @ be32 ack" 16 hlen, simplified]
    load16_be [of "be32 IDENTIFIER @ be16 src @ be16 dst @ be32 seq @ be32 ack @ be16 hlen" 18 plen, simplified]
    load8_at [of "be32 IDENTIFIER @ be16 src @ be16 dst @ be32 seq @ be32 ack @ be16 hlen @ be16 plen" 20 flags, simplified]
    load16_be [of "be32 IDENTIFIER @ be16 src @ be16 dst @ be32 seq @ be32 ack @ be16 hlen @ be16 plen @ [flags]" 21 adv_window, simplified]
    load16_be [of "be32 IDENTIFIER @ be16 src @ be16 dst @ be32 seq @ be32 ack @ be16 hlen @ be16 plen @ [flags] @ be16 adv_window" 23 ext, simplified])

section \<open>Building and reading packets\<close>

lemma get_payload_wire_header:
  "get_payload (wire_header src dst seq ack hlen plen flags adv_window ext @ rest) =
     Inr (25 + unat ext)"
  and get_payload_len_wire_header:
  "get_payload_len (wire_header src dst seq ack hlen plen flags adv_window ext @ rest) =
     Inr (plen - hlen)"
  by (simp_all add: get_payload_def get_payload_len_def get_wire_header)

lemma create_packet_ok:
  assumes "25 \<le> unat hlen" and "hlen \<le> plen" and "unat payload_len \<le> length payload"
  shows "create_packet junk src dst seq ack hlen plen flags adv_window 0 ext_data payload
      payload_len =
    Inr (Some (wire_header src dst seq ack hlen plen flags adv_window 0
               @ take (unat payload_len) payload))"
  using assms
  by (cases "payload_len = 0")
    (auto simp: create_packet_def set_header_wire get_payload_wire_header memcpy_def
      get_payload_wire_header [where rest = "[]", simplified])

text \<open>
  C35: \<open>create_packet\<close> on every input. Header lengths that do not fit give \<open>NULL\<close>;
  an extension length other than zero always writes past the block it allocated, whatever
  the other arguments; a payload pointer with fewer bytes than announced is read past its
  end; and in every other case the packet is the 25 big-endian header bytes of the README
  followed by the payload, whatever the fresh block held before.
\<close>

theorem create_packet_complete:
  "create_packet junk src dst seq ack hlen plen flags adv_window ext_len ext_data
     payload payload_len =
   (if unat hlen < 25 \<or> plen < hlen then Inr None
    else if ext_len \<noteq> 0 \<or> (payload_len \<noteq> 0 \<and> length payload < unat payload_len)
    then Inl OutOfBounds
    else Inr (Some (wire_header src dst seq ack hlen plen flags adv_window 0
                    @ take (unat payload_len) payload)))"
    (is "?c = ?rhs")
proof (cases "unat hlen < 25 \<or> plen < hlen")
  case True
  then show ?thesis by (auto simp: create_packet_def)
next
  case args: False
  let ?w = "wire_header src dst seq ack hlen plen flags adv_window ext_len"
  let ?m = "drop 25 (malloc junk (25 + unat payload_len))"
  have c: "?c = bindF (memcpy (?w @ ?m) 25 ext_data 0 (unat ext_len)) (\<lambda>packet.
      bindF (get_payload packet) (\<lambda>pkt_payload.
      bindF (memcpy packet pkt_payload payload 0 (unat payload_len)) (\<lambda>packet.
        Inr (Some packet))))"
    using args by (simp add: create_packet_def set_header_wire)
  show ?thesis
  proof (cases "ext_len = 0")
    case True
    show ?thesis
    proof (cases "payload_len \<noteq> 0 \<and> length payload < unat payload_len")
      case True
      with \<open>ext_len = 0\<close> args show ?thesis
        unfolding c by (simp add: get_payload_wire_header memcpy_def unat_eq_0)
    next
      case False
      then have "unat payload_len \<le> length payload" by auto
      with False \<open>ext_len = 0\<close> args show ?thesis
        by (simp add: create_packet_ok not_less del: length_0_conv)
    qed
  next
    case False
    then have e: "0 < unat ext_len" by (simp add: unat_gt_0)
    have "?c = Inl OutOfBounds"
    proof (cases "unat ext_len \<le> unat payload_len \<and> unat ext_len \<le> length ext_data")
      case True
      then have "memcpy (?w @ ?m) 25 ext_data 0 (unat ext_len) =
          Inr (?w @ take (unat ext_len) ext_data @ drop (25 + unat ext_len) (?w @ ?m))"
        by (simp add: memcpy_def)
      with True e show ?thesis
        unfolding c by (simp add: get_payload_wire_header memcpy_def)
    next
      case False
      with e show ?thesis unfolding c by (auto simp: memcpy_def)
    qed
    with False args show ?thesis by simp
  qed
qed

theorem create_packet_complete_witness:
  "create_packet (\<lambda>_. 7) 1 2 3 4 20 25 4 512 0 [] [] 0 = Inr None
    \<and> create_packet (\<lambda>_. 7) 1 2 3 4 25 25 4 512 1 [9] [] 0 = Inl OutOfBounds
    \<and> create_packet (\<lambda>_. 7) 1 2 3 4 25 27 4 512 0 [] [8, 9, 10] 2
        = Inr (Some (wire_header 1 2 3 4 25 27 4 512 0 @ [8, 9]))"
  using create_packet_complete [of "\<lambda>_. 7" 1 2 3 4 20 25 4 512 0 "[]" "[]" 0]
    create_packet_complete [of "\<lambda>_. 7" 1 2 3 4 25 25 4 512 1 "[9]" "[]" 0]
    create_packet_complete [of "\<lambda>_. 7" 1 2 3 4 25 27 4 512 0 "[]" "[8, 9, 10]" 2]
  by simp

text \<open>
  C36: Round trip. A packet built by \<open>create_packet\<close> without an extension reads back,
  through the getters the receiving side uses, as exactly the fields and the payload it was
  built from.
\<close>

theorem packet_roundtrip:
  assumes "25 \<le> unat hlen" and "hlen \<le> plen" and "unat payload_len \<le> length payload"
  shows "\<exists>pkt. create_packet junk src dst seq ack hlen plen flags adv_window 0 ext_data payload
      payload_len = Inr (Some pkt)
    \<and> length pkt = 25 + unat payload_len
    \<and> get_src pkt = Inr src \<and> get_dst pkt = Inr dst
    \<and> get_seq pkt = Inr seq \<and> get_ack pkt = Inr ack
    \<and> get_hlen pkt = Inr hlen \<and> get_plen pkt = Inr plen
    \<and> get_flags pkt = Inr flags \<and> get_advertised_window pkt = Inr adv_window
    \<and> get_extension_length pkt = Inr 0
    \<and> get_payload pkt = Inr 25 \<and> get_payload_len pkt = Inr (plen - hlen)
    \<and> drop 25 pkt = take (unat payload_len) payload"
  using assms
  by (simp add: create_packet_ok get_wire_header get_payload_wire_header
    get_payload_len_wire_header not_less word_le_nat_alt)

theorem packet_roundtrip_witness:
  "\<exists>pkt. create_packet (\<lambda>_. 7) 1234 15441 1000 2000 25 28 4 512 0 [] [1, 2, 3] 3 = Inr (Some pkt)
    \<and> get_seq pkt = Inr 1000 \<and> get_payload_len pkt = Inr 3 \<and> drop 25 pkt = [1, 2, 3]"
  using packet_roundtrip [of 25 28 3 "[1, 2, 3]" "\<lambda>_. 7" 1234 15441 1000 2000 4 512 "[]"]
  by auto

text \<open>
  The comparison helpers of \<open>cmu_packet.h\<close> follow serial number arithmetic: a number
  less than half the space ahead counts as later, also across the wrap at \<open>2 ^ 32\<close>.
\<close>

lemma before_plus:
  fixes s n :: u32
  assumes "0 < n" and "unat n < 2 ^ 31"
  shows "before s (s + n) \<and> \<not> before (s + n) s \<and> after (s + n) s \<and> between s s (s + n)"
proof -
  have "unat (- n) = 2 ^ 32 - unat n" using assms(1) by (intro unat_uminus32) auto
  with assms show ?thesis by (simp add: before_def after_def between_def sint_neg_u32)
qed

lemma before_plus_witness:
  "before 0xFFFFFFFF (0xFFFFFFFF + 2) \<and> \<not> before (0xFFFFFFFF + 2) 0xFFFFFFFF
    \<and> after (0xFFFFFFFF + 2) 0xFFFFFFFF \<and> between 0xFFFFFFFF 0xFFFFFFFF (0xFFFFFFFF + 2)"
  by (rule before_plus) simp_all

end
