(* ===== verification/Ring.thy ===== *)
theory Ring
  imports Prelude
begin

text \<open>
  Rings of bytes, shared by the two buffers: the arithmetic of an index and its distance
  from the base, and reading and writing a run of bytes that may go past the end of the
  array, with the lemmas that the one-piece and two-piece \<open>memcpy\<close>s of the code do
  exactly that.
\<close>

section \<open>Ring indices\<close>

text \<open>
  Both buffers are rings of \<open>cap\<close> bytes with a base index \<open>b\<close>. Position \<open>k\<close> after the
  base sits at \<open>(b + k) mod cap\<close>; the code recovers the distance of an index from the base
  with a comparison, in two variants: one reads the base itself as distance 0 (used for the
  last byte sent), the other as distance \<open>cap\<close> (used for the next byte to write or expect).
\<close>

definition dist0 :: "nat \<Rightarrow> nat \<Rightarrow> nat \<Rightarrow> nat" where
  "dist0 cap b i = (if b \<le> i then i - b else cap - b + i)"

definition dist1 :: "nat \<Rightarrow> nat \<Rightarrow> nat \<Rightarrow> nat" where
  "dist1 cap b i = (if b < i then i - b else cap - b + i)"

lemma ring_mod: "b < cap \<Longrightarrow> k \<le> cap \<Longrightarrow>
  (b + k) mod cap = (if b + k < cap then b + k else b + k - cap)" for cap :: nat
  by (auto simp: le_mod_geq)

lemma dist0_ring [simp]: "b < cap \<Longrightarrow> k < cap \<Longrightarrow> dist0 cap b ((b + k) mod cap) = k"
  by (auto simp: dist0_def ring_mod)

lemma dist1_ring [simp]:
  "b < cap \<Longrightarrow> 0 < k \<Longrightarrow> k \<le> cap \<Longrightarrow> dist1 cap b ((b + k) mod cap) = k"
  by (auto simp: dist1_def ring_mod)

lemma dist0_less: "b < cap \<Longrightarrow> i < cap \<Longrightarrow> dist0 cap b i < cap"
  by (auto simp: dist0_def)

lemma dist1_le: "b < cap \<Longrightarrow> i < cap \<Longrightarrow> dist1 cap b i \<le> cap"
  by (auto simp: dist1_def)

lemma dist1_pos: "b < cap \<Longrightarrow> 0 < dist1 cap b i"
  by (auto simp: dist1_def)

lemma ring_dist0: "b < cap \<Longrightarrow> i < cap \<Longrightarrow> (b + dist0 cap b i) mod cap = i"
  by (auto simp: dist0_def)

lemma ring_dist1: "b < cap \<Longrightarrow> i < cap \<Longrightarrow> (b + dist1 cap b i) mod cap = i"
  by (auto simp: dist1_def)

text \<open>Moving the base forward by \<open>n\<close> shortens every distance by \<open>n\<close>.\<close>

lemma dist0_rebase:
  assumes "b < cap" and "i < cap" and "n \<le> dist0 cap b i"
  shows "dist0 cap ((b + n) mod cap) i = dist0 cap b i - n"
proof -
  have "n \<le> cap" using dist0_less [OF assms(1,2)] assms(3) by simp
  then show ?thesis using assms by (auto simp: ring_mod dist0_def split: if_splits)
qed

lemma dist1_rebase:
  assumes "b < cap" and "i < cap" and "n < dist1 cap b i"
  shows "dist1 cap ((b + n) mod cap) i = dist1 cap b i - n"
proof -
  have "n \<le> cap" using dist1_le [OF assms(1,2)] assms(3) by simp
  then show ?thesis using assms by (auto simp: ring_mod dist1_def split: if_splits)
qed

lemma ring_inj:
  fixes cap :: nat
  assumes "b < cap" and "j < cap" and "k < cap" and "(b + j) mod cap = (b + k) mod cap"
  shows "j = k"
proof -
  from assms have "dist0 cap b ((b + j) mod cap) = dist0 cap b ((b + k) mod cap)" by simp
  with assms(1-3) show ?thesis by simp
qed

section \<open>Runs of bytes in a ring\<close>

text \<open>The \<open>n\<close> bytes from index \<open>s\<close> on, and writing the bytes \<open>d\<close> from index \<open>s\<close> on.\<close>

definition ring_get :: "u8 list \<Rightarrow> nat \<Rightarrow> nat \<Rightarrow> u8 list" where
  "ring_get buf s n = map (\<lambda>k. buf ! ((s + k) mod length buf)) [0..<n]"

definition ring_put :: "u8 list \<Rightarrow> nat \<Rightarrow> u8 list \<Rightarrow> u8 list" where
  "ring_put buf s d =
     map (\<lambda>j. let k = dist0 (length buf) s j in if k < length d then d ! k else buf ! j)
       [0..<length buf]"

lemma length_ring_get [simp]: "length (ring_get buf s n) = n"
  by (simp add: ring_get_def)

lemma length_ring_put [simp]: "length (ring_put buf s d) = length buf"
  by (simp add: ring_put_def)

lemma nth_ring_get [simp]: "k < n \<Longrightarrow> ring_get buf s n ! k = buf ! ((s + k) mod length buf)"
  by (simp add: ring_get_def)

lemma nth_ring_put:
  "s < length buf \<Longrightarrow> k < length buf \<Longrightarrow>
   ring_put buf s d ! ((s + k) mod length buf) =
     (if k < length d then d ! k else buf ! ((s + k) mod length buf))"
proof -
  assume s: "s < length buf" and k: "k < length buf"
  let ?j = "(s + k) mod length buf"
  have "?j < length buf" using s by (intro mod_less_divisor) auto
  then have "ring_put buf s d ! ?j =
      (if dist0 (length buf) s ?j < length d then d ! dist0 (length buf) s ?j else buf ! ?j)"
    by (simp add: ring_put_def Let_def)
  then show ?thesis by (simp add: dist0_ring [OF s k])
qed

lemma ring_get_mod: "ring_get buf (s mod length buf) n = ring_get buf s n"
  by (simp add: ring_get_def mod_add_left_eq)

lemma take_ring_get: "take m (ring_get buf s n) = ring_get buf s (min m n)"
  by (rule nth_equalityI) auto

lemma drop_ring_get: "drop m (ring_get buf s n) = ring_get buf (s + m) (n - m)"
  by (rule nth_equalityI) (auto simp: add.assoc)

lemma ring_get_append: "ring_get buf s m @ ring_get buf (s + m) n = ring_get buf s (m + n)"
  by (rule nth_equalityI) (auto simp: nth_append add.assoc)

text \<open>The last bytes written are the ones read back; the ones before stay.\<close>

lemma ring_get_put:
  assumes "0 < length buf" and "n + length d \<le> length buf"
  shows "ring_get (ring_put buf ((b + n) mod length buf) d) b (n + length d) =
    ring_get buf b n @ d"
proof (rule nth_equalityI)
  let ?c = "length buf" and ?s = "(b + n) mod length buf"
  have s: "?s < ?c" using assms by (intro mod_less_divisor) auto
  fix k assume k: "k < length (ring_get (ring_put buf ?s d) b (n + length d))"
  show "ring_get (ring_put buf ?s d) b (n + length d) ! k = (ring_get buf b n @ d) ! k"
  proof (cases "k < n")
    case True
    let ?j = "?c - n + k"
    have "(?s + ?j) mod ?c = (b + k) mod ?c"
    proof -
      have "(?s + ?j) mod ?c = (b + n + ?j) mod ?c" by (rule mod_add_left_eq)
      also have "b + n + ?j = b + k + ?c" using True assms by simp
      finally show ?thesis by simp
    qed
    moreover have "ring_put buf ?s d ! ((?s + ?j) mod ?c) = buf ! ((?s + ?j) mod ?c)"
      using nth_ring_put [OF s, of ?j d] True assms by auto
    ultimately show ?thesis using True k by (simp add: nth_append)
  next
    case False
    then have "b + k = b + n + (k - n)" by simp
    then have "(b + k) mod ?c = (?s + (k - n)) mod ?c"
      by (simp only: mod_add_left_eq)
    moreover have i: "k - n < length d" using False k by simp
    moreover have "ring_put buf ?s d ! ((?s + (k - n)) mod ?c) = d ! (k - n)"
      using nth_ring_put [OF s, of "k - n" d] i assms by simp
    ultimately show ?thesis using False k by (simp add: nth_append)
  qed
qed simp

text \<open>The copy into a ring, in one piece or two, as both buffers write it.\<close>

lemma ring_put_one:
  assumes "s + length d \<le> length buf"
  shows "take s buf @ d @ drop (s + length d) buf = ring_put buf s d"
  by (rule nth_equalityI) (use assms in \<open>auto simp: ring_put_def dist0_def nth_append Let_def\<close>)

lemma nth_append_drop:
  "\<not> i < length p \<Longrightarrow> length p \<le> length b \<Longrightarrow> (p @ drop (length p) b) ! i = b ! i"
  by (simp add: nth_append)

lemma ring_put_two:
  assumes "s < length buf" and "length buf < s + length d" and "length d \<le> length buf"
  defines "t \<equiv> length buf - s"
  shows "drop t d @ drop (length d - t) (take s buf @ take t d) = ring_put buf s d"
proof (rule nth_equalityI)
  have t: "s + t = length buf" "t < length d" using assms by auto
  then show "length (drop t d @ drop (length d - t) (take s buf @ take t d)) =
      length (ring_put buf s d)"
    using assms(3) by simp
  fix i assume "i < length (drop t d @ drop (length d - t) (take s buf @ take t d))"
  then have i: "i < length buf" using t assms(3) by simp
  then have put: "ring_put buf s d ! i =
      (if dist0 (length buf) s i < length d then d ! dist0 (length buf) s i else buf ! i)"
    by (simp add: ring_put_def Let_def)
  consider "s \<le> i" | "i < length d - t" "i < s" | "length d - t \<le> i" "i < s" by linarith
  then show "(drop t d @ drop (length d - t) (take s buf @ take t d)) ! i = ring_put buf s d ! i"
  proof cases
    case 1
    let ?b = "take s buf @ take t d"
    have n: "\<not> i < length d - t" and l: "length d - t \<le> length ?b" using 1 t assms(3) by auto
    then have "(drop t d @ drop (length d - t) ?b) ! i = ?b ! i"
      using nth_append_drop [of i "drop t d" ?b] by simp
    also have "\<dots> = d ! (i - s)" using 1 t i by (simp add: nth_append)
    also have "\<dots> = ring_put buf s d ! i"
    proof -
      have "i - s < length d" using 1 t i by linarith
      then show ?thesis unfolding put using 1 by (simp add: dist0_def)
    qed
    finally show ?thesis .
  next
    case 2
    with t i assms(3) have "dist0 (length buf) s i = t + i" by (simp add: dist0_def)
    moreover have "t + i < length d" using 2 by linarith
    ultimately show ?thesis using 2 t by (simp add: put nth_append)
  next
    case 3
    with t i assms(3) have "\<not> dist0 (length buf) s i < length d" by (simp add: dist0_def)
    moreover have "(drop t d @ drop (length d - t) (take s buf @ take t d)) ! i = buf ! i"
      using nth_append_drop [of i "drop t d" "take s buf @ take t d"] 3 t i
      by (simp add: nth_append)
    ultimately show ?thesis by (simp add: put)
  qed
qed

lemma ring_put_Nil [simp]: "ring_put buf s [] = buf"
  by (rule nth_equalityI) (simp_all add: ring_put_def)

lemma memcpy_ring_put_one:
  assumes "s + len \<le> length buf" and "len \<le> length data"
  shows "memcpy buf s data 0 len = Inr (ring_put buf s (take len data))"
  using assms ring_put_one [of s "take len data" buf] by (cases "len = 0") (simp_all add: memcpy_def)

lemma memcpy_ring_put_two:
  assumes "s < length buf" and "length buf < s + len" and "len \<le> length buf"
    and "len \<le> length data" and "t = length buf - s"
  shows "bindF (memcpy buf s data 0 t) (\<lambda>b. memcpy b 0 data t (len - t)) =
    Inr (ring_put buf s (take len data))"
proof -
  have t: "0 < t" "t \<le> len" "t < len" "len - t \<le> length buf" "s + t = length buf"
    using assms by auto
  have l: "length (take len data) = len" using assms(4) by simp
  have "memcpy buf s data 0 t = Inr (take s buf @ take t data)"
    using t assms(4) by (simp add: memcpy_def)
  moreover have "memcpy (take s buf @ take t data) 0 data t (len - t) =
      Inr (take (len - t) (drop t data) @ drop (len - t) (take s buf @ take t data))"
    using t assms by (simp add: memcpy_def)
  moreover have "take (len - t) (drop t data) @ drop (len - t) (take s buf @ take t data) =
      ring_put buf s (take len data)"
    using ring_put_two [of s buf "take len data", unfolded l] assms(1-3,5) t(2)
    by (simp only: drop_take take_take min_absorb1)
  ultimately show ?thesis by simp
qed

lemma ring_get_one: "s + n \<le> length buf \<Longrightarrow> ring_get buf s n = take n (drop s buf)"
  by (rule nth_equalityI) auto

text \<open>The copy out of a ring, into the front of a block that may be longer.\<close>

lemma memcpy_ring_get_one:
  assumes "s + len \<le> length buf" and "len \<le> length dst"
  shows "memcpy dst 0 buf s len = Inr (ring_get buf s len @ drop len dst)"
  using assms by (cases "len = 0") (simp_all add: memcpy_def ring_get_one)

lemma memcpy_ring_get_two:
  assumes "s \<le> length buf" and "t = length buf - s" and "t \<le> len" and "len - t \<le> length buf"
    and "len \<le> length dst"
  shows "bindF (memcpy dst 0 buf s t) (\<lambda>d. memcpy d t buf 0 (len - t)) =
    Inr (ring_get buf s len @ drop len dst)"
proof -
  have "ring_get buf s len = ring_get buf s t @ ring_get buf (s + t) (len - t)"
    using assms(3) by (simp add: ring_get_append)
  also have "ring_get buf (s + t) (len - t) = ring_get buf 0 (len - t)"
    using assms(1,2) ring_get_mod [of buf "s + t" "len - t"] by simp
  finally have "ring_get buf s len = take t (drop s buf) @ take (len - t) buf"
    using assms by (simp add: ring_get_one)
  note g = this
  have "memcpy dst 0 buf s t = Inr (take t (drop s buf) @ drop t dst)"
    using assms by (cases "t = 0") (simp_all add: memcpy_def)
  moreover have "memcpy (take t (drop s buf) @ drop t dst) t buf 0 (len - t) =
      Inr (take t (drop s buf) @ take (len - t) buf @ drop len dst)"
    using assms by (cases "len = t") (auto simp: memcpy_def min_def)
  ultimately show ?thesis by (simp add: g)
qed

end
