(* ===== verification/Send_Buffer.thy ===== *)
theory Send_Buffer
  imports Ring
begin

text \<open>
  \<open>inc/send_buffer.h\<close> and \<open>src/send_buffer.c\<close>: the ring that keeps the bytes the
  application wrote until the peer acknowledges them. The struct is a record, its array a
  list of bytes, its indices and sequence numbers 32-bit words; every operation is the
  function of the same name on that record. The specification is a queue of bytes in
  flight and fresh bytes; each operation is shown to implement the queue's, and the queue's
  contract is the locale \<open>retransmission_queue\<close> that the backend's proofs rest on.
\<close>

section \<open>The struct and its operations\<close>

record send_buffer_t =
  s_capacity :: u32
  last_byte_acked_ts :: int
  last_byte_acked_seqnum :: u32
  last_byte_acked_index :: u32
  last_byte_sent_index :: u32
  next_byte_written_index :: u32
  s_buffer :: "u8 list"

text \<open>\<open>gettimeofday\<close> is a reading of the clock: seconds and microseconds.\<close>

type_synonym timeval = "int \<times> int"

definition get_time_ms :: "timeval \<Rightarrow> int" where
  "get_time_ms tv = fst tv * 1000 + snd tv div 1000"

definition seqnum_to_index_send :: "send_buffer_t \<Rightarrow> u32 \<Rightarrow> u32 res" where
  "seqnum_to_index_send sb seqnum =
     bindF (assertF (seqnum \<ge> last_byte_acked_seqnum sb)) (\<lambda>_.
     bindF (assertF (seqnum < last_byte_acked_seqnum sb + s_capacity sb)) (\<lambda>_.
       umod (last_byte_acked_index sb + (seqnum - last_byte_acked_seqnum sb)) (s_capacity sb)))"

definition index_to_seqnum_send :: "send_buffer_t \<Rightarrow> u32 \<Rightarrow> u32" where
  "index_to_seqnum_send sb index =
     (if index \<ge> last_byte_acked_index sb
      then index - last_byte_acked_index sb + last_byte_acked_seqnum sb
      else let tail_len = s_capacity sb - 1 - last_byte_acked_index sb
           in index + 1 + tail_len + last_byte_acked_seqnum sb)"

definition get_next_byte_written_seqnum :: "send_buffer_t \<Rightarrow> u32" where
  "get_next_byte_written_seqnum sb =
     (if next_byte_written_index sb > last_byte_acked_index sb
      then next_byte_written_index sb - last_byte_acked_index sb + last_byte_acked_seqnum sb
      else s_capacity sb - 1 - last_byte_acked_index sb + (next_byte_written_index sb + 1)
             + last_byte_acked_seqnum sb)"

definition get_last_byte_sent_seqnum :: "send_buffer_t \<Rightarrow> u32" where
  "get_last_byte_sent_seqnum sb =
     (if last_byte_sent_index sb \<ge> last_byte_acked_index sb
      then last_byte_sent_index sb - last_byte_acked_index sb + last_byte_acked_seqnum sb
      else s_capacity sb - 1 - last_byte_acked_index sb + (last_byte_sent_index sb + 1)
             + last_byte_acked_seqnum sb)"

text \<open>The two copies; the result is the block written to.\<close>

definition safe_memcpy_to_sendbuf :: "send_buffer_t \<Rightarrow> u32 \<Rightarrow> u8 list \<Rightarrow> u8 list res" where
  "safe_memcpy_to_sendbuf sb len data =
     (let start_index = next_byte_written_index sb in
      if start_index + len - 1 \<le> s_capacity sb - 1
      then memcpy (s_buffer sb) (unat start_index) data 0 (unat len)
      else let tail_len = s_capacity sb - start_index in
        bindF (memcpy (s_buffer sb) (unat start_index) data 0 (unat tail_len)) (\<lambda>b.
          memcpy b 0 data (unat tail_len) (unat (len - tail_len))))"

definition safe_memcpy_from_sendbuf ::
  "send_buffer_t \<Rightarrow> u32 \<Rightarrow> u32 \<Rightarrow> u8 list \<Rightarrow> u8 list res"
where
  "safe_memcpy_from_sendbuf sb start_index len data =
     (let end_index = start_index + len - 1 in
      if end_index > last_byte_acked_index sb
      then memcpy data 0 (s_buffer sb) (unat start_index) (unat len)
      else let tail_len = s_capacity sb - start_index in
        bindF (memcpy data 0 (s_buffer sb) (unat start_index) (unat tail_len)) (\<lambda>d.
          memcpy d (unat tail_len) (s_buffer sb) 0 (unat (len - tail_len))))"

text \<open>
  \<open>send_buffer_create\<close> assigns three fields of a fresh struct; the others keep whatever
  the allocation \<open>fresh\<close> held.
\<close>

definition send_buffer_create :: "(nat \<Rightarrow> u8) \<Rightarrow> send_buffer_t \<Rightarrow> u32 \<Rightarrow> send_buffer_t" where
  "send_buffer_create junk fresh capacity =
     fresh\<lparr>s_capacity := capacity, last_byte_acked_seqnum := 0,
           s_buffer := malloc junk (unat capacity)\<rparr>"

definition send_buffer_initialize :: "timeval \<Rightarrow> send_buffer_t \<Rightarrow> u32 \<Rightarrow> send_buffer_t res" where
  "send_buffer_initialize tv sb isn =
     bindF (assertF (last_byte_acked_seqnum sb = 0)) (\<lambda>_.
       Inr (sb\<lparr>last_byte_acked_ts := get_time_ms tv, last_byte_acked_seqnum := isn,
               last_byte_acked_index := 0, last_byte_sent_index := 0,
               next_byte_written_index := 1\<rparr>))"

definition send_buffer_max_write :: "send_buffer_t \<Rightarrow> u32" where
  "send_buffer_max_write sb =
     (let buf_size = get_next_byte_written_seqnum sb - last_byte_acked_seqnum sb
      in s_capacity sb - buf_size)"

definition send_buffer_max_new_dump :: "send_buffer_t \<Rightarrow> u32" where
  "send_buffer_max_new_dump sb =
     get_next_byte_written_seqnum sb - get_last_byte_sent_seqnum sb - 1"

definition send_buffer_write :: "send_buffer_t \<Rightarrow> u8 list \<Rightarrow> u32 \<Rightarrow> send_buffer_t res" where
  "send_buffer_write sb buf len =
     bindF (assertF (len \<le> send_buffer_max_write sb)) (\<lambda>_.
     if len = 0 then Inr sb
     else bindF (safe_memcpy_to_sendbuf sb len buf) (\<lambda>b.
          bindF (umod (next_byte_written_index sb + len) (s_capacity sb)) (\<lambda>i.
            Inr (sb\<lparr>s_buffer := b, next_byte_written_index := i\<rparr>))))"

definition send_buffer_dump ::
  "send_buffer_t \<Rightarrow> u32 \<Rightarrow> u32 \<Rightarrow> u8 list \<Rightarrow> (send_buffer_t \<times> u8 list) res"
where
  "send_buffer_dump sb start_index len data =
     (if len = 0 then Inr (sb, data)
      else bindF (safe_memcpy_from_sendbuf sb start_index len data) (\<lambda>d.
           bindF (umod (start_index + len - 1) (s_capacity sb)) (\<lambda>end_index.
             Inr (if index_to_seqnum_send sb end_index \<ge> get_last_byte_sent_seqnum sb
                  then (sb\<lparr>last_byte_sent_index := end_index\<rparr>, d)
                  else (sb, d)))))"

definition send_buffer_update_ack :: "timeval \<Rightarrow> send_buffer_t \<Rightarrow> u32 \<Rightarrow> send_buffer_t res" where
  "send_buffer_update_ack tv sb ack =
     (let hdr_ack = ack - 1 in
      if hdr_ack > last_byte_acked_seqnum sb
      then bindF (seqnum_to_index_send sb hdr_ack) (\<lambda>idx.
        Inr (sb\<lparr>last_byte_acked_seqnum := hdr_ack, last_byte_acked_index := idx,
                last_byte_acked_ts := get_time_ms tv\<rparr>))
      else Inr sb)"

definition get_unacknowledged_count :: "send_buffer_t \<Rightarrow> u32" where
  "get_unacknowledged_count sb = get_last_byte_sent_seqnum sb - last_byte_acked_seqnum sb"

text \<open>A pointer into the array: the bytes from there to its end.\<close>

definition get_buf_at_index_send :: "send_buffer_t \<Rightarrow> u32 \<Rightarrow> u8 list" where
  "get_buf_at_index_send sb index = drop (unat index) (s_buffer sb)"

section \<open>Lemmas about indices and sequence numbers\<close>

text \<open>
  Distances from the last acknowledged byte, as numbers, and the well-formedness every
  operation keeps: indices inside the array, and the last byte sent before the next byte
  written.
\<close>

definition cap :: "send_buffer_t \<Rightarrow> nat" where "cap sb = unat (s_capacity sb)"
definition acked_idx :: "send_buffer_t \<Rightarrow> nat" where "acked_idx sb = unat (last_byte_acked_index sb)"
definition sent_dist :: "send_buffer_t \<Rightarrow> nat" where
  "sent_dist sb = dist0 (cap sb) (acked_idx sb) (unat (last_byte_sent_index sb))"
definition written_dist :: "send_buffer_t \<Rightarrow> nat" where
  "written_dist sb = dist1 (cap sb) (acked_idx sb) (unat (next_byte_written_index sb))"

definition sb_wf :: "send_buffer_t \<Rightarrow> bool" where
  "sb_wf sb \<longleftrightarrow> 0 < cap sb \<and> cap sb \<le> 2 ^ 31 \<and> length (s_buffer sb) = cap sb
     \<and> acked_idx sb < cap sb \<and> unat (last_byte_sent_index sb) < cap sb
     \<and> unat (next_byte_written_index sb) < cap sb \<and> sent_dist sb < written_dist sb"

lemma sb_wfD:
  assumes "sb_wf sb"
  shows "0 < cap sb" "cap sb \<le> 2 ^ 31" "length (s_buffer sb) = cap sb" "acked_idx sb < cap sb"
    "unat (last_byte_sent_index sb) < cap sb" "unat (next_byte_written_index sb) < cap sb"
    "sent_dist sb < written_dist sb" "written_dist sb \<le> cap sb" "s_capacity sb \<noteq> 0"
  using assms dist1_le by (auto simp: sb_wf_def cap_def written_dist_def)

lemma of_nat_dist:
  fixes c b i :: u32
  assumes "unat b < unat c"
  shows "of_nat (dist0 (unat c) (unat b) (unat i)) = (if b \<le> i then i - b else c - b + i)"
    and "of_nat (dist1 (unat c) (unat b) (unat i)) = (if b < i then i - b else c - b + i)"
  using assms by (auto simp: dist0_def dist1_def word_nat)

lemma last_sent_seq: "sb_wf sb \<Longrightarrow>
  get_last_byte_sent_seqnum sb = last_byte_acked_seqnum sb + of_nat (sent_dist sb)"
  using sb_wfD(4) [of sb]
  by (simp add: get_last_byte_sent_seqnum_def sent_dist_def cap_def acked_idx_def of_nat_dist)

lemma next_written_seq: "sb_wf sb \<Longrightarrow>
  get_next_byte_written_seqnum sb = last_byte_acked_seqnum sb + of_nat (written_dist sb)"
  using sb_wfD(4) [of sb]
  by (simp add: get_next_byte_written_seqnum_def written_dist_def cap_def acked_idx_def of_nat_dist)

lemma unacked_count: "sb_wf sb \<Longrightarrow> unat (get_unacknowledged_count sb) = sent_dist sb"
  using sb_wfD [of sb]
  by (simp add: get_unacknowledged_count_def last_sent_seq unat_of_nat32)

lemma max_new_dump: "sb_wf sb \<Longrightarrow>
  unat (send_buffer_max_new_dump sb) = written_dist sb - sent_dist sb - 1"
proof -
  assume wf: "sb_wf sb"
  note d = sb_wfD [OF wf]
  have "send_buffer_max_new_dump sb = of_nat (written_dist sb) - of_nat (sent_dist sb) - of_nat 1"
    by (simp add: send_buffer_max_new_dump_def last_sent_seq next_written_seq wf)
  also have "\<dots> = of_nat (written_dist sb - sent_dist sb - 1)"
    using d(7) by (simp add: of_nat_diff)
  finally have e: "send_buffer_max_new_dump sb = of_nat (written_dist sb - sent_dist sb - 1)" .
  show ?thesis unfolding e by (rule unat_of_nat32) (use d in simp)
qed

lemma max_write: "sb_wf sb \<Longrightarrow> unat (send_buffer_max_write sb) = cap sb - written_dist sb"
proof -
  assume wf: "sb_wf sb"
  note d = sb_wfD [OF wf]
  have "send_buffer_max_write sb = s_capacity sb - of_nat (written_dist sb)"
    by (simp add: send_buffer_max_write_def next_written_seq wf)
  then show ?thesis using d by (simp add: unat_sub32 unat_of_nat32 cap_def)
qed

section \<open>The queue it implements\<close>

text \<open>
  The abstract state: the sequence number of the last acknowledged byte, the bytes sent and
  not yet acknowledged, and the bytes written and not yet sent. \<open>pending\<close> reads them out
  of the ring, from the slot after the last acknowledged byte on.
\<close>

record byte_queue =
  q_base :: u32
  q_inflight :: "u8 list"
  q_fresh :: "u8 list"

definition pending :: "send_buffer_t \<Rightarrow> u8 list" where
  "pending sb = ring_get (s_buffer sb) (acked_idx sb + 1) (written_dist sb - 1)"

definition sb_abs :: "send_buffer_t \<Rightarrow> byte_queue" where
  "sb_abs sb = \<lparr>q_base = last_byte_acked_seqnum sb,
     q_inflight = take (sent_dist sb) (pending sb), q_fresh = drop (sent_dist sb) (pending sb)\<rparr>"

lemma length_pending [simp]: "length (pending sb) = written_dist sb - 1"
  by (simp add: pending_def)

lemma length_abs:
  assumes "sb_wf sb"
  shows "length (q_inflight (sb_abs sb)) = sent_dist sb"
    and "length (q_fresh (sb_abs sb)) = written_dist sb - sent_dist sb - 1"
  using sb_wfD [OF assms] by (simp_all add: sb_abs_def)

lemma send_buffer_initialize_abs:
  assumes "last_byte_acked_seqnum sb = 0" and "length (s_buffer sb) = unat (s_capacity sb)"
    and "1 < unat (s_capacity sb)" and "unat (s_capacity sb) \<le> 2 ^ 31"
  shows "\<exists>sb'. send_buffer_initialize tv sb isn = Inr sb' \<and> sb_wf sb' \<and> s_capacity sb' = s_capacity sb
    \<and> sb_abs sb' = \<lparr>q_base = isn, q_inflight = [], q_fresh = []\<rparr>"
  using assms
  by (auto simp: send_buffer_initialize_def sb_wf_def sb_abs_def pending_def sent_dist_def
    written_dist_def cap_def acked_idx_def dist0_def dist1_def ring_get_def)

lemma safe_memcpy_to_sendbuf_ring:
  assumes wf: "sb_wf sb" and len: "0 < len" "unat len < cap sb" "unat len \<le> length data"
  shows "safe_memcpy_to_sendbuf sb len data =
    Inr (ring_put (s_buffer sb) (unat (next_byte_written_index sb)) (take (unat len) data))"
proof -
  note d = sb_wfD [OF wf]
  let ?i = "next_byte_written_index sb"
  have pos: "0 < unat len" using len(1) by (simp add: unat_gt_0)
  have sum: "unat (?i + len - 1) = unat ?i + unat len - 1"
  proof -
    have "unat (?i + len) = unat ?i + unat len" using d len by (intro unat_add32) simp
    then show ?thesis using pos by (simp add: unat_sub32)
  qed
  have c: "unat (s_capacity sb - 1) = cap sb - 1" using d(1) by (simp add: cap_def unat_sub32)
  have tail: "unat (s_capacity sb - ?i) = cap sb - unat ?i" using d by (simp add: cap_def unat_sub32)
  show ?thesis
  proof (cases "unat ?i + unat len \<le> cap sb")
    case True
    then have "?i + len - 1 \<le> s_capacity sb - 1" by (simp add: word_le_nat_alt sum c)
    with True show ?thesis using d len
      by (simp add: safe_memcpy_to_sendbuf_def memcpy_ring_put_one)
  next
    case False
    then have "\<not> ?i + len - 1 \<le> s_capacity sb - 1" using pos d(1) by (simp add: word_le_nat_alt sum c)
    moreover have rest: "unat (len - (s_capacity sb - ?i)) = unat len - (cap sb - unat ?i)"
      using False by (subst unat_sub32) (simp_all add: tail)
    have "bindF (memcpy (s_buffer sb) (unat ?i) data 0 (unat (s_capacity sb - ?i))) (\<lambda>b.
        memcpy b 0 data (unat (s_capacity sb - ?i)) (unat (len - (s_capacity sb - ?i)))) =
      Inr (ring_put (s_buffer sb) (unat ?i) (take (unat len) data))"
      unfolding rest tail by (rule memcpy_ring_put_two) (use False d len in auto)
    ultimately show ?thesis
      by (simp add: safe_memcpy_to_sendbuf_def Let_def del: bindF_eq_Inr)
  qed
qed

lemma send_buffer_write_abs:
  assumes wf: "sb_wf sb" and len: "len \<le> send_buffer_max_write sb" "unat len \<le> length data"
  shows "\<exists>sb'. send_buffer_write sb data len = Inr sb' \<and> sb_wf sb' \<and> s_capacity sb' = s_capacity sb
    \<and> sb_abs sb' = (sb_abs sb)\<lparr>q_fresh := q_fresh (sb_abs sb) @ take (unat len) data\<rparr>"
proof (cases "len = 0")
  case True
  with wf show ?thesis by (simp add: send_buffer_write_def)
next
  case False
  note d = sb_wfD [OF wf]
  let ?i = "next_byte_written_index sb" and ?n = "unat len" and ?w = "written_dist sb"
  have n: "0 < ?n" "?w + ?n \<le> cap sb"
    using False len(1) d by (auto simp: unat_gt_0 word_le_nat_alt max_write wf)
  then have "?n < cap sb" using d(7) by linarith
  then have cp: "safe_memcpy_to_sendbuf sb len data =
      Inr (ring_put (s_buffer sb) (unat ?i) (take ?n data))"
    using safe_memcpy_to_sendbuf_ring [OF wf _ _ len(2)] n False by (simp add: word_neq_0_conv)
  let ?i' = "(?i + len) mod s_capacity sb"
  have i': "unat ?i' = (unat ?i + ?n) mod cap sb"
    using d n by (simp add: unat_mod32 unat_add32 cap_def)
  have i: "unat ?i = (acked_idx sb + ?w) mod cap sb"
    unfolding written_dist_def using d(4,6) by (simp add: ring_dist1)
  have "unat ?i' = (acked_idx sb + (?w + ?n)) mod cap sb"
    unfolding i' i by (simp add: mod_add_left_eq add.assoc)
  then have w': "dist1 (cap sb) (acked_idx sb) (unat ?i') = ?w + ?n"
    using d n by simp
  define sb' where "sb' = sb\<lparr>s_buffer := ring_put (s_buffer sb) (unat ?i) (take ?n data),
    next_byte_written_index := ?i'\<rparr>"
  have [simp]: "cap sb' = cap sb" "acked_idx sb' = acked_idx sb" "sent_dist sb' = sent_dist sb"
    "written_dist sb' = ?w + ?n" "s_capacity sb' = s_capacity sb"
    using w' by (simp_all add: sb'_def cap_def acked_idx_def sent_dist_def written_dist_def)
  have l: "length (take ?n data) = ?n" using len(2) by simp
  have "unat ?i' < cap sb" unfolding i' using d(1) by simp
  then have "sb_wf sb'"
    using d by (simp add: sb_wf_def) (simp add: sb'_def)
  moreover have "pending sb' = pending sb @ take ?n data"
  proof -
    have "ring_get (ring_put (s_buffer sb) ((acked_idx sb + ?w) mod length (s_buffer sb)) (take ?n data))
        (acked_idx sb + 1) (?w + ?n - 1) = ring_get (s_buffer sb) (acked_idx sb + 1) (?w - 1) @ take ?n data"
      using ring_get_put [of "s_buffer sb" "?w - 1" "take ?n data" "acked_idx sb + 1", unfolded l] d n
      by simp
    then show ?thesis unfolding pending_def by (simp add: i d) (simp add: sb'_def i d)
  qed
  then have "sb_abs sb' = (sb_abs sb)\<lparr>q_fresh := q_fresh (sb_abs sb) @ take ?n data\<rparr>"
    using d(7) by (simp add: sb_abs_def) (simp add: sb'_def)
  moreover have "send_buffer_write sb data len = Inr sb'"
    using len False d by (simp add: send_buffer_write_def cp sb'_def)
  ultimately show ?thesis by simp
qed

section \<open>Acknowledgement and dump\<close>

text \<open>
  Sequence numbers are compared with plain \<open>>\<close> and \<open>\<ge>\<close>, so the operations below need
  the window above the base not to reach the end of the number space.
\<close>

definition sb_room :: "send_buffer_t \<Rightarrow> bool" where
  "sb_room sb \<longleftrightarrow> unat (last_byte_acked_seqnum sb) + cap sb < 2 ^ 32"

lemma unat_base_plus:
  assumes "sb_room sb" and "k < cap sb"
  shows "unat (last_byte_acked_seqnum sb + of_nat k) = unat (last_byte_acked_seqnum sb) + k"
proof -
  have "unat (of_nat k :: u32) = k"
    using assms(2) unat_u32_less [of "s_capacity sb"] by (intro unat_of_nat32) (simp add: cap_def)
  then show ?thesis using assms by (simp add: sb_room_def unat_add32)
qed

lemma update_ack_old:
  "ack - 1 \<le> last_byte_acked_seqnum sb \<Longrightarrow> send_buffer_update_ack tv sb ack = Inr sb"
  by (simp add: send_buffer_update_ack_def Let_def leD)

lemma send_buffer_update_ack_abs:
  assumes wf: "sb_wf sb" and room: "sb_room sb"
    and new: "last_byte_acked_seqnum sb < ack - 1"
    and n: "n = unat (ack - 1 - last_byte_acked_seqnum sb)" "n \<le> sent_dist sb"
  shows "\<exists>sb'. send_buffer_update_ack tv sb ack = Inr sb' \<and> sb_wf sb'
    \<and> s_capacity sb' = s_capacity sb \<and> last_byte_acked_ts sb' = get_time_ms tv
    \<and> sb_abs sb' = (sb_abs sb)\<lparr>q_base := ack - 1, q_inflight := drop n (q_inflight (sb_abs sb))\<rparr>"
proof -
  note d = sb_wfD [OF wf]
  let ?h = "ack - 1" and ?b = "last_byte_acked_seqnum sb"
  have h: "?h = ?b + of_nat n" by (simp add: n(1))
  have nc: "n < cap sb" using n(2) d by simp
  have uh: "unat ?h = unat ?b + n" unfolding h by (rule unat_base_plus [OF room nc])
  have bc: "unat (?b + s_capacity sb) = unat ?b + cap sb"
    using room by (simp add: sb_room_def cap_def unat_add32)
  have lt: "?h < ?b + s_capacity sb" using uh bc nc by (simp add: word_less_nat_alt)
  let ?i = "(last_byte_acked_index sb + (?h - ?b)) mod s_capacity sb"
  have "unat (last_byte_acked_index sb + (?h - ?b)) = acked_idx sb + n"
    using d nc n(1) by (subst unat_add32) (simp_all add: acked_idx_def)
  then have i: "unat ?i = (acked_idx sb + n) mod cap sb" by (simp add: unat_mod32 cap_def)
  have idx: "seqnum_to_index_send sb ?h = Inr ?i"
    using lt new d(9) by (simp add: seqnum_to_index_send_def order_less_imp_le)
  define sb' where "sb' = sb\<lparr>last_byte_acked_seqnum := ?h, last_byte_acked_index := ?i,
    last_byte_acked_ts := get_time_ms tv\<rparr>"
  have f [simp]: "cap sb' = cap sb" "s_capacity sb' = s_capacity sb" "s_buffer sb' = s_buffer sb"
    "acked_idx sb' = (acked_idx sb + n) mod cap sb"
    by (simp_all add: sb'_def cap_def acked_idx_def i [unfolded cap_def acked_idx_def])
  have dist: "sent_dist sb' = sent_dist sb - n" "written_dist sb' = written_dist sb - n"
    using d n(2) by (simp_all add: sent_dist_def written_dist_def dist0_rebase dist1_rebase)
      (simp_all add: sb'_def sent_dist_def written_dist_def dist0_rebase dist1_rebase)
  have "sb_wf sb'"
    using d n(2) by (simp add: sb_wf_def dist) (simp add: sb'_def)
  moreover have "pending sb' = drop n (pending sb)"
  proof -
    have "ring_get (s_buffer sb) ((acked_idx sb + n) mod cap sb + 1) (written_dist sb - n - 1) =
        ring_get (s_buffer sb) (acked_idx sb + n + 1) (written_dist sb - n - 1)"
      using d(3) ring_get_mod [of "s_buffer sb"] by (metis mod_add_left_eq)
    then show ?thesis by (simp add: pending_def dist drop_ring_get)
  qed
  then have "sb_abs sb' = (sb_abs sb)\<lparr>q_base := ?h, q_inflight := drop n (q_inflight (sb_abs sb))\<rparr>"
    using n(2) by (simp add: sb_abs_def dist drop_take) (simp add: sb'_def)
  moreover have "send_buffer_update_ack tv sb ack = Inr sb'"
    using new by (simp add: send_buffer_update_ack_def Let_def idx sb'_def)
  ultimately show ?thesis by (simp add: sb'_def)
qed

lemma send_buffer_update_ack_beyond:
  assumes "last_byte_acked_seqnum sb < ack - 1"
    and "last_byte_acked_seqnum sb + s_capacity sb \<le> ack - 1"
  shows "send_buffer_update_ack tv sb ack = Inl AssertFail"
  using assms
  by (simp add: send_buffer_update_ack_def seqnum_to_index_send_def Let_def less_imp_le leD)

lemma next_to_send:
  assumes "sb_wf sb"
  shows "unat ((last_byte_sent_index sb + 1) mod s_capacity sb) =
    (acked_idx sb + (sent_dist sb + 1)) mod cap sb"
proof -
  note d = sb_wfD [OF assms]
  have "unat (last_byte_sent_index sb) = (acked_idx sb + sent_dist sb) mod cap sb"
    unfolding sent_dist_def using d(4,5) by (simp add: ring_dist0)
  moreover have "unat (last_byte_sent_index sb + 1) = unat (last_byte_sent_index sb) + 1"
    using d by (subst unat_add32) simp_all
  ultimately show ?thesis
    by (simp add: unat_mod32 cap_def [symmetric] mod_Suc_eq)
qed

text \<open>
  What a dump of the next \<open>len\<close> fresh bytes copies. Its copy runs into the end of the array
  or into the wrong branch as soon as the fresh bytes are not one run behind the base index.
\<close>

lemma dump_copy:
  assumes wf: "sb_wf sb" 
    and len: "len \<noteq> 0" "unat len < written_dist sb - sent_dist sb" "length data = unat len"
    and start: "start = (last_byte_sent_index sb + 1) mod s_capacity sb"
  shows "safe_memcpy_from_sendbuf sb start len data =
    (if acked_idx sb < unat start \<and> unat start + unat len \<le> cap sb
     then Inr (take (unat len) (q_fresh (sb_abs sb))) else Inl OutOfBounds)"
proof -
  note d = sb_wfD [OF wf]
  let ?n = "unat len" and ?s = "unat start" and ?a = "acked_idx sb"
  have pos: "0 < ?n" using len(1) by (simp add: unat_gt_0)
  have s: "?s = (?a + (sent_dist sb + 1)) mod cap sb" unfolding start by (rule next_to_send [OF wf])
  have sc: "?s < cap sb" unfolding s using d(1) by simp
  have "unat (start + len) = ?s + ?n" using sc len d by (intro unat_add32) simp
  then have e: "unat (start + len - 1) = ?s + ?n - 1" using pos by (simp add: unat_sub32)
  have gt: "start + len - 1 > last_byte_acked_index sb \<longleftrightarrow> ?a < ?s + ?n - 1"
    by (simp add: word_less_nat_alt e acked_idx_def)
  have split: "?s = ?a + sent_dist sb + 1 \<or> ?s + cap sb = ?a + sent_dist sb + 1"
    unfolding s using ring_mod [of ?a "cap sb" "sent_dist sb + 1"] d by auto
  show ?thesis
  proof (cases "?a < ?s")
    case True
    then have s': "?s = ?a + sent_dist sb + 1" using split d by auto
    have "memcpy data 0 (s_buffer sb) ?s ?n = (if ?s + ?n \<le> cap sb
        then Inr (take ?n (drop ?s (s_buffer sb))) else Inl OutOfBounds)"
      using pos len(3) d(3) by (simp add: memcpy_def)
    moreover have "?s + ?n \<le> cap sb \<Longrightarrow> take ?n (q_fresh (sb_abs sb)) = take ?n (drop ?s (s_buffer sb))"
      using len(2) d(3) s' by (simp add: sb_abs_def pending_def drop_ring_get take_ring_get
          ring_get_one min_def)
    moreover have "?a < ?s + ?n - 1" using True pos by linarith
    ultimately show ?thesis using True
      by (simp add: safe_memcpy_from_sendbuf_def gt)
  next
    case False
    then have s': "?s + cap sb = ?a + sent_dist sb + 1" using split d by auto
    have before: "?s + ?n \<le> ?a" using s' len(2) d by linarith
    have t: "unat (s_capacity sb - start) = cap sb - ?s" using sc by (simp add: unat_sub32 cap_def)
    have "memcpy data 0 (s_buffer sb) ?s (cap sb - ?s) = Inl OutOfBounds"
      using before len(3) d sc by (intro memcpy_out_of_bounds) auto
    moreover have "\<not> ?a < ?s + ?n - 1" using before by linarith
    ultimately show ?thesis using False
      by (simp add: safe_memcpy_from_sendbuf_def gt t Let_def)
  qed
qed

definition dump_safe :: "send_buffer_t \<Rightarrow> u32 \<Rightarrow> bool" where
  "dump_safe sb len \<longleftrightarrow>
     (let start = unat ((last_byte_sent_index sb + 1) mod s_capacity sb)
      in acked_idx sb < start \<and> start + unat len \<le> cap sb)"

lemma send_buffer_dump_unsafe:
  assumes "sb_wf sb" and "len \<noteq> 0" and "unat len < written_dist sb - sent_dist sb"
    and "length data = unat len" and "\<not> dump_safe sb len"
  shows "send_buffer_dump sb ((last_byte_sent_index sb + 1) mod s_capacity sb) len data =
    Inl OutOfBounds"
proof -
  have "safe_memcpy_from_sendbuf sb ((last_byte_sent_index sb + 1) mod s_capacity sb) len data =
      Inl OutOfBounds"
    using assms(5) by (subst dump_copy [OF assms(1-4) refl]) (simp add: dump_safe_def Let_def)
  with assms(2) show ?thesis by (simp add: send_buffer_dump_def)
qed

lemma send_buffer_dump_abs:
  assumes wf: "sb_wf sb" and room: "sb_room sb"
    and len: "len \<noteq> 0" "unat len < written_dist sb - sent_dist sb" "length data = unat len"
    and safe: "dump_safe sb len"
  shows "\<exists>sb'. send_buffer_dump sb ((last_byte_sent_index sb + 1) mod s_capacity sb) len data =
        Inr (sb', take (unat len) (q_fresh (sb_abs sb)))
      \<and> sb_wf sb' \<and> s_capacity sb' = s_capacity sb \<and> last_byte_acked_ts sb' = last_byte_acked_ts sb
      \<and> unat (last_byte_sent_index sb') = unat (last_byte_sent_index sb) + unat len
      \<and> sb_abs sb' = (sb_abs sb)
          \<lparr>q_inflight := q_inflight (sb_abs sb) @ take (unat len) (q_fresh (sb_abs sb)),
           q_fresh := drop (unat len) (q_fresh (sb_abs sb))\<rparr>"
proof -
  note d = sb_wfD [OF wf]
  define start where "start = (last_byte_sent_index sb + 1) mod s_capacity sb"
  let ?n = "unat len" and ?s = "unat start" and ?a = "acked_idx sb"
  have pos: "0 < ?n" using len(1) by (simp add: unat_gt_0)
  have s: "?s = (?a + (sent_dist sb + 1)) mod cap sb" unfolding start_def by (rule next_to_send [OF wf])
  have in_range: "?a < ?s" "?s + ?n \<le> cap sb"
    using safe by (simp_all add: dump_safe_def Let_def start_def)
  then have s': "?s = ?a + sent_dist sb + 1"
    unfolding s using ring_mod [of ?a "cap sb" "sent_dist sb + 1"] d by (auto split: if_splits)
  have lsi: "unat (last_byte_sent_index sb) = ?a + sent_dist sb"
    using ring_dist0 [OF d(4,5), folded sent_dist_def] s' in_range pos by simp
  have "unat (start + len) = ?s + ?n" using in_range d by (intro unat_add32) simp
  then have e: "unat (start + len - 1) = ?a + (sent_dist sb + ?n)" using pos s' by (simp add: unat_sub32)
  define ei where "ei = (start + len - 1) mod s_capacity sb"
  have ei: "unat ei = ?a + (sent_dist sb + ?n)"
    using in_range pos s' by (simp add: ei_def unat_mod32 e cap_def [symmetric])
  have k: "sent_dist sb + ?n < cap sb" using len(2) d by linarith
  have ku: "unat (of_nat (sent_dist sb + ?n) :: u32) = sent_dist sb + ?n"
    using k d(2) by (intro unat_of_nat32) simp
  have "ei = last_byte_acked_index sb + of_nat (sent_dist sb + ?n)"
    using ei ku d k by (intro u32_eqI) (subst unat_add32, simp_all only: acked_idx_def, simp_all)
  moreover have "last_byte_acked_index sb \<le> ei" by (simp add: word_le_nat_alt ei acked_idx_def)
  ultimately have "index_to_seqnum_send sb ei = last_byte_acked_seqnum sb + of_nat (sent_dist sb + ?n)"
    by (simp add: index_to_seqnum_send_def)
  then have adv: "get_last_byte_sent_seqnum sb \<le> index_to_seqnum_send sb ei"
    using k by (simp only: last_sent_seq [OF wf] word_le_nat_alt unat_base_plus [OF room])
  define sb' where "sb' = sb\<lparr>last_byte_sent_index := ei\<rparr>"
  have f [simp]: "cap sb' = cap sb" "s_capacity sb' = s_capacity sb" "s_buffer sb' = s_buffer sb"
    "acked_idx sb' = ?a" "written_dist sb' = written_dist sb" "pending sb' = pending sb"
    by (simp_all add: sb'_def cap_def acked_idx_def written_dist_def pending_def)
  have dist: "sent_dist sb' = sent_dist sb + ?n"
    using ei by (simp add: sent_dist_def dist0_def) (simp add: sb'_def)
  have "sb_wf sb'"
    using d len in_range s' ei by (simp add: sb_wf_def dist) (simp add: sb'_def)
  moreover have "sb_abs sb' = (sb_abs sb)
      \<lparr>q_inflight := q_inflight (sb_abs sb) @ take ?n (q_fresh (sb_abs sb)),
       q_fresh := drop ?n (q_fresh (sb_abs sb))\<rparr>"
    by (simp add: sb_abs_def dist take_add add.commute) (simp add: sb'_def)
  moreover have "send_buffer_dump sb start len data = Inr (sb', take ?n (q_fresh (sb_abs sb)))"
    using adv len d(9) in_range
    by (simp add: send_buffer_dump_def dump_copy [OF wf len start_def] ei_def [symmetric] sb'_def)
  ultimately show ?thesis using ei lsi by (simp add: start_def sb'_def)
qed

section \<open>The contract of a retransmission queue\<close>

text \<open>
  The histories of a queue that the backend and the API drive: \<open>put\<close> is a write of the
  application, \<open>emit\<close> takes fresh bytes for one segment, which the backend labels with
  the successor of the last sequence number sent, and \<open>ack\<close> processes an acknowledgement
  number that does not go beyond what was sent. A history records the bytes written and the
  segments emitted.
\<close>

inductive queue_run ::
  "('s \<Rightarrow> u8 list) \<Rightarrow> ('s \<Rightarrow> u8 list) \<Rightarrow> ('s \<Rightarrow> u32) \<Rightarrow> ('s \<Rightarrow> u32) \<Rightarrow>
   ('s \<Rightarrow> u8 list \<Rightarrow> 's res) \<Rightarrow> ('s \<Rightarrow> nat \<Rightarrow> ('s \<times> u8 list) res) \<Rightarrow>
   (timeval \<Rightarrow> 's \<Rightarrow> u32 \<Rightarrow> 's res) \<Rightarrow> 's \<Rightarrow> u8 list \<Rightarrow> (u32 \<times> u8 list) list \<Rightarrow> 's \<Rightarrow> bool"
  for inflight :: "'s \<Rightarrow> u8 list" and fresh :: "'s \<Rightarrow> u8 list" and base :: "'s \<Rightarrow> u32"
    and last_sent :: "'s \<Rightarrow> u32" and put :: "'s \<Rightarrow> u8 list \<Rightarrow> 's res"
    and emit :: "'s \<Rightarrow> nat \<Rightarrow> ('s \<times> u8 list) res" and ack :: "timeval \<Rightarrow> 's \<Rightarrow> u32 \<Rightarrow> 's res"
    and q0 :: "'s"
where
  start: "queue_run inflight fresh base last_sent put emit ack q0 [] [] q0"
| put: "queue_run inflight fresh base last_sent put emit ack q0 w segs q \<Longrightarrow>
    length bs < 2 ^ 32 \<Longrightarrow> put q bs = Inr q' \<Longrightarrow>
    queue_run inflight fresh base last_sent put emit ack q0 (w @ bs) segs q'"
| emit: "queue_run inflight fresh base last_sent put emit ack q0 w segs q \<Longrightarrow>
    n \<le> length (fresh q) \<Longrightarrow> emit q n = Inr (q', bs) \<Longrightarrow>
    queue_run inflight fresh base last_sent put emit ack q0 w (segs @ [(last_sent q + 1, bs)]) q'"
| ack: "queue_run inflight fresh base last_sent put emit ack q0 w segs q \<Longrightarrow>
    a - 1 \<le> base q \<or> unat (a - 1 - base q) \<le> length (inflight q) \<Longrightarrow> ack tv q a = Inr q' \<Longrightarrow>
    queue_run inflight fresh base last_sent put emit ack q0 w segs q'"

locale retransmission_queue =
  fixes inv :: "'s \<Rightarrow> bool"
    and capacity :: "'s \<Rightarrow> nat"
    and inflight :: "'s \<Rightarrow> u8 list"
    and fresh :: "'s \<Rightarrow> u8 list"
    and base :: "'s \<Rightarrow> u32"
    and last_sent :: "'s \<Rightarrow> u32"
    and put :: "'s \<Rightarrow> u8 list \<Rightarrow> 's res"
    and emit :: "'s \<Rightarrow> nat \<Rightarrow> ('s \<times> u8 list) res"
    and ack :: "timeval \<Rightarrow> 's \<Rightarrow> u32 \<Rightarrow> 's res"
  assumes last_sent: "inv q \<Longrightarrow> last_sent q = base q + of_nat (length (inflight q))"
    and put_law: "inv q \<Longrightarrow> length bs < 2 ^ 32 \<Longrightarrow> put q bs = Inr q' \<Longrightarrow>
      inv q' \<and> capacity q' = capacity q \<and> base q' = base q \<and> inflight q' = inflight q
      \<and> fresh q' = fresh q @ bs"
    and emit_law: "inv q \<Longrightarrow> unat (base q) + capacity q < 2 ^ 32 \<Longrightarrow> n \<le> length (fresh q) \<Longrightarrow>
      emit q n = Inr (q', bs) \<Longrightarrow>
      inv q' \<and> capacity q' = capacity q \<and> base q' = base q \<and> bs = take n (fresh q)
      \<and> inflight q' = inflight q @ bs \<and> fresh q' = drop n (fresh q)"
    and ack_law: "inv q \<Longrightarrow> unat (base q) + capacity q < 2 ^ 32 \<Longrightarrow>
      a - 1 \<le> base q \<or> unat (a - 1 - base q) \<le> length (inflight q) \<Longrightarrow> ack tv q a = Inr q' \<Longrightarrow>
      inv q' \<and> capacity q' = capacity q \<and> fresh q' = fresh q
      \<and> (\<exists>n \<le> length (inflight q). base q' = base q + of_nat n \<and> inflight q' = drop n (inflight q))"
begin

abbreviation run :: "'s \<Rightarrow> u8 list \<Rightarrow> (u32 \<times> u8 list) list \<Rightarrow> 's \<Rightarrow> bool" where
  "run \<equiv> queue_run inflight fresh base last_sent put emit ack"

lemma run_stream:
  assumes "run q0 w segs q" and "inv q0" and "inflight q0 = []" and "fresh q0 = []"
    and "unat (base q0) + length w + capacity q0 < 2 ^ 32"
  shows "inv q \<and> capacity q = capacity q0
    \<and> (\<exists>acked. w = acked @ inflight q @ fresh q \<and> base q = base q0 + of_nat (length acked))
    \<and> (\<forall>(s, p) \<in> set segs. \<exists>k. s = base q0 + 1 + of_nat k \<and> k + length p \<le> length w
          \<and> p = take (length p) (drop k w))"
  using assms
proof (induction rule: queue_run.induct)
  case start
  then show ?case by simp
next
  case (put w segs q bs q')
  then have IH: "inv q" "capacity q = capacity q0"
      "\<exists>acked. w = acked @ inflight q @ fresh q \<and> base q = base q0 + of_nat (length acked)"
      "\<forall>(s, p) \<in> set segs. \<exists>k. s = base q0 + 1 + of_nat k \<and> k + length p \<le> length w
          \<and> p = take (length p) (drop k w)"
    by auto
  show ?case using IH put_law [OF IH(1) put.hyps(2,3)]
    by (force split: prod.splits)
next
  case (emit w segs q n q' bs)
  then have IH: "inv q" "capacity q = capacity q0"
      "\<exists>acked. w = acked @ inflight q @ fresh q \<and> base q = base q0 + of_nat (length acked)"
      "\<forall>(s, p) \<in> set segs. \<exists>k. s = base q0 + 1 + of_nat k \<and> k + length p \<le> length w
          \<and> p = take (length p) (drop k w)"
    by auto
  from IH(3) obtain acked where w: "w = acked @ inflight q @ fresh q"
      and b: "base q = base q0 + of_nat (length acked)" by auto
  have "unat (base q) = unat (base q0) + length acked"
    unfolding b using emit.prems(4) w by (simp add: unat_add32 unat_of_nat32)
  with emit.prems(4) w IH(2) have room: "unat (base q) + capacity q < 2 ^ 32" by simp
  note law = emit_law [OF IH(1) room emit.hyps(2,3)]
  have "\<exists>k. last_sent q + 1 = base q0 + 1 + of_nat k \<and> k + length bs \<le> length w
      \<and> bs = take (length bs) (drop k w)"
    using law emit.hyps(2) by (intro exI [of _ "length acked + length (inflight q)"])
      (auto simp: w b last_sent [OF IH(1)])
  moreover have "\<exists>acked. w = acked @ inflight q' @ fresh q' \<and> base q' = base q0 + of_nat (length acked)"
    using law w b by (intro exI [of _ acked]) (simp add: append_take_drop_id [of n "fresh q"])
  ultimately show ?case using IH law by auto
next
  case (ack w segs q a tv q')
  then have IH: "inv q" "capacity q = capacity q0"
      "\<exists>acked. w = acked @ inflight q @ fresh q \<and> base q = base q0 + of_nat (length acked)"
      "\<forall>(s, p) \<in> set segs. \<exists>k. s = base q0 + 1 + of_nat k \<and> k + length p \<le> length w
          \<and> p = take (length p) (drop k w)"
    by auto
  from IH(3) obtain acked where w: "w = acked @ inflight q @ fresh q"
      and b: "base q = base q0 + of_nat (length acked)" by auto
  have "unat (base q) = unat (base q0) + length acked"
    unfolding b using ack.prems(4) w by (simp add: unat_add32 unat_of_nat32)
  with ack.prems(4) w IH(2) have room: "unat (base q) + capacity q < 2 ^ 32" by simp
  note law = ack_law [OF IH(1) room ack.hyps(2,3)]
  then obtain n where "n \<le> length (inflight q)" "base q' = base q + of_nat n"
      "inflight q' = drop n (inflight q)" by auto
  then have "\<exists>acked. w = acked @ inflight q' @ fresh q' \<and> base q' = base q0 + of_nat (length acked)"
    using law w b by (intro exI [of _ "acked @ take n (inflight q)"]) simp
  then show ?case using IH law by auto
qed

end

section \<open>The send buffer is such a queue\<close>

definition sb_put :: "send_buffer_t \<Rightarrow> u8 list \<Rightarrow> send_buffer_t res" where
  "sb_put sb bs = send_buffer_write sb bs (of_nat (length bs))"

definition sb_emit :: "(nat \<Rightarrow> u8) \<Rightarrow> send_buffer_t \<Rightarrow> nat \<Rightarrow> (send_buffer_t \<times> u8 list) res" where
  "sb_emit junk sb n =
     send_buffer_dump sb ((last_byte_sent_index sb + 1) mod s_capacity sb) (of_nat n) (malloc junk n)"

lemma sb_put_law:
  assumes "sb_wf sb" and "length bs < 2 ^ 32" and "sb_put sb bs = Inr sb'"
  shows "sb_wf sb' \<and> cap sb' = cap sb \<and> last_byte_sent_index sb' = last_byte_sent_index sb
    \<and> sb_abs sb' = (sb_abs sb)\<lparr>q_fresh := q_fresh (sb_abs sb) @ bs\<rparr>"
proof -
  let ?n = "of_nat (length bs) :: u32"
  have n: "unat ?n = length bs" using assms(2) by (rule unat_of_nat32)
  have le: "?n \<le> send_buffer_max_write sb"
    using assms(3) by (auto simp: sb_put_def send_buffer_write_def)
  have "last_byte_sent_index sb' = last_byte_sent_index sb"
    using assms(3) by (auto simp: sb_put_def send_buffer_write_def split: if_splits)
  with send_buffer_write_abs [OF assms(1) le, of bs] assms(3) n show ?thesis
    by (auto simp: sb_put_def cap_def)
qed

lemma sb_emit_law:
  assumes wf: "sb_wf sb" and room: "sb_room sb" and n: "n \<le> length (q_fresh (sb_abs sb))"
    and ok: "sb_emit junk sb n = Inr (sb', bs)"
  shows "sb_wf sb' \<and> cap sb' = cap sb \<and> bs = take n (q_fresh (sb_abs sb))
    \<and> unat (last_byte_sent_index sb') = unat (last_byte_sent_index sb) + n
    \<and> sb_abs sb' = (sb_abs sb)\<lparr>q_inflight := q_inflight (sb_abs sb) @ bs,
          q_fresh := drop n (q_fresh (sb_abs sb))\<rparr>"
proof (cases "n = 0")
  case True
  with ok wf show ?thesis by (simp add: sb_emit_def send_buffer_dump_def malloc_def)
next
  case False
  note d = sb_wfD [OF wf]
  let ?n = "of_nat n :: u32"
  have lt: "n < written_dist sb - sent_dist sb"
    using n d(7) by (simp add: length_abs [OF wf])
  then have u: "unat ?n = n" using d by (intro unat_of_nat32) simp
  with False have nz: "?n \<noteq> 0" by (metis unat_0)
  have l: "length (malloc junk n) = unat ?n" using u by simp
  have lt': "unat ?n < written_dist sb - sent_dist sb" using lt u by simp
  have "dump_safe sb ?n"
    using send_buffer_dump_unsafe [OF wf nz lt' l] ok unfolding sb_emit_def by fastforce
  from send_buffer_dump_abs [OF wf room nz lt' l this] ok u show ?thesis
    unfolding sb_emit_def by (auto simp: cap_def)
qed

lemma sb_ack_law:
  assumes wf: "sb_wf sb" and room: "sb_room sb"
    and adm: "a - 1 \<le> last_byte_acked_seqnum sb
      \<or> unat (a - 1 - last_byte_acked_seqnum sb) \<le> length (q_inflight (sb_abs sb))"
    and ok: "send_buffer_update_ack tv sb a = Inr sb'"
  shows "sb_wf sb' \<and> cap sb' = cap sb \<and> last_byte_sent_index sb' = last_byte_sent_index sb
    \<and> q_fresh (sb_abs sb') = q_fresh (sb_abs sb)
    \<and> (\<exists>n \<le> length (q_inflight (sb_abs sb)).
          last_byte_acked_seqnum sb' = last_byte_acked_seqnum sb + of_nat n
          \<and> q_inflight (sb_abs sb') = drop n (q_inflight (sb_abs sb)))"
proof (cases "a - 1 \<le> last_byte_acked_seqnum sb")
  case True
  then have "sb' = sb" using ok by (simp add: update_ack_old)
  with wf show ?thesis by (auto intro!: exI [of _ 0])
next
  case False
  let ?n = "unat (a - 1 - last_byte_acked_seqnum sb)"
  have n: "?n \<le> sent_dist sb" using adm False by (simp add: length_abs [OF wf])
  from False have new: "last_byte_acked_seqnum sb < a - 1" by simp
  have "last_byte_sent_index sb' = last_byte_sent_index sb"
    using ok by (auto simp: send_buffer_update_ack_def Let_def split: if_splits)
  moreover have "last_byte_acked_seqnum sb' = last_byte_acked_seqnum sb + of_nat ?n"
    using ok new by (auto simp: send_buffer_update_ack_def Let_def)
  ultimately show ?thesis
    using send_buffer_update_ack_abs [OF wf room new refl n, of tv] ok n
    by (auto simp: cap_def length_abs [OF wf] intro!: exI [of _ ?n])
qed

interpretation sbq: retransmission_queue sb_wf cap "\<lambda>sb. q_inflight (sb_abs sb)"
  "\<lambda>sb. q_fresh (sb_abs sb)" last_byte_acked_seqnum get_last_byte_sent_seqnum
  sb_put "sb_emit junk" send_buffer_update_ack
proof (unfold_locales, goal_cases)
  case (1 q)
  then show ?case by (simp add: last_sent_seq length_abs)
next
  case (2 q bs q')
  then show ?case using sb_put_law [of q bs q'] by (auto simp: sb_abs_def)
next
  case (3 q n q' bs)
  then show ?case using sb_emit_law [of q n junk q' bs] by (auto simp: sb_room_def sb_abs_def)
next
  case (4 q a tv q')
  then show ?case using sb_ack_law [of q a tv q'] by (auto simp: sb_room_def)
qed

definition sb_run ::
  "(nat \<Rightarrow> u8) \<Rightarrow> send_buffer_t \<Rightarrow> u8 list \<Rightarrow> (u32 \<times> u8 list) list \<Rightarrow> send_buffer_t \<Rightarrow> bool"
where
  "sb_run junk = queue_run (\<lambda>sb. q_inflight (sb_abs sb)) (\<lambda>sb. q_fresh (sb_abs sb))
     last_byte_acked_seqnum get_last_byte_sent_seqnum sb_put (sb_emit junk) send_buffer_update_ack"

lemma sb_run_stream:
  assumes "sb_run junk sb0 w segs sb" and "sb_wf sb0" and "q_inflight (sb_abs sb0) = []"
    and "q_fresh (sb_abs sb0) = []"
    and "unat (last_byte_acked_seqnum sb0) + length w + cap sb0 < 2 ^ 32"
  shows "sb_wf sb" and "cap sb = cap sb0"
    and "\<exists>acked. w = acked @ q_inflight (sb_abs sb) @ q_fresh (sb_abs sb)
       \<and> last_byte_acked_seqnum sb = last_byte_acked_seqnum sb0 + of_nat (length acked)"
    and "\<forall>(s, p) \<in> set segs. \<exists>k. s = last_byte_acked_seqnum sb0 + 1 + of_nat k
       \<and> k + length p \<le> length w \<and> p = take (length p) (drop k w)"
  using sbq.run_stream [OF assms [unfolded sb_run_def]] by blast+

lemma sb_run_sent_index:
  assumes "sb_run junk sb0 w segs sb" and "sb_wf sb0" and "q_inflight (sb_abs sb0) = []"
    and "q_fresh (sb_abs sb0) = []"
    and "unat (last_byte_acked_seqnum sb0) + length w + cap sb0 < 2 ^ 32"
  shows "unat (last_byte_sent_index sb) =
    unat (last_byte_sent_index sb0) + length (concat (map snd segs))"
  using assms unfolding sb_run_def
proof (induction rule: queue_run.induct)
  case start
  then show ?case by simp
next
  case (put w segs q bs q')
  then have "unat (last_byte_acked_seqnum sb0) + length w + cap sb0 < 2 ^ 32" by simp
  with put have "sb_wf q" using sb_run_stream(1) [unfolded sb_run_def, of junk sb0 w segs q] by blast
  with put show ?case using sb_put_law [of q bs q'] by simp
next
  case (emit w segs q n q' bs)
  note st = sb_run_stream [unfolded sb_run_def, OF emit.hyps(1) emit.prems]
  from st(3) obtain acked where w: "w = acked @ q_inflight (sb_abs q) @ q_fresh (sb_abs q)"
    and b: "last_byte_acked_seqnum q = last_byte_acked_seqnum sb0 + of_nat (length acked)" by auto
  have "unat (last_byte_acked_seqnum q) = unat (last_byte_acked_seqnum sb0) + length acked"
    unfolding b using emit.prems(4) w by (simp add: unat_add32 unat_of_nat32)
  with emit.prems(4) w st(2) have "sb_room q" by (simp add: sb_room_def)
  from sb_emit_law [OF st(1) this emit.hyps(2,3)] emit.hyps(2) emit.IH [OF emit.prems]
  show ?case by simp
next
  case (ack w segs q a tv q')
  note st = sb_run_stream [unfolded sb_run_def, OF ack.hyps(1) ack.prems]
  from st(3) obtain acked where w: "w = acked @ q_inflight (sb_abs q) @ q_fresh (sb_abs q)"
    and b: "last_byte_acked_seqnum q = last_byte_acked_seqnum sb0 + of_nat (length acked)" by auto
  have "unat (last_byte_acked_seqnum q) = unat (last_byte_acked_seqnum sb0) + length acked"
    unfolding b using ack.prems(4) w by (simp add: unat_add32 unat_of_nat32)
  with ack.prems(4) w st(2) have "sb_room q" by (simp add: sb_room_def)
  from sb_ack_law [OF st(1) this ack.hyps(2,3)] ack.IH [OF ack.prems] show ?case by simp
qed

section \<open>Properties\<close>

text \<open>
  A write stores the bytes behind the ones already queued when they fit, and aborts on
  the assertion when they do not; what fits is one byte less than the capacity minus what is
  queued.
\<close>

lemma send_buffer_write_correct:
  assumes "sb_wf sb" and "unat len \<le> length data"
  shows "if unat len + length (q_inflight (sb_abs sb)) + length (q_fresh (sb_abs sb)) < cap sb
    then \<exists>sb'. send_buffer_write sb data len = Inr sb' \<and> sb_wf sb'
      \<and> sb_abs sb' = (sb_abs sb)\<lparr>q_fresh := q_fresh (sb_abs sb) @ take (unat len) data\<rparr>
    else send_buffer_write sb data len = Inl AssertFail"
proof -
  have "unat len + length (q_inflight (sb_abs sb)) + length (q_fresh (sb_abs sb)) < cap sb
      \<longleftrightarrow> len \<le> send_buffer_max_write sb"
    using sb_wfD [OF assms(1)] by (simp add: length_abs [OF assms(1)] word_le_nat_alt max_write
      assms(1)) linarith
  moreover have "\<not> len \<le> send_buffer_max_write sb \<Longrightarrow>
      send_buffer_write sb data len = Inl AssertFail"
    by (simp add: send_buffer_write_def)
  ultimately show ?thesis using send_buffer_write_abs [OF assms(1) _ assms(2)] by auto
qed

text \<open>A small buffer for the witnesses: capacity 8, base 100, nothing queued.\<close>

definition sb_example :: send_buffer_t where
  "sb_example = \<lparr>s_capacity = 8, last_byte_acked_ts = 0, last_byte_acked_seqnum = 100,
     last_byte_acked_index = 0, last_byte_sent_index = 0, next_byte_written_index = 1,
     s_buffer = [0, 0, 0, 0, 0, 0, 0, 0]\<rparr>"

lemma sb_example_wf: "sb_wf sb_example"
  by (simp add: sb_wf_def sb_example_def cap_def acked_idx_def sent_dist_def written_dist_def
    dist0_def dist1_def)

lemma send_buffer_write_correct_witness:
  "\<exists>sb'. send_buffer_write sb_example [1, 2, 3] 3 = Inr sb' \<and> q_fresh (sb_abs sb') = [1, 2, 3]"
proof -
  have "q_inflight (sb_abs sb_example) = []" "q_fresh (sb_abs sb_example) = []" "cap sb_example = 8"
    by (simp_all add: sb_abs_def pending_def ring_get_def sb_example_def cap_def acked_idx_def
      sent_dist_def written_dist_def dist0_def dist1_def)
  with send_buffer_write_correct [OF sb_example_wf, of 3 "[1, 2, 3]"] show ?thesis by auto
qed

text \<open>
  The counters the backend and the API decide by are the lengths of the queue: bytes in
  flight, bytes never sent, and room for one byte less than the capacity.
\<close>

lemma send_buffer_counters:
  assumes "sb_wf sb"
  shows "unat (get_unacknowledged_count sb) = length (q_inflight (sb_abs sb))
    \<and> unat (send_buffer_max_new_dump sb) = length (q_fresh (sb_abs sb))
    \<and> unat (send_buffer_max_write sb) =
        cap sb - 1 - length (q_inflight (sb_abs sb)) - length (q_fresh (sb_abs sb))"
  using sb_wfD [OF assms]
  by (simp add: unacked_count max_new_dump max_write length_abs assms)

lemma send_buffer_counters_witness:
  "unat (get_unacknowledged_count sb_example) = 0 \<and> unat (send_buffer_max_write sb_example) = 7"
  using send_buffer_counters [OF sb_example_wf]
  by (simp add: sb_abs_def pending_def ring_get_def sb_example_def cap_def acked_idx_def
    sent_dist_def written_dist_def dist0_def dist1_def)

text \<open>
  C32: An acknowledgement that is not newer than the base changes nothing; one for bytes in
  flight removes exactly those bytes from the front, moves the base to the last of them and
  restarts the retransmission clock; one at or beyond the capacity aborts the process.
\<close>

theorem send_buffer_update_ack_correct:
  fixes hdr_ack :: u32
  assumes wf: "sb_wf sb" and room: "sb_room sb"
  defines "n \<equiv> unat (hdr_ack - 1 - last_byte_acked_seqnum sb)"
  shows "(hdr_ack - 1 \<le> last_byte_acked_seqnum sb \<longrightarrow>
      send_buffer_update_ack tv sb hdr_ack = Inr sb)
    \<and> (last_byte_acked_seqnum sb < hdr_ack - 1 \<and> n \<le> length (q_inflight (sb_abs sb)) \<longrightarrow>
      (\<exists>sb'. send_buffer_update_ack tv sb hdr_ack = Inr sb' \<and> sb_wf sb'
        \<and> last_byte_acked_ts sb' = get_time_ms tv
        \<and> sb_abs sb' = (sb_abs sb)\<lparr>q_base := hdr_ack - 1,
             q_inflight := drop n (q_inflight (sb_abs sb))\<rparr>))
    \<and> (last_byte_acked_seqnum sb < hdr_ack - 1 \<and> cap sb \<le> n \<longrightarrow>
      send_buffer_update_ack tv sb hdr_ack = Inl AssertFail)"
proof (intro conjI impI)
  assume "hdr_ack - 1 \<le> last_byte_acked_seqnum sb"
  then show "send_buffer_update_ack tv sb hdr_ack = Inr sb" by (rule update_ack_old)
next
  assume a: "last_byte_acked_seqnum sb < hdr_ack - 1 \<and> n \<le> length (q_inflight (sb_abs sb))"
  then have "n \<le> sent_dist sb" by (simp add: length_abs [OF wf])
  with a send_buffer_update_ack_abs [OF wf room _ n_def [THEN meta_eq_to_obj_eq], of tv]
  show "\<exists>sb'. send_buffer_update_ack tv sb hdr_ack = Inr sb' \<and> sb_wf sb'
        \<and> last_byte_acked_ts sb' = get_time_ms tv
        \<and> sb_abs sb' = (sb_abs sb)\<lparr>q_base := hdr_ack - 1,
             q_inflight := drop n (q_inflight (sb_abs sb))\<rparr>"
    by blast
next
  assume a: "last_byte_acked_seqnum sb < hdr_ack - 1 \<and> cap sb \<le> n"
  then have "n = unat (hdr_ack - 1) - unat (last_byte_acked_seqnum sb)"
    unfolding n_def by (intro unat_sub32) (simp add: word_less_nat_alt)
  with a room have "last_byte_acked_seqnum sb + s_capacity sb \<le> hdr_ack - 1"
    by (simp add: word_le_nat_alt word_less_nat_alt sb_room_def cap_def unat_add32) linarith
  with a show "send_buffer_update_ack tv sb hdr_ack = Inl AssertFail"
    by (intro send_buffer_update_ack_beyond) simp_all
qed

theorem send_buffer_update_ack_correct_witness:
  "send_buffer_update_ack (7, 500000) sb_example 101 = Inr sb_example
    \<and> send_buffer_update_ack (7, 500000) sb_example 200 = Inl AssertFail"
proof -
  have r: "sb_room sb_example" by (simp add: sb_room_def sb_example_def cap_def)
  show ?thesis
    using send_buffer_update_ack_correct [OF sb_example_wf r, of 101 "(7, 500000)"]
      send_buffer_update_ack_correct [OF sb_example_wf r, of 200 "(7, 500000)"]
    by (simp add: sb_example_def cap_def)
qed

text \<open>
  C25: Exactly when a dump of the next fresh bytes works. It needs the run of bytes to start
  above the base index and to end inside the array; then it delivers those bytes and moves
  them from fresh to in flight. In every other case, that is as soon as the fresh bytes have
  wrapped around or would wrap in this segment, one of its two copies leaves its block.
\<close>

theorem send_buffer_dump_exact:
  assumes "sb_wf sb" and "sb_room sb" and "len \<noteq> 0" and "unat len \<le> length (q_fresh (sb_abs sb))"
    and "length data = unat len"
  shows "if dump_safe sb len
    then \<exists>sb'. send_buffer_dump sb ((last_byte_sent_index sb + 1) mod s_capacity sb) len data =
          Inr (sb', take (unat len) (q_fresh (sb_abs sb)))
        \<and> sb_wf sb'
        \<and> sb_abs sb' = (sb_abs sb)
            \<lparr>q_inflight := q_inflight (sb_abs sb) @ take (unat len) (q_fresh (sb_abs sb)),
             q_fresh := drop (unat len) (q_fresh (sb_abs sb))\<rparr>
    else send_buffer_dump sb ((last_byte_sent_index sb + 1) mod s_capacity sb) len data =
          Inl OutOfBounds"
proof -
  have "unat len < written_dist sb - sent_dist sb"
    using assms(4) sb_wfD(7) [OF assms(1)] by (simp add: length_abs [OF assms(1)])
  then show ?thesis
    using send_buffer_dump_abs [OF assms(1-3) _ assms(5)]
      send_buffer_dump_unsafe [OF assms(1,3) _ assms(5)]
    by (cases "dump_safe sb len") auto
qed

text \<open>
  The same small buffer later: slots 1 to 6 sent and acknowledged, three fresh bytes in
  slots 7, 0 and 1. One byte can be dumped, two cannot.
\<close>

definition sb_wrapped :: send_buffer_t where
  "sb_wrapped = \<lparr>s_capacity = 8, last_byte_acked_ts = 0, last_byte_acked_seqnum = 106,
     last_byte_acked_index = 6, last_byte_sent_index = 6, next_byte_written_index = 2,
     s_buffer = [11, 12, 0, 0, 0, 0, 0, 10]\<rparr>"

lemma sb_wrapped_facts:
  "sb_wf sb_wrapped" "sb_room sb_wrapped" "q_fresh (sb_abs sb_wrapped) = [10, 11, 12]"
  "(last_byte_sent_index sb_wrapped + 1) mod s_capacity sb_wrapped = 7"
  "dump_safe sb_wrapped 1" "\<not> dump_safe sb_wrapped 2"
  by (simp_all add: sb_wf_def sb_room_def sb_wrapped_def cap_def acked_idx_def sent_dist_def
    written_dist_def dist0_def dist1_def sb_abs_def pending_def ring_get_def dump_safe_def
    upt_rec)

theorem send_buffer_dump_exact_witness:
  "(\<exists>sb'. send_buffer_dump sb_wrapped 7 1 [0] = Inr (sb', [10]))
    \<and> send_buffer_dump sb_wrapped 7 2 [0, 0] = Inl OutOfBounds"
  using send_buffer_dump_exact [OF sb_wrapped_facts(1,2), of 1 "[0]"]
    send_buffer_dump_exact [OF sb_wrapped_facts(1,2), of 2 "[0, 0]"]
  by (auto simp: sb_wrapped_facts)

text \<open>
  C3: From a fresh buffer, whatever the application writes, the backend dumps and the peer
  acknowledges, in any order: every segment put on the wire with sequence number
  \<open>isn + 1 + k\<close> carries the bytes of the written stream from position \<open>k\<close> on, and
  acknowledged, in-flight and fresh bytes together are the written stream.
\<close>

theorem send_buffer_stream:
  assumes "1 < unat capacity" and "unat capacity \<le> 2 ^ 31"
    and "send_buffer_initialize tv (send_buffer_create junk mem capacity) isn = Inr sb0"
    and "sb_run junk sb0 w segs sb"
    and "unat isn + length w + unat capacity < 2 ^ 32"
  shows "(\<forall>(s, p) \<in> set segs. \<exists>k. s = isn + 1 + of_nat k \<and> k + length p \<le> length w
        \<and> p = take (length p) (drop k w))
    \<and> (\<exists>acked. w = acked @ q_inflight (sb_abs sb) @ q_fresh (sb_abs sb)
        \<and> last_byte_acked_seqnum sb = isn + of_nat (length acked))"
proof -
  from send_buffer_initialize_abs [of "send_buffer_create junk mem capacity" tv isn] assms(1-3)
  have "sb_wf sb0" "sb_abs sb0 = \<lparr>q_base = isn, q_inflight = [], q_fresh = []\<rparr>"
    "cap sb0 = unat capacity"
    by (auto simp: send_buffer_create_def cap_def)
  moreover from this(2) have "last_byte_acked_seqnum sb0 = isn"
    by (metis sb_abs_def byte_queue.select_convs(1))
  ultimately show ?thesis
    using sb_run_stream(3,4) [OF assms(4)] assms(5) by simp
qed

text \<open>
  C31: The total that one connection can send. In every such history the payload bytes put on
  the wire number less than the capacity of the buffer: the byte that would wrap around is
  never sent, because the dump that reaches it leaves its blocks.
\<close>

theorem send_buffer_sends_less_than_capacity:
  assumes "1 < unat capacity" and "unat capacity \<le> 2 ^ 31"
    and "send_buffer_initialize tv (send_buffer_create junk mem capacity) isn = Inr sb0"
    and "sb_run junk sb0 w segs sb"
    and "unat isn + length w + unat capacity < 2 ^ 32"
  shows "length (concat (map snd segs)) < unat capacity"
proof -
  from send_buffer_initialize_abs [of "send_buffer_create junk mem capacity" tv isn] assms(1-3)
  have init: "sb_wf sb0" "sb_abs sb0 = \<lparr>q_base = isn, q_inflight = [], q_fresh = []\<rparr>"
    "cap sb0 = unat capacity"
    by (auto simp: send_buffer_create_def cap_def)
  from init(2) have b: "last_byte_acked_seqnum sb0 = isn"
    by (metis sb_abs_def byte_queue.select_convs(1))
  have "last_byte_sent_index sb0 = 0"
    using assms(3) by (auto simp: send_buffer_initialize_def)
  with sb_run_sent_index [OF assms(4) init(1)] init b assms(5)
  have "length (concat (map snd segs)) = unat (last_byte_sent_index sb)" by simp
  moreover have "unat (last_byte_sent_index sb) < cap sb"
    using sb_run_stream(1) [OF assms(4) init(1)] init b assms(5) sb_wfD(5) by simp
  moreover have "cap sb = unat capacity"
    using sb_run_stream(2) [OF assms(4) init(1)] init b assms(5) by simp
  ultimately show ?thesis by simp
qed

text \<open>
  The witness of both: three bytes written, two of them sent, then acknowledged.
\<close>

definition sb_zero :: send_buffer_t where
  "sb_zero = \<lparr>s_capacity = 0, last_byte_acked_ts = 0, last_byte_acked_seqnum = 0,
     last_byte_acked_index = 0, last_byte_sent_index = 0, next_byte_written_index = 0,
     s_buffer = []\<rparr>"

definition sb_example2 :: send_buffer_t where
  "sb_example2 = sb_example\<lparr>next_byte_written_index := 4, s_buffer := [0, 1, 2, 3, 0, 0, 0, 0]\<rparr>"

lemma sb_example_created:
  "send_buffer_initialize (0, 0) (send_buffer_create (\<lambda>_. 0) sb_zero 8) 100 = Inr sb_example"
  by (simp add: send_buffer_initialize_def send_buffer_create_def sb_zero_def sb_example_def
    malloc_def get_time_ms_def upt_rec)

lemma sb_example_run:
  "sb_run (\<lambda>_. 0) sb_example [1, 2, 3] [(101, [1, 2])] (sb_example2\<lparr>last_byte_sent_index := 2\<rparr>)"
proof -
  have "sb_run (\<lambda>_. 0) sb_example [] [] sb_example"
    unfolding sb_run_def by (rule queue_run.start)
  moreover have "sb_put sb_example [1, 2, 3] = Inr sb_example2"
    by (simp add: sb_put_def send_buffer_write_def sb_example_def sb_example2_def
      send_buffer_max_write_def get_next_byte_written_seqnum_def safe_memcpy_to_sendbuf_def
      memcpy_def)
  ultimately have p: "sb_run (\<lambda>_. 0) sb_example ([] @ [1, 2, 3]) [] sb_example2"
    unfolding sb_run_def by (intro queue_run.put) simp_all
  moreover have "sb_emit (\<lambda>_. 0) sb_example2 2 = Inr (sb_example2\<lparr>last_byte_sent_index := 2\<rparr>, [1, 2])"
    by (simp add: sb_emit_def send_buffer_dump_def sb_example_def sb_example2_def
      index_to_seqnum_send_def get_last_byte_sent_seqnum_def safe_memcpy_from_sendbuf_def
      memcpy_def)
  moreover have "2 \<le> length (q_fresh (sb_abs sb_example2))"
    by (simp add: sb_abs_def pending_def ring_get_def sb_example2_def sb_example_def cap_def
      acked_idx_def sent_dist_def written_dist_def dist0_def dist1_def)
  ultimately have "sb_run (\<lambda>_. 0) sb_example ([] @ [1, 2, 3])
      ([] @ [(get_last_byte_sent_seqnum sb_example2 + 1, [1, 2])])
      (sb_example2\<lparr>last_byte_sent_index := 2\<rparr>)"
    unfolding sb_run_def by (intro queue_run.emit) simp_all
  then show ?thesis
    by (simp add: get_last_byte_sent_seqnum_def sb_example2_def sb_example_def)
qed

theorem send_buffer_stream_witness:
  "\<exists>k. (101 :: u32) = 100 + 1 + of_nat k \<and> k + length [1, 2 :: u8] \<le> length [1, 2, 3 :: u8]
    \<and> [1, 2 :: u8] = take (length [1, 2 :: u8]) (drop k [1, 2, 3])"
  using send_buffer_stream [OF _ _ sb_example_created sb_example_run]
  by simp

theorem send_buffer_sends_less_than_capacity_witness:
  "length (concat (map snd [(101 :: u32, [1, 2 :: u8])])) < unat (8 :: u32)"
  by (rule send_buffer_sends_less_than_capacity [OF _ _ sb_example_created sb_example_run]) simp_all

end
