(* ===== verification/Segment_Lists.thy ===== *)
theory Segment_Lists
  imports Segments
begin

text \<open>
  The pointer structure of \<open>Segments\<close> seen as a list of nodes: \<open>dls\<close> is the doubly linked
  list, \<open>heap_ok\<close> says that the heap holds that list and nothing else (so nothing leaked and
  nothing is freed twice), and \<open>segment_merge_list\<close> shows that \<open>segment_merge\<close> replaces the
  segments that meet the new interval by one, \<open>merge_list\<close>.
\<close>

section \<open>A doubly linked list of intervals\<close>

text \<open>A node is its address and the two sequence numbers it holds.\<close>

type_synonym node = "nat \<times> u32 \<times> u32"
abbreviation addr :: "node \<Rightarrow> nat" where "addr \<equiv> fst"
abbreviation lo :: "node \<Rightarrow> u32" where "lo x \<equiv> fst (snd x)"
abbreviation hi :: "node \<Rightarrow> u32" where "hi x \<equiv> snd (snd x)"

definition first_ref :: "node list \<Rightarrow> ptr \<Rightarrow> ptr" where
  "first_ref xs p = (case xs of [] \<Rightarrow> p | x # _ \<Rightarrow> Ref (addr x))"
definition last_ref :: "node list \<Rightarrow> ptr \<Rightarrow> ptr" where
  "last_ref xs p = (if xs = [] then p else Ref (addr (last xs)))"

lemma first_ref_simps [simp]: "first_ref [] p = p" "first_ref (x # xs) p = Ref (addr x)"
  "first_ref (xs @ ys) p = first_ref xs (first_ref ys p)"
  by (simp_all add: first_ref_def split: list.split)

lemma last_ref_simps [simp]: "last_ref [] p = p" "last_ref (x # xs) p = last_ref xs (Ref (addr x))"
  "last_ref (xs @ ys) p = last_ref ys (last_ref xs p)"
  by (simp_all add: last_ref_def)

fun dls :: "(nat \<Rightarrow> segment_t option) \<Rightarrow> ptr \<Rightarrow> node list \<Rightarrow> ptr \<Rightarrow> bool" where
  "dls c p [] n \<longleftrightarrow> True"
| "dls c p (x # xs) n \<longleftrightarrow>
     c (addr x) = Some \<lparr>start_seqnum_inclusive = lo x, end_seqnum_inclusive = hi x,
        prevp = p, nextp = first_ref xs n\<rparr>
     \<and> dls c (Ref (addr x)) xs n"

lemma dls_append [simp]:
  "dls c p (xs @ ys) n \<longleftrightarrow> dls c p xs (first_ref ys n) \<and> dls c (last_ref xs p) ys n"
  by (induction xs arbitrary: p) auto

lemma dls_frame [simp]: "a \<notin> addr ` set xs \<Longrightarrow> dls (c(a := v)) p xs n = dls c p xs n"
  by (induction xs arbitrary: p) auto

lemma dls_mapped: "dls c p xs n \<Longrightarrow> a \<in> addr ` set xs \<Longrightarrow> \<exists>s. c a = Some s"
  by (induction xs arbitrary: p) auto

text \<open>Relinking the two ends of a list.\<close>

lemma dls_set_next:
  assumes "dls c p xs n" and "xs \<noteq> []" and "distinct (map addr xs)" and "last_ref xs p = Ref a"
  shows "\<exists>s. c a = Some s \<and> dls (c(a \<mapsto> s\<lparr>nextp := n'\<rparr>)) p xs n'"
proof -
  from assms(2) obtain ys x where xs: "xs = ys @ [x]" by (cases xs rule: rev_cases) auto
  with assms have "a = addr x" "a \<notin> addr ` set ys" by auto
  with assms(1) xs show ?thesis by simp
qed

lemma dls_set_prev:
  assumes "dls c p (x # xs) n" and "distinct (map addr (x # xs))"
  shows "\<exists>s. c (addr x) = Some s \<and> dls (c(addr x \<mapsto> s\<lparr>prevp := p'\<rparr>)) p' (x # xs) n"
  using assms by auto

lemma scan_left_list:
  assumes "dls (cells h) p (xs @ ys) Null" and "\<forall>x \<in> set xs. hi x < s"
    and "ys = [] \<or> s \<le> hi (hd ys)" and "length xs < fuel"
  shows "scan_left h fuel (first_ref (xs @ ys) Null) s = Inr (first_ref ys Null)"
  using assms
proof (induction xs arbitrary: p fuel)
  case Nil
  then obtain f where "fuel = Suc f" by (cases fuel) auto
  with Nil show ?case by (cases ys) (auto simp: leD)
next
  case (Cons x xs)
  then obtain f where f: "fuel = Suc f" "length xs < f" by (cases fuel) auto
  have "first_ref xs (first_ref ys Null) \<noteq> Uninit"
    by (cases xs; cases ys) auto
  then have "init (first_ref xs (first_ref ys Null)) = Inr (first_ref xs (first_ref ys Null))"
    by (cases "first_ref xs (first_ref ys Null)") auto
  with Cons.IH [of "Ref (addr x)" f] Cons.prems f show ?case by simp
qed

lemma scan_right_list:
  assumes "dls (cells h) Null (xs @ ys) n" and "\<forall>x \<in> set ys. e < lo x"
    and "xs = [] \<or> lo (last xs) \<le> e" and "length ys < fuel"
  shows "scan_right h fuel (last_ref (xs @ ys) Null) e = Inr (last_ref xs Null)"
  using assms
proof (induction ys arbitrary: n fuel rule: rev_induct)
  case Nil
  then obtain f where "fuel = Suc f" by (cases fuel) auto
  with Nil show ?case by (cases xs rule: rev_cases) (auto simp: leD)
next
  case (snoc y ys)
  then obtain f where f: "fuel = Suc f" "length ys < f" by (cases fuel) auto
  have "last_ref ys (last_ref xs Null) \<noteq> Uninit"
    by (simp add: last_ref_def)
  then have "init (last_ref ys (last_ref xs Null)) = Inr (last_ref ys (last_ref xs Null))"
    by (cases "last_ref ys (last_ref xs Null)") auto
  with snoc.IH [of "Ref (addr y)" f] snoc.prems f show ?case by simp
qed

lemma dls_cong: "(\<And>a. a \<in> addr ` set xs \<Longrightarrow> c' a = c a) \<Longrightarrow> dls c p xs n \<Longrightarrow> dls c' p xs n"
  by (induction xs arbitrary: p) auto

lemma dls_first:
  "dls c p xs n \<Longrightarrow> xs \<noteq> [] \<Longrightarrow> c (addr (hd xs)) = Some \<lparr>start_seqnum_inclusive = lo (hd xs),
     end_seqnum_inclusive = hi (hd xs), prevp = p, nextp = first_ref (tl xs) n\<rparr>"
  by (cases xs) auto

lemma dls_last:
  "dls c p xs n \<Longrightarrow> xs \<noteq> [] \<Longrightarrow> c (addr (last xs)) = Some \<lparr>start_seqnum_inclusive = lo (last xs),
     end_seqnum_inclusive = hi (last xs), prevp = last_ref (butlast xs) p, nextp = n\<rparr>"
  by (cases xs rule: rev_cases) auto

lemma init_ref [simp]: "init (first_ref xs Null) = Inr (first_ref xs Null)"
  "init (last_ref xs Null) = Inr (last_ref xs Null)"
  by (simp_all add: first_ref_def last_ref_def split: list.split)

lemma relink_first:
  assumes "dls (cells h) p xs n" and "distinct (map addr xs)"
  shows "\<exists>h'. (if first_ref xs Null \<noteq> Null then set_prev h (first_ref xs Null) v else Inr h) = Inr h'
    \<and> dls (cells h') v xs n \<and> (\<forall>a. a \<notin> addr ` set xs \<longrightarrow> cells h' a = cells h a)
    \<and> dom (cells h') = dom (cells h) \<and> brk h' = brk h \<and> fresh h' = fresh h"
  using assms by (cases xs) (auto simp: set_prev_def)

lemma relink_last:
  assumes "dls (cells h) p xs n" and "distinct (map addr xs)"
  shows "\<exists>h'. (if last_ref xs Null \<noteq> Null then set_next h (last_ref xs Null) v else Inr h) = Inr h'
    \<and> dls (cells h') p xs v \<and> (\<forall>a. a \<notin> addr ` set xs \<longrightarrow> cells h' a = cells h a)
    \<and> dom (cells h') = dom (cells h) \<and> brk h' = brk h \<and> fresh h' = fresh h"
proof (cases xs rule: rev_cases)
  case Nil
  then show ?thesis by simp
next
  case (snoc ys x)
  with assms show ?thesis by (auto simp: set_next_def)
qed

lemma free_loop_list:
  assumes "dls (cells h) (Ref q) ys n" and "ys \<noteq> []" and "distinct (q # map addr ys)"
    and "cells h q \<noteq> None" and "length ys \<le> fuel"
  shows "\<exists>h'. bindF (free_loop h fuel (first_ref ys Null) (last_ref ys Null)) (\<lambda>h.
           bindF (get_prev h (last_ref ys Null)) (\<lambda>p.
           bindF (free_segment h p) (\<lambda>h. free_segment h (last_ref ys Null)))) = Inr h'
    \<and> (\<forall>a. cells h' a = (if a = q \<or> a \<in> addr ` set ys then None else cells h a))
    \<and> brk h' = brk h \<and> fresh h' = fresh h"
  using assms
proof (induction ys arbitrary: h q fuel)
  case Nil
  then show ?case by simp
next
  case (Cons y ys)
  from Cons.prems obtain f where f: "fuel = Suc f" "length ys \<le> f" by (cases fuel) auto
  show ?case
  proof (cases "ys = []")
    case True
    with Cons.prems f show ?thesis by (auto simp: get_prev_def)
  next
    case False
    let ?h = "h\<lparr>cells := (cells h)(q := None)\<rparr>"
    have ne: "addr y \<noteq> addr (last ys)" 
      using Cons.prems(3) last_in_set [OF False] by (auto simp: image_iff)
    have "dls (cells ?h) (Ref (addr y)) ys n" "distinct (addr y # map addr ys)"
      "cells ?h (addr y) \<noteq> None"
      using Cons.prems by auto
    from Cons.IH [OF this(1) False this(2,3) f(2)]
    obtain h' where h': "bindF (free_loop ?h f (first_ref ys Null) (last_ref ys Null)) (\<lambda>h.
           bindF (get_prev h (last_ref ys Null)) (\<lambda>p.
           bindF (free_segment h p) (\<lambda>h. free_segment h (last_ref ys Null)))) = Inr h'"
        "\<forall>a. cells h' a = (if a = addr y \<or> a \<in> addr ` set ys then None else cells ?h a)"
        "brk h' = brk h" "fresh h' = fresh h"
      by auto
    have fr: "first_ref ys n = first_ref ys Null" "last_ref ys (Ref (addr y)) = last_ref ys Null"
      "last_ref ys Null = Ref (addr (last ys))"
      using False by (simp_all add: first_ref_def last_ref_def split: list.split)
    have step: "free_loop h fuel (first_ref (y # ys) Null) (last_ref (y # ys) Null) =
        free_loop ?h f (first_ref ys Null) (last_ref ys Null)"
      using Cons.prems f ne False by (auto simp: get_prev_def get_next_def fr)
    show ?thesis
      unfolding step using h' False by (intro exI [of _ h']) (auto simp: fr)
  qed
qed

section \<open>The segment heap, and the list a merge should give\<close>

definition heap_ok :: "seg_heap \<Rightarrow> node list \<Rightarrow> bool" where
  "heap_ok h xs \<longleftrightarrow> dls (cells h) Null xs Null \<and> distinct (map addr xs)
     \<and> dom (cells h) = addr ` set xs \<and> addr ` set xs \<subseteq> {..<brk h}
     \<and> prevp (fresh h) = Null \<and> nextp (fresh h) = Null"

lemma heap_ok_length:
  assumes "heap_ok h xs"
  shows "length xs \<le> brk h"
proof -
  have "set (map addr xs) \<subseteq> {..<brk h}" using assms by (auto simp: heap_ok_def)
  then have "card (set (map addr xs)) \<le> brk h" using card_mono [of "{..<brk h}"] by fastforce
  then show ?thesis using assms distinct_card [of "map addr xs"] by (simp add: heap_ok_def)
qed

definition segs_sorted :: "node list \<Rightarrow> bool" where
  "segs_sorted xs \<longleftrightarrow> sorted_wrt (\<lambda>x y. hi x < lo y) xs \<and> (\<forall>x \<in> set xs. lo x \<le> hi x)"

definition seg_left :: "node list \<Rightarrow> u32 \<Rightarrow> node list" where
  "seg_left xs s = takeWhile (\<lambda>x. hi x < s) xs"
definition seg_mid :: "node list \<Rightarrow> u32 \<Rightarrow> u32 \<Rightarrow> node list" where
  "seg_mid xs s e = takeWhile (\<lambda>x. lo x \<le> e) (dropWhile (\<lambda>x. hi x < s) xs)"
definition seg_right :: "node list \<Rightarrow> u32 \<Rightarrow> u32 \<Rightarrow> node list" where
  "seg_right xs s e = dropWhile (\<lambda>x. lo x \<le> e) (dropWhile (\<lambda>x. hi x < s) xs)"

definition merged :: "nat \<Rightarrow> u32 \<Rightarrow> u32 \<Rightarrow> node list \<Rightarrow> node" where
  "merged a s e M =
     (if M = [] then (a, s, e) else (a, min (lo (hd M)) s, max (hi (last M)) e))"

definition merge_list :: "node list \<Rightarrow> nat \<Rightarrow> u32 \<Rightarrow> u32 \<Rightarrow> node list" where
  "merge_list xs a s e = seg_left xs s @ merged a s e (seg_mid xs s e) # seg_right xs s e"

lemma min_max_u32: "min_u32 a b = min a b" "max_u32 a b = max a b"
  by (auto simp: min_u32_def max_u32_def min_def max_def)

lemma seg_split: "xs = seg_left xs s @ seg_mid xs s e @ seg_right xs s e"
  by (simp add: seg_left_def seg_mid_def seg_right_def)

lemma sorted_wrt_dropWhile: "sorted_wrt P xs \<Longrightarrow> sorted_wrt P (dropWhile Q xs)"
  by (induction xs) auto

lemma seg_parts:
  assumes "segs_sorted xs" and "s \<le> e"
  shows "\<forall>x \<in> set (seg_left xs s). hi x < s" "\<forall>x \<in> set (seg_right xs s e). e < lo x"
    "\<forall>x \<in> set (seg_mid xs s e). lo x \<le> e \<and> s \<le> hi x"
    "\<forall>x \<in> set (seg_left xs s). lo x \<le> e" "\<forall>x \<in> set (seg_right xs s e). s \<le> hi x"
proof -
  show l: "\<forall>x \<in> set (seg_left xs s). hi x < s"
    by (auto simp: seg_left_def dest: set_takeWhileD)
  let ?r = "dropWhile (\<lambda>x. hi x < s) xs"
  have sub: "set ?r \<subseteq> set xs" by (rule set_dropWhileD [THEN subsetI])
  have r: "sorted_wrt (\<lambda>x y. hi x < lo y) ?r"
    using assms(1) by (intro sorted_wrt_dropWhile) (simp add: segs_sorted_def)
  have ge: "\<forall>x \<in> set ?r. s \<le> hi x"
  proof (cases ?r)
    case (Cons y ys)
    then have y: "s \<le> hi y" using hd_dropWhile [of "\<lambda>x. hi x < s" xs] by (simp add: not_less)
    have "\<forall>x \<in> set ys. s \<le> hi x"
    proof
      fix x assume x: "x \<in> set ys"
      then have "hi y < lo x" using r Cons by simp
      moreover have "lo x \<le> hi x" using x Cons sub assms(1) by (auto simp: segs_sorted_def)
      ultimately show "s \<le> hi x" using y by order
    qed
    with y Cons show ?thesis by simp
  next
    case Nil
    show ?thesis unfolding Nil by simp
  qed
  let ?q = "dropWhile (\<lambda>x. lo x \<le> e) ?r"
  have q: "sorted_wrt (\<lambda>x y. hi x < lo y) ?q" 
    using r by (rule sorted_wrt_dropWhile)
  have subq: "set ?q \<subseteq> set ?r" by (rule set_dropWhileD [THEN subsetI])
  show "\<forall>x \<in> set (seg_right xs s e). e < lo x"
  proof (cases ?q)
    case (Cons y ys)
    then have y: "e < lo y" using hd_dropWhile [of "\<lambda>x. lo x \<le> e" ?r] by (simp add: not_le)
    moreover have "lo y \<le> hi y" using Cons subq sub assms(1) by (auto simp: segs_sorted_def)
    ultimately have "e < lo x" if "x \<in> set ys" for x
      using q Cons that by (auto intro: less_trans)
    with y Cons show ?thesis by (simp add: seg_right_def)
  next
    case Nil
    then have "seg_right xs s e = []" by (simp only: seg_right_def)
    then show ?thesis by simp
  qed
  show "\<forall>x \<in> set (seg_mid xs s e). lo x \<le> e \<and> s \<le> hi x"
    using ge by (auto simp: seg_mid_def dest: set_takeWhileD)
  show "\<forall>x \<in> set (seg_right xs s e). s \<le> hi x"
    using ge subq by (auto simp: seg_right_def)
  have "set (seg_left xs s) \<subseteq> set xs" by (auto simp: seg_left_def dest: set_takeWhileD)
  with l assms show "\<forall>x \<in> set (seg_left xs s). lo x \<le> e"
    unfolding segs_sorted_def by (meson less_imp_le order.trans subsetD)
qed

lemma merge_list_sorted:
  assumes "segs_sorted xs" and "s \<le> e"
  shows "segs_sorted (merge_list xs a s e)"
proof -
  note p = seg_parts [OF assms]
  let ?L = "seg_left xs s" and ?M = "seg_mid xs s e" and ?R = "seg_right xs s e"
  have "segs_sorted (?L @ ?M @ ?R)" using assms(1) by (simp add: seg_split [symmetric])
  then have st: "segs_sorted ?L" "segs_sorted ?M" "segs_sorted ?R"
      "\<forall>x \<in> set ?L. \<forall>y \<in> set ?M. hi x < lo y" "\<forall>x \<in> set ?L. \<forall>y \<in> set ?R. hi x < lo y"
      "\<forall>x \<in> set ?M. \<forall>y \<in> set ?R. hi x < lo y"
    by (auto simp: segs_sorted_def sorted_wrt_append)
  have m: "lo (merged a s e ?M) \<le> hi (merged a s e ?M)"
    using assms(2) by (auto simp: merged_def min_le_iff_disj le_max_iff_disj)
  have lm: "\<forall>x \<in> set ?L. hi x < lo (merged a s e ?M)"
    using st(4) p(1) by (auto simp: merged_def)
  have mr: "\<forall>x \<in> set ?R. hi (merged a s e ?M) < lo x"
    using st(6) p(2) by (auto simp: merged_def)
  show ?thesis
    using st lm mr m by (auto simp: segs_sorted_def merge_list_def sorted_wrt_append)
qed

section \<open>What the merge does to the heap\<close>

abbreviation (input) seg_node :: "u32 \<Rightarrow> u32 \<Rightarrow> ptr \<Rightarrow> ptr \<Rightarrow> segment_t" where
  "seg_node s e p n \<equiv> \<lparr>start_seqnum_inclusive = s, end_seqnum_inclusive = e, prevp = p, nextp = n\<rparr>"

lemma heap_ok_insert:
  assumes "dls (cells h') Null L (Ref a)" and "dls (cells h') (Ref a) R Null"
    and "cells h' a = Some (seg_node s e (last_ref L Null) (first_ref R Null))"
    and "dom (cells h') = insert a (addr ` set L \<union> addr ` set R)"
    and "distinct (map addr (L @ R))" and "addr ` set (L @ R) \<subseteq> {..<a}" and "brk h' = Suc a"
    and "prevp (fresh h') = Null" and "nextp (fresh h') = Null"
  shows "heap_ok h' (L @ (a, s, e) # R)"
proof -
  have "addr ` set (L @ (a, s, e) # R) \<subseteq> {..<Suc a}"
    using assms(6) by (auto simp: image_Un less_Suc_eq)
  moreover have "a \<notin> addr ` set (L @ R)" using assms(6) by blast
  ultimately show ?thesis using assms by (simp add: heap_ok_def image_Un)
qed

lemmas seg_exec = set_range_def set_prev_def set_next_def get_prev_def get_next_def

lemma segment_merge_gap:
  assumes ok: "heap_ok h (L @ R)" and ne: "L @ R \<noteq> []"
    and sl: "scan_left h (Suc (brk h)) (first_ref (L @ R) Null) s = Inr (first_ref R Null)"
    and sr: "scan_right h (Suc (brk h)) (last_ref (L @ R) Null) e = Inr (last_ref L Null)"
  shows "\<exists>h'. segment_merge h (first_ref (L @ R) Null) (last_ref (L @ R) Null) s e = Inr (Ref (brk h), h')
    \<and> heap_ok h' (L @ (brk h, s, e) # R) \<and> brk h' = Suc (brk h) \<and> fresh h' = fresh h"
proof -
  let ?a = "brk h"
  have d: "dls (cells h) Null L (first_ref R Null)" "dls (cells h) (last_ref L Null) R Null"
    and dist: "distinct (map addr (L @ R))"
    and lt: "addr ` set (L @ R) \<subseteq> {..<?a}" and dom: "dom (cells h) = addr ` set (L @ R)"
    and fr: "prevp (fresh h) = Null" "nextp (fresh h) = Null"
    using ok by (auto simp: heap_ok_def)
  obtain fs fe where fresh: "fresh h = seg_node fs fe Null Null"
    using fr by (cases "fresh h") auto
  have new: "?a \<notin> addr ` set L" "?a \<notin> addr ` set R" using lt by (auto simp: image_Un)
  consider (right) L' l where "R = []" "L = L' @ [l]" | (left) r R' where "L = []" "R = r # R'"
    | (mid) L' l r R' where "L = L' @ [l]" "R = r # R'"
    using ne by (cases R; cases L rule: rev_cases) auto
  then show ?thesis
  proof cases
    case right
    have "segment_merge h (first_ref (L @ R) Null) (last_ref (L @ R) Null) s e =
       Inr (Ref ?a, h\<lparr>cells := (cells h)(?a \<mapsto> seg_node s e (Ref (addr l)) Null,
         addr l \<mapsto> seg_node (lo l) (hi l) (last_ref L' Null) (Ref ?a)), brk := Suc ?a\<rparr>)"
      unfolding segment_merge_def sl sr bindF.simps
      using right d new fresh by (simp add: malloc_segment_def Let_def seg_exec fun_upd_twist)
    moreover have "heap_ok (h\<lparr>cells := (cells h)(?a \<mapsto> seg_node s e (Ref (addr l)) Null,
         addr l \<mapsto> seg_node (lo l) (hi l) (last_ref L' Null) (Ref ?a)), brk := Suc ?a\<rparr>) (L @ [(?a, s, e)])"
      using right d dist lt dom fr new by (auto simp: heap_ok_def)
    ultimately show ?thesis using right by simp
  next
    case left
    let ?h = "h\<lparr>cells := (cells h)(?a \<mapsto> seg_node s e Null (Ref (addr r)),
         addr r \<mapsto> seg_node (lo r) (hi r) (Ref ?a) (first_ref R' Null)), brk := Suc ?a\<rparr>"
    have "segment_merge h (first_ref (L @ R) Null) (last_ref (L @ R) Null) s e = Inr (Ref ?a, ?h)"
      unfolding segment_merge_def sl sr bindF.simps
      using left d new fresh by (simp add: malloc_segment_def Let_def seg_exec fun_upd_twist)
    moreover have "heap_ok ?h ((?a, s, e) # R)"
      using left d dist lt dom fr new by (auto simp: heap_ok_def)
    ultimately show ?thesis using left by simp
  next
    case mid
    let ?h = "h\<lparr>cells := (cells h)(?a \<mapsto> seg_node s e (Ref (addr l)) (Ref (addr r)),
         addr r \<mapsto> seg_node (lo r) (hi r) (Ref ?a) (first_ref R' Null),
         addr l \<mapsto> seg_node (lo l) (hi l) (last_ref L' Null) (Ref ?a)), brk := Suc ?a\<rparr>"
    have ne: "addr l \<noteq> addr r" "?a \<noteq> addr l" "?a \<noteq> addr r" using mid dist lt by auto
    have "segment_merge h (first_ref (L @ R) Null) (last_ref (L @ R) Null) s e = Inr (Ref ?a, ?h)"
      unfolding segment_merge_def sl sr bindF.simps
      using mid d ne fresh by (simp add: malloc_segment_def Let_def seg_exec fun_upd_twist)
    moreover have "heap_ok ?h (L @ (?a, s, e) # R)"
      using mid d dist lt dom fr new ne by (auto simp: heap_ok_def)
    ultimately show ?thesis using mid by simp
  qed
qed

lemma free_merged:
  assumes "dls (cells h) p M n" and "M \<noteq> []" and "distinct (map addr M)" and "length M \<le> fuel"
  shows "\<exists>h'. (if Ref (addr (hd M)) = Ref (addr (last M)) then free_segment h (Ref (addr (hd M)))
           else bindF (get_next h (Ref (addr (hd M)))) (\<lambda>left_end.
                bindF (free_loop h fuel left_end (Ref (addr (last M)))) (\<lambda>h.
                bindF (get_prev h (Ref (addr (last M)))) (\<lambda>p.
                bindF (free_segment h p) (\<lambda>h. free_segment h (Ref (addr (last M)))))))) = Inr h'
    \<and> (\<forall>a. cells h' a = (if a \<in> addr ` set M then None else cells h a))
    \<and> brk h' = brk h \<and> fresh h' = fresh h"
proof -
  from assms(2) obtain m ms where M: "M = m # ms" by (cases M) auto
  show ?thesis
  proof (cases "ms = []")
    case True
    then show ?thesis using assms M by auto
  next
    case False
    have ne: "addr m \<noteq> addr (last ms)"
      using assms(3) M False by (metis distinct.simps(2) imageI last_in_set list.map(2) set_map)
    have l: "last_ref ms Null = Ref (addr (last ms))" "first_ref ms n = first_ref ms Null"
      "init (first_ref ms Null) = Inr (first_ref ms Null)"
      using False by (simp_all add: last_ref_def first_ref_def split: list.split)
    have "dls (cells h) (Ref (addr m)) ms n" "distinct (addr m # map addr ms)"
      "cells h (addr m) \<noteq> None" "length ms \<le> fuel"
      using assms M by auto
    from free_loop_list [OF this(1) False this(2,3,4)] obtain h' where h':
      "bindF (free_loop h fuel (first_ref ms Null) (Ref (addr (last ms)))) (\<lambda>h.
           bindF (get_prev h (Ref (addr (last ms)))) (\<lambda>p.
           bindF (free_segment h p) (\<lambda>h. free_segment h (Ref (addr (last ms)))))) = Inr h'"
      "\<forall>a. cells h' a = (if a = addr m \<or> a \<in> addr ` set ms then None else cells h a)"
      "brk h' = brk h" "fresh h' = fresh h"
      unfolding l by blast
    have "get_next h (Ref (addr m)) = Inr (first_ref ms Null)"
      using assms(1) M l by (simp add: get_next_def)
    then show ?thesis using M False ne h' by (auto simp del: bindF_eq_Inr)
  qed
qed

lemma insert_Un_diff:
  "A \<inter> B = {} \<Longrightarrow> B \<inter> C = {} \<Longrightarrow> a \<notin> B \<Longrightarrow> insert a (A \<union> (B \<union> C)) - B = insert a (A \<union> C)"
  by blast

lemma segment_merge_overlap:
  assumes ok: "heap_ok h (L @ M @ R)" and ne: "M \<noteq> []"
    and sl: "scan_left h (Suc (brk h)) (first_ref (L @ M @ R) Null) s = Inr (first_ref M Null)"
    and sr: "scan_right h (Suc (brk h)) (last_ref (L @ M @ R) Null) e = Inr (last_ref M Null)"
  shows "\<exists>h'. segment_merge h (first_ref (L @ M @ R) Null) (last_ref (L @ M @ R) Null) s e = Inr (Ref (brk h), h')
    \<and> heap_ok h' (L @ merged (brk h) s e M # R) \<and> brk h' = Suc (brk h) \<and> fresh h' = fresh h"
proof -
  let ?a = "brk h" and ?mn = "min (lo (hd M)) s" and ?mx = "max (hi (last M)) e"
  let ?l = "addr (hd M)" and ?r = "addr (last M)"
  have M_refs: "first_ref M p = Ref ?l" "last_ref M p = Ref ?r" for p
    using ne by (simp_all add: first_ref_def last_ref_def split: list.split)
  have d: "dls (cells h) Null L (Ref ?l)" "dls (cells h) (last_ref L Null) M (first_ref R Null)"
      "dls (cells h) (Ref ?r) R Null"
    and dist: "distinct (map addr (L @ M @ R))"
    and lt: "addr ` set (L @ M @ R) \<subseteq> {..<?a}" and dom: "dom (cells h) = addr ` set (L @ M @ R)"
    and fr: "prevp (fresh h) = Null" "nextp (fresh h) = Null"
    using ok by (simp_all add: heap_ok_def M_refs)
  have mem: "?l \<in> addr ` set M" "?r \<in> addr ` set M" using ne by auto
  have new: "?a \<notin> addr ` set L" "?a \<notin> addr ` set M" "?a \<notin> addr ` set R" "?a \<noteq> ?l" "?a \<noteq> ?r"
    using lt mem by auto
  have dis: "distinct (map addr L)" "distinct (map addr M)" "distinct (map addr R)"
      "addr ` set L \<inter> addr ` set M = {}" "addr ` set L \<inter> addr ` set R = {}" "addr ` set M \<inter> addr ` set R = {}"
    using dist by auto
  have notin: "?l \<notin> addr ` set R" "?r \<notin> addr ` set R" "?l \<notin> addr ` set L" "?r \<notin> addr ` set L"
    using dis mem by blast+
  obtain fs fe where fresh: "fresh h = seg_node fs fe Null Null"
    using fr by (cases "fresh h") auto
  have fl: "cells h ?l = Some (seg_node (lo (hd M)) (hi (hd M)) (last_ref L Null) (first_ref (tl M) (first_ref R Null)))"
    and lr: "cells h ?r = Some (seg_node (lo (last M)) (hi (last M)) (last_ref (butlast M) (last_ref L Null)) (first_ref R Null))"
    using dls_first [OF d(2) ne] dls_last [OF d(2) ne] by auto
  have nl: "first_ref R Null \<noteq> Ref ?l" 
  proof
    assume "first_ref R Null = Ref ?l"
    then have "?l \<in> addr ` set R" by (cases R) simp_all
    with dis(6) mem(1) show False by blast
  qed
  let ?h2 = "h\<lparr>cells := (cells h)(?a \<mapsto> seg_node ?mn ?mx Null (first_ref R Null)), brk := Suc ?a\<rparr>"
  have "dls (cells ?h2) (Ref ?r) R Null" using d(3) new by simp
  from relink_first [OF this dis(3), of "Ref ?a"] obtain h3 where
    e3: "(if first_ref R Null \<noteq> Null then set_prev ?h2 (first_ref R Null) (Ref ?a) else Inr ?h2) = Inr h3"
    and h3: "dls (cells h3) (Ref ?a) R Null" "\<forall>x. x \<notin> addr ` set R \<longrightarrow> cells h3 x = cells ?h2 x"
      "dom (cells h3) = dom (cells ?h2)" "brk h3 = Suc ?a" "fresh h3 = fresh h" by auto
  let ?h4 = "h3\<lparr>cells := (cells h3)(?a \<mapsto> seg_node ?mn ?mx (last_ref L Null) (first_ref R Null))\<rparr>"
  have c3: "cells h3 ?a = Some (seg_node ?mn ?mx Null (first_ref R Null))" "cells h3 ?l = cells h ?l"
    using h3(2) new notin by simp_all
  have "dls (cells h3) Null L (Ref ?l)"
  proof (rule dls_cong [OF _ d(1)])
    fix x assume x: "x \<in> addr ` set L"
    then have "x \<notin> addr ` set R" "x \<noteq> ?a" using dis(5) new(1) by blast+
    then show "cells h3 x = cells h x" using h3(2) by simp
  qed
  then have "dls (cells ?h4) Null L (Ref ?l)" using new by simp
  from relink_last [OF this dis(1), of "Ref ?a"] obtain h5 where
    e5: "(if last_ref L Null \<noteq> Null then set_next ?h4 (last_ref L Null) (Ref ?a) else Inr ?h4) = Inr h5"
    and h5: "dls (cells h5) Null L (Ref ?a)" "\<forall>x. x \<notin> addr ` set L \<longrightarrow> cells h5 x = cells ?h4 x"
      "dom (cells h5) = dom (cells ?h4)" "brk h5 = Suc ?a" "fresh h5 = fresh h" using h3 by auto
  have m5: "dls (cells h5) (last_ref L Null) M (first_ref R Null)"
  proof (rule dls_cong [OF _ d(2)])
    fix x assume x: "x \<in> addr ` set M"
    then have "x \<notin> addr ` set R" "x \<notin> addr ` set L" "x \<noteq> ?a" using dis(4,6) new(2) by blast+
    then show "cells h5 x = cells h x" using h3(2) h5(2) by simp
  qed
  have len: "length M \<le> Suc (Suc ?a)" using heap_ok_length [OF ok] by simp
  from free_merged [OF m5 ne dis(2) len] obtain h6 where
    e6: "(if Ref ?l = Ref ?r then free_segment h5 (Ref ?l)
           else bindF (get_next h5 (Ref ?l)) (\<lambda>left_end.
                bindF (free_loop h5 (Suc (Suc ?a)) left_end (Ref ?r)) (\<lambda>h.
                bindF (get_prev h (Ref ?r)) (\<lambda>p.
                bindF (free_segment h p) (\<lambda>h. free_segment h (Ref ?r)))))) = Inr h6"
    and h6: "\<forall>x. cells h6 x = (if x \<in> addr ` set M then None else cells h5 x)"
      "brk h6 = Suc ?a" "fresh h6 = fresh h" using h5 by auto
  let ?h0 = "h\<lparr>cells := (cells h)(?a \<mapsto> fresh h), brk := Suc ?a\<rparr>"
  let ?h1 = "h\<lparr>cells := (cells h)(?a \<mapsto> seg_node ?mn ?mx Null Null), brk := Suc ?a\<rparr>"
  have steps: "malloc_segment h = (?a, ?h0)" "get_next ?h0 (Ref ?r) = Inr (first_ref R Null)"
      "deref ?h0 (Ref ?l) = Inr (seg_node (lo (hd M)) (hi (hd M)) (last_ref L Null) (first_ref (tl M) (first_ref R Null)))"
      "deref ?h0 (Ref ?r) = Inr (seg_node (lo (last M)) (hi (last M)) (last_ref (butlast M) (last_ref L Null)) (first_ref R Null))"
      "set_range ?h0 (Ref ?a) ?mn ?mx = Inr ?h1" "get_next ?h1 (Ref ?r) = Inr (first_ref R Null)"
      "set_next ?h1 (Ref ?a) (first_ref R Null) = Inr ?h2"
      "get_prev h3 (Ref ?l) = Inr (last_ref L Null)"
      "set_prev h3 (Ref ?a) (last_ref L Null) = Inr ?h4"
    using fl lr new fresh c3 by (simp_all add: malloc_segment_def seg_exec)
  have sm: "segment_merge h (first_ref (L @ M @ R) Null) (last_ref (L @ M @ R) Null) s e = Inr (Ref ?a, h6)"
    unfolding segment_merge_def sl sr bindF.simps M_refs Let_def steps(1) prod.case
    by (simp only: steps nl ptr.distinct if_False bindF.simps e3 e5 e6 h5(4) min_max_u32
        segment_t.simps simp_thms)
  have "heap_ok h6 (L @ (?a, ?mn, ?mx) # R)"
  proof (rule heap_ok_insert)
    show "dls (cells h6) Null L (Ref ?a)"
    proof (rule dls_cong [OF _ h5(1)])
      fix x assume x: "x \<in> addr ` set L"
      then have "x \<notin> addr ` set M" using dis(4) by blast
      then show "cells h6 x = cells h5 x" using h6(1) by simp
    qed
    show "dls (cells h6) (Ref ?a) R Null"
    proof (rule dls_cong [OF _ h3(1)])
      fix x assume x: "x \<in> addr ` set R"
      then have "x \<notin> addr ` set M" "x \<notin> addr ` set L" "x \<noteq> ?a" using dis(5,6) new(3) by blast+
      then show "cells h6 x = cells h3 x" using h6(1) h5(2) by simp
    qed
    show "cells h6 ?a = Some (seg_node ?mn ?mx (last_ref L Null) (first_ref R Null))"
      using h6(1) h5(2) new by simp
    have "dom (cells h5) = insert ?a (addr ` set (L @ M @ R))" using h5(3) h3(3) dom by simp
    moreover have "dom (cells h6) = dom (cells h5) - addr ` set M" using h6(1) by (auto simp: dom_def)
    ultimately have "dom (cells h6) = insert ?a (addr ` set (L @ M @ R)) - addr ` set M" by simp
    also have "\<dots> = insert ?a (addr ` set L \<union> addr ` set R)"
      unfolding set_append image_Un by (rule insert_Un_diff [OF dis(4,6) new(2)])
    finally show "dom (cells h6) = insert ?a (addr ` set L \<union> addr ` set R)" .
    show "distinct (map addr (L @ R))" "addr ` set (L @ R) \<subseteq> {..<?a}"
      using dis lt by (simp_all add: image_Un)
  qed (use h6 fr in simp_all)
  then have "heap_ok h6 (L @ merged ?a s e M # R)" using ne by (simp add: merged_def)
  with sm h6 show ?thesis by auto
qed

lemma segment_merge_list:
  assumes ok: "heap_ok h xs" and ne: "xs \<noteq> []" and st: "segs_sorted xs" and se: "s \<le> e"
  shows "\<exists>h'. segment_merge h (first_ref xs Null) (last_ref xs Null) s e = Inr (Ref (brk h), h')
    \<and> heap_ok h' (merge_list xs (brk h) s e) \<and> brk h' = Suc (brk h) \<and> fresh h' = fresh h"
proof -
  let ?L = "seg_left xs s" and ?M = "seg_mid xs s e" and ?R = "seg_right xs s e"
  have xs: "xs = ?L @ ?M @ ?R" by (rule seg_split)
  note p = seg_parts [OF st se]
  have d: "dls (cells h) Null (?L @ ?M @ ?R) Null" using ok xs by (simp add: heap_ok_def)
  have "length (?L @ ?M @ ?R) \<le> brk h" using heap_ok_length [OF ok] by (simp flip: xs)
  then have len: "length ?L < Suc (brk h)" "length ?R < Suc (brk h)" by simp_all
  have hdM: "?M @ ?R = [] \<or> s \<le> hi (hd (?M @ ?R))"
    using p(3,5) hd_in_set [of "?M @ ?R"] by (metis UnE set_append)
  have sl: "scan_left h (Suc (brk h)) (first_ref xs Null) s = Inr (first_ref (?M @ ?R) Null)"
    using scan_left_list [OF d p(1) hdM len(1)] unfolding xs [symmetric] .
  have lsM: "?L @ ?M = [] \<or> lo (last (?L @ ?M)) \<le> e"
    using p(3,4) last_in_set [of "?L @ ?M"] by (metis UnE set_append)
  have sr: "scan_right h (Suc (brk h)) (last_ref xs Null) e = Inr (last_ref (?L @ ?M) Null)"
    using scan_right_list [OF _ p(2) lsM len(2)] d unfolding append_assoc xs [symmetric] .
  show ?thesis
  proof (cases "?M = []")
    case True
    then have "xs = ?L @ ?R" using xs by simp
    then show ?thesis
      using segment_merge_gap [of h ?L ?R s e] ok ne sl sr True by (simp add: merge_list_def merged_def)
  next
    case False
    have "first_ref (?M @ ?R) Null = first_ref ?M Null" "last_ref (?L @ ?M) Null = last_ref ?M Null"
      using False by (simp_all add: first_ref_def last_ref_def split: list.splits)
    then show ?thesis
      using segment_merge_overlap [of h ?L ?M ?R s e] ok sl sr False xs by (simp add: merge_list_def)
  qed
qed

section \<open>Detaching the first segment, and cleaning\<close>

text \<open>Detaching and freeing the first segment, as \<open>recv_buffer_receive\<close> does.\<close>

lemma heap_ok_first:
  assumes "heap_ok h (x # R)"
  shows "get_prev h (Ref (addr x)) = Inr Null" "get_next h (Ref (addr x)) = Inr (first_ref R Null)"
    "deref h (Ref (addr x)) = Inr (seg_node (lo x) (hi x) Null (first_ref R Null))"
  using assms by (simp_all add: heap_ok_def get_prev_def get_next_def)

lemma detach_first:
  assumes ok: "heap_ok h (x # R)"
  shows "\<exists>h'. bindF (segment_disconnect h (Ref (addr x))) (\<lambda>h. free_segment h (Ref (addr x))) = Inr h'
    \<and> heap_ok h' R \<and> brk h' = brk h \<and> fresh h' = fresh h"
proof -
  have d: "dls (cells h) (Ref (addr x)) R Null" "distinct (map addr R)" "addr x \<notin> addr ` set R"
    and dom: "dom (cells h) = insert (addr x) (addr ` set R)"
    and rest: "addr ` set R \<subseteq> {..<brk h}" "prevp (fresh h) = Null" "nextp (fresh h) = Null"
    using ok by (auto simp: heap_ok_def)
  from relink_first [OF d(1,2), of Null] obtain h1 where
    e1: "(if first_ref R Null \<noteq> Null then set_prev h (first_ref R Null) Null else Inr h) = Inr h1"
    and h1: "dls (cells h1) Null R Null" "dom (cells h1) = dom (cells h)"
      "brk h1 = brk h" "fresh h1 = fresh h" by auto
  have "segment_disconnect h (Ref (addr x)) = Inr h1"
    unfolding segment_disconnect_def
    by (simp only: heap_ok_first [OF ok] bindF.simps simp_thms if_False e1)
  moreover obtain s where "cells h1 (addr x) = Some s" using h1(2) dom by blast
  moreover have "heap_ok (h1\<lparr>cells := (cells h1)(addr x := None)\<rparr>) R"
    using h1 d dom rest by (auto simp: heap_ok_def)
  ultimately show ?thesis using h1 by simp
qed

lemma clean_loop_list:
  assumes "dls (cells h) p xs n" and "xs \<noteq> []" and "distinct (map addr xs)" and "length xs \<le> fuel"
  shows "\<exists>h'. clean_loop h fuel (first_ref xs Null) (last_ref xs Null) = Inr h'
    \<and> (\<forall>a. cells h' a = (if a \<in> addr ` set xs then None else cells h a))"
  using assms
proof (induction xs arbitrary: h p fuel)
  case Nil
  then show ?case by simp
next
  case (Cons x xs)
  from Cons.prems obtain f where f: "fuel = Suc f" "length xs \<le> f" by (cases fuel) auto
  show ?case
  proof (cases xs)
    case Nil
    let ?h = "h\<lparr>cells := (cells h)(addr x := None)\<rparr>"
    have "clean_loop h fuel (Ref (addr x)) (Ref (addr x)) = Inr ?h"
      unfolding f(1) by (subst clean_loop.simps) (use Cons.prems(1) in simp)
    then show ?thesis using Nil by (intro exI [of _ ?h]) (simp del: clean_loop.simps)
  next
    case (Cons y ys)
    let ?h = "h\<lparr>cells := (cells h)(addr x := None)\<rparr>"
    have "addr x \<notin> addr ` set xs" using Cons.prems(3) by simp
    moreover have "addr (last xs) \<in> addr ` set xs" using Cons by simp
    ultimately have ne: "addr x \<noteq> addr (last xs)" by metis
    have "dls (cells ?h) (Ref (addr x)) xs n" "distinct (map addr xs)" using Cons.prems by auto
    from Cons.IH [OF this(1) _ this(2) f(2)] Cons obtain h' where
      "clean_loop ?h f (first_ref xs Null) (last_ref xs Null) = Inr h'"
      "\<forall>a. cells h' a = (if a \<in> addr ` set xs then None else cells ?h a)"
      by auto
    moreover have "clean_loop h fuel (first_ref (x # xs) Null) (last_ref (x # xs) Null)
        = clean_loop ?h f (first_ref xs Null) (last_ref xs Null)"
      unfolding f(1) by (subst clean_loop.simps)
        (use Cons.prems(1) Cons ne in \<open>simp add: get_next_def get_prev_def last_ref_def del: clean_loop.simps\<close>)
    ultimately show ?thesis by (intro exI [of _ h']) (simp del: clean_loop.simps)
  qed
qed

text \<open>Cleaning frees every segment exactly once.\<close>

lemma segment_clean_list:
  assumes ok: "heap_ok h xs"
  shows "\<exists>h'. segment_clean h (first_ref xs Null) (last_ref xs Null) = Inr h' \<and> cells h' = Map.empty"
proof (cases "xs = []")
  case True
  then show ?thesis using ok by (auto simp: segment_clean_def heap_ok_def)
next
  case False
  have d: "dls (cells h) Null xs Null" "distinct (map addr xs)" "dom (cells h) = addr ` set xs"
    using ok by (auto simp: heap_ok_def)
  from clean_loop_list [OF d(1) False d(2), of "Suc (brk h)"] heap_ok_length [OF ok]
  obtain h' where h': "clean_loop h (Suc (brk h)) (first_ref xs Null) (last_ref xs Null) = Inr h'"
    "\<forall>a. cells h' a = (if a \<in> addr ` set xs then None else cells h a)" by auto
  have "cells h' = Map.empty" using h'(2) d(3) by fastforce
  moreover have "segment_clean h (first_ref xs Null) (last_ref xs Null)
      = clean_loop h (Suc (brk h)) (first_ref xs Null) (last_ref xs Null)"
    using False by (cases xs rule: rev_cases) (auto simp: segment_clean_def first_ref_def last_ref_def split: list.splits)
  ultimately show ?thesis using h'(1) by simp
qed

section \<open>The sequence numbers a list of segments covers\<close>

definition seg_covers :: "node list \<Rightarrow> u32 \<Rightarrow> bool" where
  "seg_covers xs q \<longleftrightarrow> (\<exists>x \<in> set xs. lo x \<le> q \<and> q \<le> hi x)"

lemma seg_covers_simps [simp]: "seg_covers [] q \<longleftrightarrow> False"
  "seg_covers (x # xs) q \<longleftrightarrow> lo x \<le> q \<and> q \<le> hi x \<or> seg_covers xs q"
  "seg_covers (xs @ ys) q \<longleftrightarrow> seg_covers xs q \<or> seg_covers ys q"
  by (auto simp: seg_covers_def)

lemma segs_sorted_hull:
  assumes "segs_sorted M" and "x \<in> set M"
  shows "lo (hd M) \<le> lo x" "hi x \<le> hi (last M)"
proof -
  obtain A B where M: "M = A @ x # B" using assms(2) by (auto simp: in_set_conv_decomp)
  have st: "sorted_wrt (\<lambda>x y. hi x < lo y) (A @ x # B)" "\<forall>x \<in> set (A @ x # B). lo x \<le> hi x"
    using assms(1) M by (auto simp: segs_sorted_def)
  show "lo (hd M) \<le> lo x"
  proof (cases A)
    case (Cons a A')
    then have "hi a < lo x" "lo a \<le> hi a" using st by auto
    then show ?thesis using M Cons by simp
  qed (use M in simp)
  show "hi x \<le> hi (last M)"
  proof (cases B rule: rev_cases)
    case (snoc B' b)
    then have "hi x < lo b" "lo b \<le> hi b" using st by (auto simp: sorted_wrt_append)
    then show ?thesis using M snoc by simp
  qed (use M in simp)
qed

lemma merge_list_covers:
  assumes "segs_sorted xs" and "s \<le> e"
  shows "seg_covers (merge_list xs a s e) q \<longleftrightarrow> seg_covers xs q \<or> s \<le> q \<and> q \<le> e"
proof -
  let ?L = "seg_left xs s" and ?M = "seg_mid xs s e" and ?R = "seg_right xs s e"
  note p = seg_parts [OF assms]
  have "segs_sorted (?L @ ?M @ ?R)" using assms(1) by (simp flip: seg_split)
  then have stM: "segs_sorted ?M" by (auto simp: segs_sorted_def sorted_wrt_append)
  have "seg_covers xs q \<longleftrightarrow> seg_covers (?L @ ?M @ ?R) q" by (simp flip: seg_split)
  moreover have "lo (merged a s e ?M) \<le> q \<and> q \<le> hi (merged a s e ?M) \<longleftrightarrow> seg_covers ?M q \<or> s \<le> q \<and> q \<le> e"
  proof (cases "?M = []")
    case False
    have hd: "s \<le> hi (hd ?M)" and ls: "lo (last ?M) \<le> e" using p(3) False by simp_all
    show ?thesis
    proof
      assume a: "lo (merged a s e ?M) \<le> q \<and> q \<le> hi (merged a s e ?M)"
      consider "s \<le> q \<and> q \<le> e" | "q < s" | "e < q" by fastforce
      then show "seg_covers ?M q \<or> s \<le> q \<and> q \<le> e"
      proof cases
        case 2
        then have "lo (hd ?M) \<le> q" "q \<le> hi (hd ?M)"
          using a hd False by (auto simp: merged_def min_le_iff_disj)
        then show ?thesis using False by (auto simp: seg_covers_def intro!: bexI [of _ "hd ?M"])
      next
        case 3
        then have "lo (last ?M) \<le> q" "q \<le> hi (last ?M)"
          using a ls False by (auto simp: merged_def le_max_iff_disj)
        then show ?thesis using False by (auto simp: seg_covers_def intro!: bexI [of _ "last ?M"])
      qed simp
    next
      assume "seg_covers ?M q \<or> s \<le> q \<and> q \<le> e"
      then show "lo (merged a s e ?M) \<le> q \<and> q \<le> hi (merged a s e ?M)"
        using False segs_sorted_hull [OF stM]
        by (auto simp: seg_covers_def merged_def min_le_iff_disj le_max_iff_disj intro: order.trans)
    qed
  qed (simp add: merged_def)
  ultimately show ?thesis by (simp add: merge_list_def) blast
qed

section \<open>Merging and cleaning are correct\<close>

text \<open>
  A heap with the segments 10-14 and 30-39, into which 12-31 is merged.
\<close>

definition two_segments :: seg_heap where
  "two_segments = \<lparr>cells = [0 \<mapsto> seg_node 10 14 Null (Ref 1), 1 \<mapsto> seg_node 30 39 (Ref 0) Null],
     brk = 2, fresh = seg_node 0 0 Null Null\<rparr>"

text \<open>
  C24: On a heap holding sorted disjoint segments, \<open>segment_merge\<close> of the interval from \<open>s\<close> to
  \<open>e\<close> runs without a fault and returns the freshly allocated node, provided the
  allocator hands out zeroed memory; afterwards the heap holds again a well-formed doubly
  linked list of sorted disjoint segments, nothing else (no leak, no dangling link), and
  the sequence numbers it covers are the old ones and those of the interval.
\<close>

theorem segment_merge_correct:
  assumes "heap_ok h xs" and "xs \<noteq> []" and "segs_sorted xs" and "s \<le> e"
  shows "\<exists>h' ys. segment_merge h (first_ref xs Null) (last_ref xs Null) s e = Inr (Ref (brk h), h')
    \<and> heap_ok h' ys \<and> segs_sorted ys \<and> brk h \<in> addr ` set ys
    \<and> (\<forall>q. seg_covers ys q \<longleftrightarrow> seg_covers xs q \<or> s \<le> q \<and> q \<le> e)"
proof -
  have "addr (merged (brk h) s e M) = brk h" for M by (simp add: merged_def)
  then have "brk h \<in> addr ` set (merge_list xs (brk h) s e)"
    by (simp add: merge_list_def)
  then show ?thesis
    using segment_merge_list [OF assms] merge_list_sorted [OF assms(3,4)] merge_list_covers [OF assms(3,4)]
    by blast
qed

theorem segment_merge_correct_witness:
  "\<exists>h' ys. segment_merge two_segments (Ref 0) (Ref 1) 12 31 = Inr (Ref 2, h')
    \<and> heap_ok h' ys \<and> segs_sorted ys \<and> 2 \<in> addr ` set ys \<and> seg_covers ys 25"
proof -
  let ?xs = "[(0, 10, 14), (1, 30, 39)] :: node list"
  have "heap_ok two_segments ?xs" "segs_sorted ?xs" and b: "brk two_segments = 2"
    and "?xs \<noteq> []" "(12 :: u32) \<le> 31"
    by (auto simp: heap_ok_def two_segments_def segs_sorted_def)
  from segment_merge_correct [OF this(1,4,2,5)] obtain h' ys where
    "segment_merge two_segments (first_ref ?xs Null) (last_ref ?xs Null) 12 31 = Inr (Ref 2, h')"
    "heap_ok h' ys" "segs_sorted ys" "2 \<in> addr ` set ys"
    "\<forall>q. seg_covers ys q \<longleftrightarrow> seg_covers ?xs q \<or> 12 \<le> q \<and> q \<le> 31"
    unfolding b by blast
  then show ?thesis by (intro exI [of _ h'] exI [of _ ys]) simp
qed

text \<open>
  \<open>segment_clean\<close>, given the two ends of the list, frees every segment exactly once and
  returns.
\<close>

lemma segment_clean_correct:
  assumes "heap_ok h xs"
  shows "\<exists>h'. segment_clean h (first_ref xs Null) (last_ref xs Null) = Inr h' \<and> cells h' = Map.empty"
  using segment_clean_list [OF assms] .

lemma segment_clean_correct_witness:
  "\<exists>h'. segment_clean two_segments (Ref 0) (Ref 1) = Inr h' \<and> cells h' = Map.empty"
proof -
  have "heap_ok two_segments [(0, 10, 14), (1, 30, 39)]"
    by (auto simp: heap_ok_def two_segments_def)
  from segment_clean_correct [OF this] show ?thesis by simp
qed

end
