(* ===== verification/Recv_Buffer.thy ===== *)
theory Recv_Buffer
  imports Ring Segment_Lists
begin

text \<open>
  \<open>inc/recv_buffer.h\<close> and \<open>src/recv_buffer.c\<close>: the ring that reassembles the peer's byte
  stream. The struct is a record; the segments of out-of-order data live on the explicit
  heap of \<open>Segments\<close>, so the operations that touch them take and return that heap. The
  specification is the set of sequence numbers whose bytes the buffer holds, and those
  bytes; \<open>rb_ok\<close> is the invariant, and \<open>recv_buffer_receive_ok\<close> and \<open>recv_buffer_read_ok\<close>
  show what the two operations do to that specification.
\<close>

section \<open>The struct and its operations\<close>

record recv_buffer_t =
  r_capacity :: u32
  last_byte_read_seqnum :: u32
  last_byte_read_index :: u32
  next_byte_expected_index :: u32
  r_buffer :: "u8 list"
  r_start :: ptr
  r_end :: ptr

definition seqnum_to_index_recv :: "recv_buffer_t \<Rightarrow> u32 \<Rightarrow> u32 res" where
  "seqnum_to_index_recv rb seqnum =
     bindF (assertF (seqnum \<ge> last_byte_read_seqnum rb)) (\<lambda>_.
       umod (last_byte_read_index rb + (seqnum - last_byte_read_seqnum rb)) (r_capacity rb))"

definition get_next_byte_expected_seqnum :: "recv_buffer_t \<Rightarrow> u32" where
  "get_next_byte_expected_seqnum rb =
     (if next_byte_expected_index rb > last_byte_read_index rb
      then next_byte_expected_index rb - last_byte_read_index rb + last_byte_read_seqnum rb
      else r_capacity rb - 1 - last_byte_read_index rb + (next_byte_expected_index rb + 1)
             + last_byte_read_seqnum rb)"

text \<open>The two copies; the result is the block written to.\<close>

definition safe_memcpy_to_recvbuf ::
  "recv_buffer_t \<Rightarrow> u32 \<Rightarrow> u32 \<Rightarrow> u8 list \<Rightarrow> u8 list res"
where
  "safe_memcpy_to_recvbuf rb start_index len data =
     (if start_index + len - 1 \<le> r_capacity rb - 1
      then memcpy (r_buffer rb) (unat start_index) data 0 (unat len)
      else let tail_len = r_capacity rb - start_index in
        bindF (memcpy (r_buffer rb) (unat start_index) data 0 (unat tail_len)) (\<lambda>b.
          memcpy b 0 data (unat tail_len) (unat (len - tail_len))))"

definition safe_memcpy_from_recvbuf :: "recv_buffer_t \<Rightarrow> u32 \<Rightarrow> u8 list \<Rightarrow> u8 list res" where
  "safe_memcpy_from_recvbuf rb len data =
     (let end_seq = last_byte_read_seqnum rb + len in
      bindF (seqnum_to_index_recv rb end_seq) (\<lambda>end_index.
      if end_index > last_byte_read_index rb
      then memcpy data 0 (r_buffer rb) (unat (last_byte_read_index rb + 1)) (unat len)
      else let tail_len = r_capacity rb - 1 - last_byte_read_index rb in
        bindF (memcpy data 0 (r_buffer rb) (unat (last_byte_read_index rb + 1)) (unat tail_len)) (\<lambda>d.
          memcpy d (unat tail_len) (r_buffer rb) 0 (unat (len - tail_len)))))"

text \<open>
  \<open>recv_buffer_create\<close> leaves the two indices as the allocation \<open>fresh\<close> held them.
\<close>

definition recv_buffer_create :: "(nat \<Rightarrow> u8) \<Rightarrow> recv_buffer_t \<Rightarrow> u32 \<Rightarrow> recv_buffer_t" where
  "recv_buffer_create junk fresh_rb capacity =
     fresh_rb\<lparr>r_capacity := capacity, last_byte_read_seqnum := 0,
       r_buffer := malloc junk (unat capacity), r_start := Null, r_end := Null\<rparr>"

definition recv_buffer_initialize :: "recv_buffer_t \<Rightarrow> u32 \<Rightarrow> recv_buffer_t res" where
  "recv_buffer_initialize rb other_isn =
     bindF (assertF (last_byte_read_seqnum rb = 0)) (\<lambda>_.
       Inr (rb\<lparr>last_byte_read_seqnum := other_isn, last_byte_read_index := 0,
               next_byte_expected_index := 1\<rparr>))"

definition recv_buffer_max_read :: "recv_buffer_t \<Rightarrow> u32" where
  "recv_buffer_max_read rb = get_next_byte_expected_seqnum rb - last_byte_read_seqnum rb - 1"

definition recv_buffer_max_receive :: "recv_buffer_t \<Rightarrow> u32" where
  "recv_buffer_max_receive rb =
     (let buf_size = get_next_byte_expected_seqnum rb - last_byte_read_seqnum rb
      in r_capacity rb - buf_size)"

definition recv_buffer_read ::
  "recv_buffer_t \<Rightarrow> u8 list \<Rightarrow> u32 \<Rightarrow> (recv_buffer_t \<times> u8 list) res"
where
  "recv_buffer_read rb buf len =
     bindF (assertF (len \<le> recv_buffer_max_read rb)) (\<lambda>_.
     if len = 0 then Inr (rb, buf)
     else bindF (safe_memcpy_from_recvbuf rb len buf) (\<lambda>d.
          bindF (umod (last_byte_read_index rb + len) (r_capacity rb)) (\<lambda>i.
            Inr (rb\<lparr>last_byte_read_seqnum := last_byte_read_seqnum rb + len,
                    last_byte_read_index := i\<rparr>, d))))"

definition recv_buffer_can_receive :: "recv_buffer_t \<Rightarrow> u32 \<Rightarrow> u32 \<Rightarrow> u8" where
  "recv_buffer_can_receive rb seqnum len =
     (if seqnum \<le> last_byte_read_seqnum rb then 2
      else let last_seq = seqnum + len - 1 in
        if last_seq < get_next_byte_expected_seqnum rb then 3
        else if last_seq - last_byte_read_seqnum rb \<ge> r_capacity rb then 1 else 0)"

text \<open>
  \<open>recv_buffer_receive\<close>, whose last case is in two parts: what it does with the segment that
  \<open>segment_merge\<close> returned, and the whole.
\<close>

definition absorb_merged ::
  "recv_buffer_t \<Rightarrow> seg_heap \<Rightarrow> ptr \<Rightarrow> u32 \<Rightarrow> (recv_buffer_t \<times> seg_heap) res"
where
  "absorb_merged rb h seg next_expected_seq =
     bindF (deref h seg) (\<lambda>sg.
     if start_seqnum_inclusive sg \<le> next_expected_seq
     then
       bindF (seqnum_to_index_recv rb (end_seqnum_inclusive sg + 1)) (\<lambda>i.
       let rb = rb\<lparr>next_byte_expected_index := i\<rparr> in
       bindF (get_prev h seg) (\<lambda>p.
       bindF (if p = Null then bindF (get_next h seg) (\<lambda>n. Inr (rb\<lparr>r_start := n\<rparr>)) else Inr rb) (\<lambda>rb.
       bindF (get_next h seg) (\<lambda>n.
       bindF (if n = Null then bindF (get_prev h seg) (\<lambda>p. Inr (rb\<lparr>r_end := p\<rparr>)) else Inr rb) (\<lambda>rb.
       bindF (segment_disconnect h seg) (\<lambda>h.
       bindF (free_segment h seg) (\<lambda>h. Inr (rb, h))))))))
     else
       bindF (get_prev h seg) (\<lambda>p.
       let rb = (if p = Null then rb\<lparr>r_start := seg\<rparr> else rb) in
       bindF (get_next h seg) (\<lambda>n.
         Inr (if n = Null then rb\<lparr>r_end := seg\<rparr> else rb, h))))"

definition recv_buffer_receive ::
  "recv_buffer_t \<Rightarrow> seg_heap \<Rightarrow> u32 \<Rightarrow> u32 \<Rightarrow> u8 list \<Rightarrow> (recv_buffer_t \<times> seg_heap) res"
where
  "recv_buffer_receive rb h seqnum len data =
     bindF (assertF (recv_buffer_can_receive rb seqnum len = 0)) (\<lambda>_.
     let next_expected_seq = get_next_byte_expected_seqnum rb in
     if seqnum \<le> next_expected_seq \<and> r_start rb = Null
     then
       bindF (seqnum_to_index_recv rb seqnum) (\<lambda>start_index.
       bindF (safe_memcpy_to_recvbuf rb start_index len data) (\<lambda>b.
       bindF (seqnum_to_index_recv rb (seqnum + len)) (\<lambda>i.
         Inr (rb\<lparr>r_buffer := b, next_byte_expected_index := i\<rparr>, h))))
     else if r_start rb = Null
     then
       bindF (seqnum_to_index_recv rb seqnum) (\<lambda>start_index.
       bindF (safe_memcpy_to_recvbuf rb start_index len data) (\<lambda>b.
       let (a, h) = malloc_segment h in
       bindF (set_range h (Ref a) seqnum (seqnum + len - 1)) (\<lambda>h.
         Inr (rb\<lparr>r_buffer := b, r_start := Ref a, r_end := Ref a\<rparr>, h))))
     else
       bindF (segment_merge h (r_start rb) (r_end rb) seqnum (seqnum + len - 1)) (\<lambda>(seg, h).
       bindF (absorb_merged rb h seg next_expected_seq) (\<lambda>(rb, h).
       bindF (seqnum_to_index_recv rb seqnum) (\<lambda>start_index.
       bindF (safe_memcpy_to_recvbuf rb start_index len data) (\<lambda>b.
         Inr (rb\<lparr>r_buffer := b\<rparr>, h))))))"

definition recv_buffer_clean :: "recv_buffer_t \<Rightarrow> seg_heap \<Rightarrow> seg_heap res" where
  "recv_buffer_clean rb h = segment_clean h (r_start rb) (r_end rb)"

section \<open>Sequence numbers, slots and the invariant\<close>

text \<open>
  The fields as numbers. \<open>expected_seq\<close> is the next sequence number expected in order;
  \<open>rb_ok\<close> adds to the ring's well-formedness the list of segments on the heap: sorted,
  disjoint, all beyond the in-order data and inside the window.
\<close>

definition rcap :: "recv_buffer_t \<Rightarrow> nat" where "rcap rb = unat (r_capacity rb)"
definition read_idx :: "recv_buffer_t \<Rightarrow> nat" where "read_idx rb = unat (last_byte_read_index rb)"
definition read_seq :: "recv_buffer_t \<Rightarrow> nat" where "read_seq rb = unat (last_byte_read_seqnum rb)"
definition expected_dist :: "recv_buffer_t \<Rightarrow> nat" where
  "expected_dist rb = dist1 (rcap rb) (read_idx rb) (unat (next_byte_expected_index rb))"
definition expected_seq :: "recv_buffer_t \<Rightarrow> nat" where
  "expected_seq rb = read_seq rb + expected_dist rb"

lemmas rb_nat = rcap_def read_idx_def read_seq_def

definition rb_wf :: "recv_buffer_t \<Rightarrow> bool" where
  "rb_wf rb \<longleftrightarrow> 0 < rcap rb \<and> rcap rb \<le> 2 ^ 31 \<and> length (r_buffer rb) = rcap rb
     \<and> read_idx rb < rcap rb \<and> unat (next_byte_expected_index rb) < rcap rb
     \<and> expected_seq rb < 2 ^ 32"

definition rb_ok :: "recv_buffer_t \<Rightarrow> seg_heap \<Rightarrow> node list \<Rightarrow> bool" where
  "rb_ok rb h xs \<longleftrightarrow> rb_wf rb \<and> heap_ok h xs \<and> segs_sorted xs
     \<and> r_start rb = first_ref xs Null \<and> r_end rb = last_ref xs Null
     \<and> (\<forall>x \<in> set xs. expected_seq rb \<le> unat (lo x) \<and> unat (hi x) < read_seq rb + rcap rb
          \<and> unat (hi x) + 1 < 2 ^ 32)"

lemma rb_wfD:
  assumes "rb_wf rb"
  shows "0 < rcap rb" "rcap rb \<le> 2 ^ 31" "length (r_buffer rb) = rcap rb" "read_idx rb < rcap rb"
    "unat (next_byte_expected_index rb) < rcap rb" "expected_seq rb < 2 ^ 32"
    "r_capacity rb \<noteq> 0" "0 < expected_dist rb" "expected_dist rb \<le> rcap rb"
    "read_seq rb < expected_seq rb" "expected_seq rb \<le> read_seq rb + rcap rb"
  using assms dist1_le [of "read_idx rb" "rcap rb" "unat (next_byte_expected_index rb)"]
    dist1_pos [of "read_idx rb" "rcap rb" "unat (next_byte_expected_index rb)"]
  by (auto simp: rb_wf_def rcap_def expected_dist_def expected_seq_def)

lemma next_expected:
  assumes "rb_wf rb"
  shows "get_next_byte_expected_seqnum rb = of_nat (expected_seq rb)"
    "unat (get_next_byte_expected_seqnum rb) = expected_seq rb"
proof -
  show e: "get_next_byte_expected_seqnum rb = of_nat (expected_seq rb)"
    using rb_wfD(4,5) [OF assms]
    by (auto simp: get_next_byte_expected_seqnum_def expected_seq_def expected_dist_def rb_nat
      dist1_def word_nat)
  then show "unat (get_next_byte_expected_seqnum rb) = expected_seq rb"
    using rb_wfD(6) [OF assms] by (simp add: unat_of_nat32)
qed

lemma max_read:
  assumes "rb_wf rb"
  shows "unat (recv_buffer_max_read rb) = expected_seq rb - read_seq rb - 1"
proof -
  note d = rb_wfD [OF assms]
  have "unat (get_next_byte_expected_seqnum rb - last_byte_read_seqnum rb) = expected_seq rb - read_seq rb"
    using d(10) by (subst unat_sub32) (simp_all add: next_expected(2) [OF assms] read_seq_def)
  then show ?thesis
    using d(10) unfolding recv_buffer_max_read_def
    by (subst unat_sub32) simp_all
qed

lemma max_receive:
  assumes "rb_wf rb"
  shows "unat (recv_buffer_max_receive rb) = rcap rb - (expected_seq rb - read_seq rb)"
proof -
  note d = rb_wfD [OF assms]
  have "unat (get_next_byte_expected_seqnum rb - last_byte_read_seqnum rb) = expected_seq rb - read_seq rb"
    using d(10) by (subst unat_sub32) (simp_all add: next_expected(2) [OF assms] read_seq_def)
  then show ?thesis
    using d(11) unfolding recv_buffer_max_receive_def Let_def
    by (subst unat_sub32) (simp_all add: rcap_def)
qed

definition ring_slot :: "recv_buffer_t \<Rightarrow> nat \<Rightarrow> nat" where
  "ring_slot rb q = (read_idx rb + (q - read_seq rb)) mod rcap rb"

lemma ring_slot_less: "rb_wf rb \<Longrightarrow> ring_slot rb q < rcap rb"
  using rb_wfD(1) by (simp add: ring_slot_def)

lemma seq_index:
  assumes "rb_wf rb" and "read_seq rb \<le> unat q" and "unat q \<le> read_seq rb + rcap rb"
  shows "\<exists>i. seqnum_to_index_recv rb q = Inr i \<and> unat i = ring_slot rb (unat q)"
proof -
  note d = rb_wfD [OF assms(1)]
  have q: "unat (q - last_byte_read_seqnum rb) = unat q - read_seq rb"
    using assms(2) by (simp add: unat_sub32 read_seq_def)
  have "unat (last_byte_read_index rb + (q - last_byte_read_seqnum rb)) = read_idx rb + (unat q - read_seq rb)"
    using d(2,4) assms(3) by (subst unat_add32) (simp_all add: q read_idx_def)
  then show ?thesis
    using assms(2) d(7)
    by (simp add: seqnum_to_index_recv_def word_le_nat_alt read_seq_def unat_mod32 ring_slot_def rcap_def)
qed

lemma copy_to:
  assumes "rb_wf rb" and "unat start < rcap rb" and "len \<noteq> 0" and "unat len \<le> rcap rb"
    and "unat len \<le> length data"
  shows "safe_memcpy_to_recvbuf rb start len data =
    Inr (ring_put (r_buffer rb) (unat start) (take (unat len) data))"
proof -
  note d = rb_wfD [OF assms(1)]
  have len: "0 < unat len" using assms(3) by (simp add: unat_gt_0)
  have sum: "unat (start + len) = unat start + unat len"
    using assms(2,4) d(2) by (intro unat_add32) simp
  then have last: "unat (start + len - 1) = unat start + unat len - 1"
    using len by (subst unat_sub32) simp_all
  have cap: "unat (r_capacity rb - 1) = rcap rb - 1"
    using d(1) by (subst unat_sub32) (simp_all add: rcap_def)
  show ?thesis
  proof (cases "unat start + unat len \<le> rcap rb")
    case True
    then have "start + len - 1 \<le> r_capacity rb - 1"
      using len by (simp add: word_le_nat_alt last cap)
    then show ?thesis
      using memcpy_ring_put_one [of "unat start" "unat len" "r_buffer rb" data] True assms(5) d(3)
      by (simp add: safe_memcpy_to_recvbuf_def)
  next
    case False
    then have c: "\<not> start + len - 1 \<le> r_capacity rb - 1"
      using d(1) by (simp add: word_le_nat_alt last cap)
    have t: "unat (r_capacity rb - start) = rcap rb - unat start"
      using assms(2) by (subst unat_sub32) (simp_all add: rcap_def)
    then have "unat (len - (r_capacity rb - start)) = unat len - (rcap rb - unat start)"
      using False by (subst unat_sub32) simp_all
    with c t show ?thesis
      using memcpy_ring_put_two [of "unat start" "r_buffer rb" "unat len" data "rcap rb - unat start"]
        False assms d(3)
      by (simp add: safe_memcpy_to_recvbuf_def Let_def)
  qed
qed

definition byte_at :: "recv_buffer_t \<Rightarrow> nat \<Rightarrow> u8" where
  "byte_at rb q = r_buffer rb ! ring_slot rb q"

lemma byte_at_put:
  assumes wf: "rb_wf rb" and s: "read_seq rb < s" "s + length d \<le> read_seq rb + rcap rb"
    and q: "read_seq rb < q" "q < read_seq rb + rcap rb"
  shows "ring_put (r_buffer rb) (ring_slot rb s) d ! ring_slot rb q =
    (if s \<le> q \<and> q < s + length d then d ! (q - s) else byte_at rb q)"
proof -
  note w = rb_wfD [OF wf]
  let ?c = "rcap rb" and ?k = "if s \<le> q then q - s else rcap rb - (s - q)"
  have "(ring_slot rb s + ?k) mod ?c = (read_idx rb + (s - read_seq rb) + ?k) mod ?c"
    unfolding ring_slot_def by (rule mod_add_left_eq)
  also have "\<dots> = (read_idx rb + (q - read_seq rb) + (if s \<le> q then 0 else ?c)) mod ?c"
    using s q by (intro arg_cong [where f = "\<lambda>x. x mod ?c"]) auto
  also have "\<dots> = ring_slot rb q" by (simp add: ring_slot_def)
  finally have slot: "(ring_slot rb s + ?k) mod ?c = ring_slot rb q" .
  have "?k < ?c" using s q by auto
  then have "ring_put (r_buffer rb) (ring_slot rb s) d ! ring_slot rb q =
      (if ?k < length d then d ! ?k else byte_at rb q)"
    using nth_ring_put [of "ring_slot rb s" "r_buffer rb" ?k d] ring_slot_less [OF wf] w(3)
    by (simp add: slot byte_at_def)
  moreover have "?k < length d \<longleftrightarrow> s \<le> q \<and> q < s + length d" using s q by auto
  ultimately show ?thesis by simp
qed

lemma read_bytes:
  assumes wf: "rb_wf rb" and n: "0 < unat len" "unat len < expected_dist rb"
    and dst: "unat len \<le> length dst"
  shows "safe_memcpy_from_recvbuf rb len dst =
    Inr (map (\<lambda>k. byte_at rb (read_seq rb + 1 + k)) [0..<unat len] @ drop (unat len) dst)"
proof -
  note d = rb_wfD [OF wf]
  have len: "unat len < rcap rb" using n d(9) by simp
  have es: "unat (last_byte_read_seqnum rb + len) = read_seq rb + unat len"
    using n d(6,9) by (subst unat_add32) (simp_all add: read_seq_def expected_seq_def)
  obtain i where i: "seqnum_to_index_recv rb (last_byte_read_seqnum rb + len) = Inr i"
    "unat i = ring_slot rb (read_seq rb + unat len)"
    using seq_index [OF wf, of "last_byte_read_seqnum rb + len"] es len by auto
  have ix: "unat i = (if read_idx rb + unat len < rcap rb then read_idx rb + unat len
      else read_idx rb + unat len - rcap rb)"
    using ring_mod [OF d(4), of "unat len"] len by (simp add: i(2) ring_slot_def)
  have r1: "unat (last_byte_read_index rb + 1) = read_idx rb + 1"
    using d(2,4) by (subst unat_add32) (simp_all add: read_idx_def)
  have get: "ring_get (r_buffer rb) (read_idx rb + 1) (unat len) =
      map (\<lambda>k. byte_at rb (read_seq rb + 1 + k)) [0..<unat len]"
    using d(3) by (simp add: ring_get_def byte_at_def ring_slot_def add.assoc)
  show ?thesis
  proof (cases "read_idx rb + unat len < rcap rb")
    case True
    then have "last_byte_read_index rb < i"
      using ix n(1) by (simp add: word_less_nat_alt read_idx_def)
    then show ?thesis
      using memcpy_ring_get_one [of "read_idx rb + 1" "unat len" "r_buffer rb" dst] True dst d(3)
      by (simp add: safe_memcpy_from_recvbuf_def Let_def i(1) r1 get [simplified])
  next
    case False
    then have g: "\<not> last_byte_read_index rb < i"
      using ix len by (simp add: word_less_nat_alt read_idx_def)
    have "unat (r_capacity rb - 1) = rcap rb - 1"
      using d(1) by (subst unat_sub32) (simp_all add: rcap_def)
    then have t: "unat (r_capacity rb - 1 - last_byte_read_index rb) = rcap rb - (read_idx rb + 1)"
      using d(4) by (subst unat_sub32) (simp_all add: read_idx_def)
    then have "unat (len - (r_capacity rb - 1 - last_byte_read_index rb)) =
        unat len - (rcap rb - (read_idx rb + 1))"
      using False by (subst unat_sub32) simp_all
    then show ?thesis
      using memcpy_ring_get_two [of "read_idx rb + 1" "r_buffer rb" "rcap rb - (read_idx rb + 1)" "unat len" dst]
        g t False dst d(3,4) len
      by (simp add: safe_memcpy_from_recvbuf_def Let_def i(1) r1 get [simplified])
  qed
qed

section \<open>What the buffer holds\<close>

lemma rb_update_simps [simp]:
  "rcap (rb\<lparr>r_buffer := b\<rparr>) = rcap rb" "read_idx (rb\<lparr>r_buffer := b\<rparr>) = read_idx rb"
  "read_seq (rb\<lparr>r_buffer := b\<rparr>) = read_seq rb" "expected_dist (rb\<lparr>r_buffer := b\<rparr>) = expected_dist rb"
  "expected_seq (rb\<lparr>r_buffer := b\<rparr>) = expected_seq rb" "ring_slot (rb\<lparr>r_buffer := b\<rparr>) = ring_slot rb"
  "rcap (rb\<lparr>r_start := p\<rparr>) = rcap rb" "read_idx (rb\<lparr>r_start := p\<rparr>) = read_idx rb"
  "read_seq (rb\<lparr>r_start := p\<rparr>) = read_seq rb" "expected_seq (rb\<lparr>r_start := p\<rparr>) = expected_seq rb"
  "ring_slot (rb\<lparr>r_start := p\<rparr>) = ring_slot rb" "rb_wf (rb\<lparr>r_start := p\<rparr>) = rb_wf rb"
  "rcap (rb\<lparr>r_end := p\<rparr>) = rcap rb" "read_idx (rb\<lparr>r_end := p\<rparr>) = read_idx rb"
  "read_seq (rb\<lparr>r_end := p\<rparr>) = read_seq rb" "expected_seq (rb\<lparr>r_end := p\<rparr>) = expected_seq rb"
  "ring_slot (rb\<lparr>r_end := p\<rparr>) = ring_slot rb" "rb_wf (rb\<lparr>r_end := p\<rparr>) = rb_wf rb"
  "rcap (rb\<lparr>next_byte_expected_index := i\<rparr>) = rcap rb"
  "read_idx (rb\<lparr>next_byte_expected_index := i\<rparr>) = read_idx rb"
  "read_seq (rb\<lparr>next_byte_expected_index := i\<rparr>) = read_seq rb"
  "ring_slot (rb\<lparr>next_byte_expected_index := i\<rparr>) = ring_slot rb"
  by (simp_all add: rb_nat expected_dist_def expected_seq_def ring_slot_def fun_eq_iff rb_wf_def)

lemma rb_wf_buffer [simp]: "length b = rcap rb \<Longrightarrow> rb_wf rb \<Longrightarrow> rb_wf (rb\<lparr>r_buffer := b\<rparr>)"
  by (simp add: rb_wf_def)

lemma set_expected:
  assumes wf: "rb_wf rb" and q: "read_seq rb < q" "q \<le> read_seq rb + rcap rb" "q < 2 ^ 32"
    and i: "unat i = ring_slot rb q"
  shows "expected_seq (rb\<lparr>next_byte_expected_index := i\<rparr>) = q"
    "rb_wf (rb\<lparr>next_byte_expected_index := i\<rparr>)"
proof -
  note d = rb_wfD [OF wf]
  have "expected_dist (rb\<lparr>next_byte_expected_index := i\<rparr>) =
      dist1 (rcap rb) (read_idx rb) ((read_idx rb + (q - read_seq rb)) mod rcap rb)"
    using i by (simp add: expected_dist_def ring_slot_def)
  also have "\<dots> = q - read_seq rb" using d(4) q by (intro dist1_ring) auto
  finally show e: "expected_seq (rb\<lparr>next_byte_expected_index := i\<rparr>) = q"
    using q by (simp add: expected_seq_def)
  show "rb_wf (rb\<lparr>next_byte_expected_index := i\<rparr>)"
    using d q i ring_slot_less [OF wf, of q] unfolding rb_wf_def e by simp
qed

text \<open>The bytes a buffer holds, by sequence number.\<close>

definition seg_has :: "node list \<Rightarrow> nat \<Rightarrow> bool" where
  "seg_has xs q \<longleftrightarrow> (\<exists>x \<in> set xs. unat (lo x) \<le> q \<and> q \<le> unat (hi x))"

definition rb_has :: "recv_buffer_t \<Rightarrow> seg_heap \<Rightarrow> nat \<Rightarrow> bool" where
  "rb_has rb h q \<longleftrightarrow> read_seq rb < q \<and> q < expected_seq rb
     \<or> (\<exists>n \<in> ran (cells h). unat (start_seqnum_inclusive n) \<le> q \<and> q \<le> unat (end_seqnum_inclusive n))"

lemma dls_ran:
  assumes "dls c p xs n" and "distinct (map addr xs)" and "dom c = addr ` set xs"
  shows "(\<lambda>s. (start_seqnum_inclusive s, end_seqnum_inclusive s)) ` ran c = snd ` set xs"
  using assms
proof (induction xs arbitrary: c p)
  case Nil
  then show ?case by simp
next
  case (Cons x xs)
  let ?c = "c(addr x := None)"
  have ih: "(\<lambda>s. (start_seqnum_inclusive s, end_seqnum_inclusive s)) ` ran ?c = snd ` set xs"
    by (rule Cons.IH [of _ "Ref (addr x)"]) (use Cons.prems in \<open>simp_all del: fun_upd_apply\<close>)
  have "ran c = insert (seg_node (lo x) (hi x) p (first_ref xs n)) (ran ?c)"
    using ran_map_upd [of ?c "addr x" "seg_node (lo x) (hi x) p (first_ref xs n)"] Cons.prems(1)
    by (simp add: map_upd_triv)
  then show ?case using ih by simp
qed

lemma rb_has_list:
  assumes "heap_ok h xs"
  shows "rb_has rb h q \<longleftrightarrow> read_seq rb < q \<and> q < expected_seq rb \<or> seg_has xs q"
proof -
  have "(\<lambda>s. (start_seqnum_inclusive s, end_seqnum_inclusive s)) ` ran (cells h) = snd ` set xs"
    using assms by (intro dls_ran [of _ Null xs Null]) (simp_all add: heap_ok_def)
  then have "(\<exists>y \<in> (\<lambda>s. (start_seqnum_inclusive s, end_seqnum_inclusive s)) ` ran (cells h).
        unat (fst y) \<le> q \<and> q \<le> unat (snd y)) \<longleftrightarrow>
      (\<exists>y \<in> snd ` set xs. unat (fst y) \<le> q \<and> q \<le> unat (snd y))" by simp
  then show ?thesis unfolding rb_has_def seg_has_def by simp
qed

lemma seg_has_simps [simp]: "seg_has [] q \<longleftrightarrow> False"
  "seg_has (x # xs) q \<longleftrightarrow> unat (lo x) \<le> q \<and> q \<le> unat (hi x) \<or> seg_has xs q"
  "seg_has (xs @ ys) q \<longleftrightarrow> seg_has xs q \<or> seg_has ys q"
  by (auto simp: seg_has_def)

lemma seg_has_merge:
  assumes "segs_sorted xs" and "s \<le> e"
  shows "seg_has (merge_list xs a s e) q \<longleftrightarrow> seg_has xs q \<or> unat s \<le> q \<and> q \<le> unat e"
proof (cases "q < 2 ^ 32")
  case True
  then have "seg_has ys q \<longleftrightarrow> seg_covers ys (of_nat q)" for ys
    by (simp add: seg_has_def seg_covers_def word_le_nat_alt unat_of_nat32)
  with True show ?thesis
    using merge_list_covers [OF assms, of a "of_nat q"] by (simp add: word_le_nat_alt unat_of_nat32)
next
  case False
  then have "\<not> q \<le> unat w" for w :: u32 using unat_u32_less [of w] by simp
  then show ?thesis by (simp add: seg_has_def)
qed

text \<open>What the buffer does with the merged segment.\<close>

lemma heap_ok_node:
  assumes "heap_ok h (L @ m # R)"
  shows "deref h (Ref (addr m)) = Inr (seg_node (lo m) (hi m) (last_ref L Null) (first_ref R Null))"
    "get_prev h (Ref (addr m)) = Inr (last_ref L Null)"
    "get_next h (Ref (addr m)) = Inr (first_ref R Null)"
  using assms by (simp_all add: heap_ok_def get_prev_def get_next_def)

lemma absorb_keep:
  assumes ok: "heap_ok h (L @ m # R)" and E: "\<not> lo m \<le> E"
    and rb: "r_start rb = first_ref (L @ M @ R) Null" "r_end rb = last_ref (L @ M @ R) Null"
  shows "absorb_merged rb h (Ref (addr m)) E =
    Inr (rb\<lparr>r_start := first_ref (L @ m # R) Null, r_end := last_ref (L @ m # R) Null\<rparr>, h)"
proof -
  have l: "last_ref L Null = Null \<longleftrightarrow> L = []" and r: "first_ref R Null = Null \<longleftrightarrow> R = []"
    by (simp_all add: last_ref_def first_ref_def split: list.split)
  have s: "(if L = [] then rb\<lparr>r_start := Ref (addr m)\<rparr> else rb) = rb\<lparr>r_start := first_ref (L @ m # R) Null\<rparr>"
    using rb(1) by (cases L) simp_all
  have e: "(if R = [] then rb'\<lparr>r_end := Ref (addr m)\<rparr> else rb') = rb'\<lparr>r_end := last_ref (L @ m # R) Null\<rparr>"
    if "r_end rb' = r_end rb" for rb' :: recv_buffer_t
    using rb(2) that by (cases R rule: rev_cases) simp_all
  show ?thesis
    using E by (simp add: absorb_merged_def heap_ok_node [OF ok] l r s e Let_def del: deref.simps bindF_eq_Inr)
qed

lemma absorb_take:
  assumes ok: "heap_ok h (m # R)" and E: "lo m \<le> E"
    and rb: "r_end rb = last_ref (M @ R) Null"
    and i: "seqnum_to_index_recv rb (hi m + 1) = Inr i"
  shows "\<exists>h'. absorb_merged rb h (Ref (addr m)) E =
      Inr (rb\<lparr>next_byte_expected_index := i, r_start := first_ref R Null, r_end := last_ref R Null\<rparr>, h')
    \<and> heap_ok h' R \<and> brk h' = brk h \<and> fresh h' = fresh h"
proof -
  obtain h' where h': "bindF (segment_disconnect h (Ref (addr m))) (\<lambda>h. free_segment h (Ref (addr m))) = Inr h'"
    "heap_ok h' R" "brk h' = brk h" "fresh h' = fresh h"
    using detach_first [OF ok] by blast
  have r: "first_ref R Null = Null \<longleftrightarrow> R = []"
    by (simp add: first_ref_def split: list.split)
  have e: "R \<noteq> [] \<Longrightarrow> rb\<lparr>next_byte_expected_index := i, r_start := p, r_end := last_ref R Null\<rparr> =
      rb\<lparr>next_byte_expected_index := i, r_start := p\<rparr>" for p
    using rb by (cases rb; cases R rule: rev_cases) simp_all
  have "absorb_merged rb h (Ref (addr m)) E =
      bindF (segment_disconnect h (Ref (addr m))) (\<lambda>h. bindF (free_segment h (Ref (addr m))) (\<lambda>h.
        Inr (rb\<lparr>next_byte_expected_index := i, r_start := first_ref R Null, r_end := last_ref R Null\<rparr>, h)))"
    using E by (cases "R = []") (simp_all add: absorb_merged_def heap_ok_first [OF ok] i r e Let_def del: free_segment.simps deref.simps bindF_eq_Inr)
  also have "\<dots> = bindF (bindF (segment_disconnect h (Ref (addr m))) (\<lambda>h. free_segment h (Ref (addr m)))) (\<lambda>h.
        Inr (rb\<lparr>next_byte_expected_index := i, r_start := first_ref R Null, r_end := last_ref R Null\<rparr>, h))"
    by (simp del: free_segment.simps)
  also have "\<dots> = Inr (rb\<lparr>next_byte_expected_index := i, r_start := first_ref R Null, r_end := last_ref R Null\<rparr>, h')"
    unfolding h'(1) by simp
  finally show ?thesis using h' by blast
qed

section \<open>Receiving\<close>

lemma can_receive_cases:
  assumes wf: "rb_wf rb" and len: "len \<noteq> 0" and no_wrap: "unat s + unat len \<le> 2 ^ 32"
  shows "recv_buffer_can_receive rb s len =
    (if unat s \<le> read_seq rb then 2
     else if unat s + unat len \<le> expected_seq rb then 3
     else if read_seq rb + rcap rb < unat s + unat len then 1 else 0)"
proof -
  note d = rb_wfD [OF wf]
  have l: "0 < unat len" using len by (simp add: unat_gt_0)
  have e: "unat (s + len - 1) = unat s + unat len - 1"
  proof -
    have "unat (s + (len - 1)) = unat s + unat (len - 1)"
      using no_wrap l by (intro unat_add32) (subst unat_sub32; simp)
    also have "unat (len - 1) = unat len - 1" using l by (subst unat_sub32) simp_all
    finally show ?thesis using l by (simp add: add_diff_eq)
  qed
  have "unat (s + len - 1 - last_byte_read_seqnum rb) = unat s + unat len - 1 - read_seq rb"
    if "read_seq rb < unat s"
    using that l by (subst unat_sub32) (simp_all add: e read_seq_def)
  then show ?thesis
    using l d(10) by (auto simp: recv_buffer_can_receive_def Let_def word_le_nat_alt word_less_nat_alt e
      next_expected(2) [OF wf] read_seq_def rcap_def)
qed

lemma first_ref_Null [simp]: "first_ref xs Null = Null \<longleftrightarrow> xs = []"
  "last_ref xs Null = Null \<longleftrightarrow> xs = []"
  by (simp_all add: last_ref_def first_ref_def split: list.split)

text \<open>The first segment of out-of-order data.\<close>

lemma new_segment:
  assumes "heap_ok h []"
  shows "\<exists>h'. set_range (snd (malloc_segment h)) (Ref (brk h)) s e = Inr h'
    \<and> heap_ok h' [(brk h, s, e)] \<and> fresh h' = fresh h"
  using assms by (cases "fresh h") (auto simp: malloc_segment_def set_range_def heap_ok_def)

lemma receive_first:
  assumes ok: "rb_ok rb h []" and s: "read_seq rb < unat s"
    and l: "len \<noteq> 0" "unat len \<le> length data"
    and e: "expected_seq rb < unat s + unat len" "unat s + unat len \<le> read_seq rb + rcap rb"
      "unat s + unat len < 2 ^ 32"
  defines "b \<equiv> ring_put (r_buffer rb) (ring_slot rb (unat s)) (take (unat len) data)"
  shows "\<exists>rb' h' ys. recv_buffer_receive rb h s len data = Inr (rb'\<lparr>r_buffer := b\<rparr>, h')
    \<and> rb_ok rb' h' ys \<and> read_seq rb' = read_seq rb \<and> read_idx rb' = read_idx rb \<and> rcap rb' = rcap rb
    \<and> expected_seq rb \<le> expected_seq rb' \<and> fresh h' = fresh h
    \<and> (unat s \<le> expected_seq rb \<longrightarrow> unat s + unat len \<le> expected_seq rb')
    \<and> (\<forall>q. rb_has rb' h' q \<longleftrightarrow> rb_has rb h q \<or> unat s \<le> q \<and> q < unat s + unat len)"
proof -
  have wf: "rb_wf rb" and hok: "heap_ok h []" and st: "r_start rb = Null" "r_end rb = Null"
    using ok by (simp_all add: rb_ok_def)
  note d = rb_wfD [OF wf]
  have l0: "0 < unat len" using l(1) by (simp add: unat_gt_0)
  have cr: "assertF (recv_buffer_can_receive rb s len = 0) = Inr ()"
    using can_receive_cases [OF wf l(1)] s e by simp
  obtain i where i: "seqnum_to_index_recv rb s = Inr i" "unat i = ring_slot rb (unat s)"
    using seq_index [OF wf, of s] s e by auto
  have cp: "safe_memcpy_to_recvbuf rb i len data = Inr b"
    using copy_to [OF wf, of i len data] i(2) ring_slot_less [OF wf] l s e by (simp add: b_def)
  have sl: "unat (s + len) = unat s + unat len" using e by (intro unat_add32) simp
  then obtain j where j: "seqnum_to_index_recv rb (s + len) = Inr j" "unat j = ring_slot rb (unat s + unat len)"
    using seq_index [OF wf, of "s + len"] s e by auto
  have hi: "unat (s + len - 1) = unat s + unat len - 1"
    using l0 sl by (subst unat_sub32) simp_all
  have jb: "seqnum_to_index_recv (rb\<lparr>r_buffer := b\<rparr>) (s + len) = Inr j"
    using j by (simp add: seqnum_to_index_recv_def)
  show ?thesis
  proof (cases "unat s \<le> expected_seq rb")
    case True
    then have "s \<le> get_next_byte_expected_seqnum rb"
      by (simp add: word_le_nat_alt next_expected(2) [OF wf])
    then have "recv_buffer_receive rb h s len data =
        Inr ((rb\<lparr>next_byte_expected_index := j\<rparr>)\<lparr>r_buffer := b\<rparr>, h)"
      using cr i j cp st by (simp add: recv_buffer_receive_def Let_def)
    moreover have x: "expected_seq (rb\<lparr>next_byte_expected_index := j\<rparr>) = unat s + unat len"
      "rb_wf (rb\<lparr>next_byte_expected_index := j\<rparr>)"
      using set_expected [OF wf _ _ _ j(2)] s e by simp_all
    moreover have "rb_ok (rb\<lparr>next_byte_expected_index := j\<rparr>) h []"
      using hok st x by (simp add: rb_ok_def segs_sorted_def)
    moreover have "rb_has (rb\<lparr>next_byte_expected_index := j\<rparr>) h q \<longleftrightarrow>
        rb_has rb h q \<or> unat s \<le> q \<and> q < unat s + unat len" for q
      using True s e x by (auto simp: rb_has_list [OF hok])
    ultimately show ?thesis
      using e(1) by (intro exI [of _ "rb\<lparr>next_byte_expected_index := j\<rparr>"] exI [of _ h] exI [of _ "[]"]) simp
  next
    case False
    then have "\<not> s \<le> get_next_byte_expected_seqnum rb"
      by (simp add: word_le_nat_alt next_expected(2) [OF wf])
    moreover obtain h' where h': "set_range (snd (malloc_segment h)) (Ref (brk h)) s (s + len - 1) = Inr h'"
      "heap_ok h' [(brk h, s, s + len - 1)]" "fresh h' = fresh h"
      using new_segment [OF hok] by blast
    moreover have "fst (malloc_segment h) = brk h" by (simp add: malloc_segment_def)
    ultimately have "recv_buffer_receive rb h s len data =
        Inr ((rb\<lparr>r_start := Ref (brk h), r_end := Ref (brk h)\<rparr>)\<lparr>r_buffer := b\<rparr>, h')"
      using cr i cp st
      by (subst recv_buffer_receive_def) (simp add: Let_def split_beta del: bindF_eq_Inr)
    moreover have "rb_ok (rb\<lparr>r_start := Ref (brk h), r_end := Ref (brk h)\<rparr>) h' [(brk h, s, s + len - 1)]"
      using wf h'(2) False e l0 hi by (simp add: rb_ok_def segs_sorted_def word_le_nat_alt) linarith
    moreover have "rb_has (rb\<lparr>r_start := Ref (brk h), r_end := Ref (brk h)\<rparr>) h' q \<longleftrightarrow>
        rb_has rb h q \<or> unat s \<le> q \<and> q < unat s + unat len" for q
      using l0 hi by (auto simp: rb_has_list [OF hok] rb_has_list [OF h'(2)])
    ultimately show ?thesis using h'(3) False
      by (intro exI [of _ "rb\<lparr>r_start := Ref (brk h), r_end := Ref (brk h)\<rparr>"] exI [of _ h']
        exI [of _ "[(brk h, s, s + len - 1)]"]) simp
  qed
qed

lemma merged_bounds:
  fixes a :: nat
  assumes "segs_sorted xs" and "s \<le> e"
  defines "m \<equiv> merged a s e (seg_mid xs s e)"
  shows "lo m \<le> s" "e \<le> hi m" "lo m = s \<or> (\<exists>x \<in> set xs. lo m = lo x)"
    "hi m = e \<or> (\<exists>x \<in> set xs. hi m = hi x)" "addr m = a"
proof -
  have sub: "set (seg_mid xs s e) \<subseteq> set xs"
    using seg_split [of xs s e] by (metis Un_iff set_append subsetI)
  have in_xs: "seg_mid xs s e \<noteq> [] \<Longrightarrow> hd (seg_mid xs s e) \<in> set xs"
    "seg_mid xs s e \<noteq> [] \<Longrightarrow> last (seg_mid xs s e) \<in> set xs"
    using hd_in_set last_in_set sub by blast+
  show "lo m \<le> s" "e \<le> hi m" "addr m = a" by (simp_all add: m_def merged_def)
  show "lo m = s \<or> (\<exists>x \<in> set xs. lo m = lo x)"
    unfolding m_def merged_def min_def using in_xs(1) by (cases "seg_mid xs s e = []") (simp, simp, metis)
  show "hi m = e \<or> (\<exists>x \<in> set xs. hi m = hi x)"
    unfolding m_def merged_def max_def using in_xs(2) by (cases "seg_mid xs s e = []") (simp, simp, metis)
qed

lemma receive_more:
  assumes ok: "rb_ok rb h xs" and ne: "xs \<noteq> []" and s: "read_seq rb < unat s"
    and l: "len \<noteq> 0" "unat len \<le> length data"
    and e: "expected_seq rb < unat s + unat len" "unat s + unat len \<le> read_seq rb + rcap rb"
      "unat s + unat len < 2 ^ 32"
  defines "b \<equiv> ring_put (r_buffer rb) (ring_slot rb (unat s)) (take (unat len) data)"
    and "m \<equiv> merged (brk h) s (s + len - 1) (seg_mid xs s (s + len - 1))"
  shows "\<exists>rb' h' ys. recv_buffer_receive rb h s len data = Inr (rb'\<lparr>r_buffer := b\<rparr>, h')
    \<and> rb_ok rb' h' ys \<and> read_seq rb' = read_seq rb \<and> read_idx rb' = read_idx rb \<and> rcap rb' = rcap rb
    \<and> expected_seq rb \<le> expected_seq rb' \<and> fresh h' = fresh h
    \<and> (unat s \<le> expected_seq rb \<longrightarrow> unat s + unat len \<le> expected_seq rb')
    \<and> expected_seq rb' = (if unat (lo m) \<le> expected_seq rb then unat (hi m) + 1 else expected_seq rb)
    \<and> (\<forall>q. rb_has rb' h' q \<longleftrightarrow> rb_has rb h q \<or> unat s \<le> q \<and> q < unat s + unat len)"
proof -
  have wf: "rb_wf rb" and hok: "heap_ok h xs" and so: "segs_sorted xs"
    and st: "r_start rb = first_ref xs Null" "r_end rb = last_ref xs Null"
    and bd: "\<forall>x \<in> set xs. expected_seq rb \<le> unat (lo x) \<and> unat (hi x) < read_seq rb + rcap rb
          \<and> unat (hi x) + 1 < 2 ^ 32"
    using ok by (simp_all add: rb_ok_def)
  note d = rb_wfD [OF wf]
  let ?e = "s + len - 1" and ?E = "get_next_byte_expected_seqnum rb"
  let ?L = "seg_left xs s" and ?M = "seg_mid xs s ?e" and ?R = "seg_right xs s ?e"
  have l0: "0 < unat len" using l(1) by (simp add: unat_gt_0)
  have "unat (s + len) = unat s + unat len" using e by (intro unat_add32) simp
  then have hi: "unat ?e = unat s + unat len - 1"
    using l0 by (subst unat_sub32) simp_all
  then have se: "s \<le> ?e" using l0 by (simp add: word_le_nat_alt)
  have xs: "xs = ?L @ ?M @ ?R" by (rule seg_split)
  have sub: "set ?L \<subseteq> set xs" "set ?R \<subseteq> set xs"
    using seg_split [of xs s ?e] by (metis Un_iff set_append subsetI)+
  note mb = merged_bounds [OF so se, of "brk h", folded m_def]
  have ml: "merge_list xs (brk h) s ?e = ?L @ m # ?R" by (simp add: merge_list_def m_def)
  obtain h1 where h1: "segment_merge h (r_start rb) (r_end rb) s ?e = Inr (Ref (addr m), h1)"
    "heap_ok h1 (?L @ m # ?R)" "fresh h1 = fresh h"
    using segment_merge_list [OF hok ne so se] st mb(5) ml by auto
  have so1: "segs_sorted (?L @ m # ?R)" using merge_list_sorted [OF so se, of "brk h"] ml by simp
  have has: "seg_has (?L @ m # ?R) q \<longleftrightarrow> seg_has xs q \<or> unat s \<le> q \<and> q < unat s + unat len" for q
    using seg_has_merge [OF so se, of "brk h" q] l0 unfolding ml hi by auto
  have mlo: "unat (lo m) \<le> unat s" and mhi: "unat s + unat len \<le> unat (hi m) + 1"
    using mb(1,2) hi by (simp_all add: word_le_nat_alt)
  have mlo': "read_seq rb < unat (lo m)" using mb(3) s bd d(10) by fastforce
  have mhi': "unat (hi m) < read_seq rb + rcap rb" "unat (hi m) + 1 < 2 ^ 32"
    using mb(4) bd e hi l0 by auto
  have cr: "recv_buffer_can_receive rb s len = 0"
    using can_receive_cases [OF wf l(1)] s e by simp
  have nn: "r_start rb \<noteq> Null" using ne st by simp
  obtain i where i: "seqnum_to_index_recv rb s = Inr i" "unat i = ring_slot rb (unat s)"
    using seq_index [OF wf, of s] s e by auto
  have cp: "safe_memcpy_to_recvbuf rb i len data = Inr b"
    using copy_to [OF wf, of i len data] i(2) ring_slot_less [OF wf] l s e by (simp add: b_def)
  have rest: "recv_buffer_receive rb h s len data = Inr (rb'\<lparr>r_buffer := b\<rparr>, h')"
    if "absorb_merged rb h1 (Ref (addr m)) ?E = Inr (rb', h')"
      and "seqnum_to_index_recv rb' s = seqnum_to_index_recv rb s"
      and "safe_memcpy_to_recvbuf rb' i len data = safe_memcpy_to_recvbuf rb i len data" for rb' h'
    using that by (simp add: recv_buffer_receive_def cr nn h1(1) i cp Let_def)
  show ?thesis
  proof (cases "lo m \<le> ?E")
    case True
    then have mE: "unat (lo m) \<le> expected_seq rb"
      by (simp add: word_le_nat_alt next_expected(2) [OF wf])
    have L: "?L = []"
    proof (rule ccontr)
      assume "?L \<noteq> []"
      then obtain x where x: "x \<in> set ?L" by (cases ?L) auto
      then have "hi x < lo m" "lo x \<le> hi x" "expected_seq rb \<le> unat (lo x)"
        using so1 sub(1) bd by (auto simp: segs_sorted_def sorted_wrt_append)
      with mE show False by (simp add: word_nat)
    qed
    have hm: "unat (hi m + 1) = unat (hi m) + 1" using mhi' by (subst unat_add32) simp_all
    obtain j where j: "seqnum_to_index_recv rb (hi m + 1) = Inr j" "unat j = ring_slot rb (unat (hi m) + 1)"
      using seq_index [OF wf, of "hi m + 1"] hm mhi mhi' s by auto
    let ?rb = "rb\<lparr>next_byte_expected_index := j, r_start := first_ref ?R Null, r_end := last_ref ?R Null\<rparr>"
    have "r_end rb = last_ref (?M @ ?R) Null" using st(2) xs L by (metis append_Nil)
    then obtain h' where h': "absorb_merged rb h1 (Ref (addr m)) ?E = Inr (?rb, h')"
      "heap_ok h' ?R" "fresh h' = fresh h"
      using absorb_take [OF _ True _ j(1), of h1 ?R ?M] h1 L by auto
    have x: "expected_seq ?rb = unat (hi m) + 1" "rb_wf ?rb"
      using set_expected [OF wf _ _ _ j(2)] s mhi mhi' l0 by simp_all
    have "\<forall>x \<in> set ?R. hi m < lo x" using so1 by (auto simp: segs_sorted_def sorted_wrt_append)
    then have "\<forall>x \<in> set ?R. unat (hi m) + 1 \<le> unat (lo x)" by (simp add: word_less_nat_alt Suc_le_eq)
    moreover have "segs_sorted ?R" using so1 by (simp add: segs_sorted_def sorted_wrt_append)
    ultimately have "rb_ok ?rb h' ?R" using x h'(2) bd sub(2) by (auto simp: rb_ok_def)
    moreover have "rb_has ?rb h' q \<longleftrightarrow> rb_has rb h q \<or> unat s \<le> q \<and> q < unat s + unat len" for q
      using has [of q] L x(1) mE mlo' mlo mhi e by (auto simp: rb_has_list [OF hok] rb_has_list [OF h'(2)])
    moreover have "recv_buffer_receive rb h s len data = Inr (?rb\<lparr>r_buffer := b\<rparr>, h')"
      by (rule rest [OF h'(1)]) (simp_all add: seqnum_to_index_recv_def safe_memcpy_to_recvbuf_def)
    ultimately show ?thesis
      using x(1) e l0 mhi mE h'(3) by (intro exI [of _ ?rb] exI [of _ h'] exI [of _ ?R]) simp
  next
    case False
    then have mE: "expected_seq rb < unat (lo m)"
      by (simp add: word_le_nat_alt next_expected(2) [OF wf])
    let ?rb = "rb\<lparr>r_start := first_ref (?L @ m # ?R) Null, r_end := last_ref (?L @ m # ?R) Null\<rparr>"
    have ab: "absorb_merged rb h1 (Ref (addr m)) ?E = Inr (?rb, h1)"
      using absorb_keep [OF h1(2) False, of rb ?M] st xs by (metis)
    have "rb_ok ?rb h1 (?L @ m # ?R)"
      using wf h1(2) so1 mE mhi' bd sub by (auto simp: rb_ok_def)
    moreover have "rb_has ?rb h1 q \<longleftrightarrow> rb_has rb h q \<or> unat s \<le> q \<and> q < unat s + unat len" for q
      unfolding rb_has_list [OF hok] rb_has_list [OF h1(2)] has by auto
    moreover have "recv_buffer_receive rb h s len data = Inr (?rb\<lparr>r_buffer := b\<rparr>, h1)"
      by (rule rest [OF ab]) (simp_all add: seqnum_to_index_recv_def safe_memcpy_to_recvbuf_def)
    ultimately show ?thesis
      using h1(3) mE mlo by (intro exI [of _ ?rb] exI [of _ h1] exI [of _ "?L @ m # ?R"]) simp
  qed
qed

text \<open>Receiving, in every case.\<close>

lemma recv_buffer_receive_ok:
  assumes ok: "rb_ok rb h xs" and s: "read_seq rb < unat s"
    and l: "len \<noteq> 0" "unat len \<le> length data"
    and e: "expected_seq rb < unat s + unat len" "unat s + unat len \<le> read_seq rb + rcap rb"
      "unat s + unat len < 2 ^ 32"
  shows "\<exists>rb' h' ys. recv_buffer_receive rb h s len data = Inr (rb', h')
    \<and> rb_ok rb' h' ys \<and> read_seq rb' = read_seq rb \<and> rcap rb' = rcap rb
    \<and> expected_seq rb \<le> expected_seq rb' \<and> fresh h' = fresh h
    \<and> (unat s \<le> expected_seq rb \<longrightarrow> unat s + unat len \<le> expected_seq rb')
    \<and> (\<forall>q. rb_has rb' h' q \<longleftrightarrow> rb_has rb h q \<or> unat s \<le> q \<and> q < unat s + unat len)
    \<and> (\<forall>q. read_seq rb < q \<and> q < read_seq rb + rcap rb \<longrightarrow>
        byte_at rb' q = (if unat s \<le> q \<and> q < unat s + unat len then data ! (q - unat s) else byte_at rb q))"
proof -
  define b where "b = ring_put (r_buffer rb) (ring_slot rb (unat s)) (take (unat len) data)"
  have wf: "rb_wf rb" using ok by (simp add: rb_ok_def)
  obtain rb' h' ys where r: "recv_buffer_receive rb h s len data = Inr (rb'\<lparr>r_buffer := b\<rparr>, h')"
    "rb_ok rb' h' ys" "read_seq rb' = read_seq rb" "read_idx rb' = read_idx rb" "rcap rb' = rcap rb"
    "expected_seq rb \<le> expected_seq rb'" "fresh h' = fresh h"
    "unat s \<le> expected_seq rb \<longrightarrow> unat s + unat len \<le> expected_seq rb'"
    "\<forall>q. rb_has rb' h' q \<longleftrightarrow> rb_has rb h q \<or> unat s \<le> q \<and> q < unat s + unat len"
    using receive_first [OF _ s l e, of h] receive_more [OF ok _ s l e] ok unfolding b_def
    by (cases "xs = []") blast+
  have lb: "length b = rcap rb" using rb_wfD(3) [OF wf] by (simp add: b_def)
  have "rb_ok (rb'\<lparr>r_buffer := b\<rparr>) h' ys" using r(2) lb r(5) by (simp add: rb_ok_def)
  moreover have "rb_has (rb'\<lparr>r_buffer := b\<rparr>) h' q \<longleftrightarrow> rb_has rb' h' q" for q by (simp add: rb_has_def)
  moreover have "byte_at (rb'\<lparr>r_buffer := b\<rparr>) q =
      (if unat s \<le> q \<and> q < unat s + unat len then data ! (q - unat s) else byte_at rb q)"
    if "read_seq rb < q \<and> q < read_seq rb + rcap rb" for q
  proof -
    have "ring_slot rb' q = ring_slot rb q" using r by (simp add: ring_slot_def)
    moreover have "length (take (unat len) data) = unat len" using l by simp
    moreover have "unat s \<le> q \<and> q < unat s + unat len \<Longrightarrow>
        take (unat len) data ! (q - unat s) = data ! (q - unat s)" by (intro nth_take) linarith
    ultimately show ?thesis
      using byte_at_put [OF wf s, of "take (unat len) data" q] that e
      by (simp add: byte_at_def b_def)
  qed
  ultimately show ?thesis
    using r by (intro exI [of _ "rb'\<lparr>r_buffer := b\<rparr>"] exI [of _ h'] exI [of _ ys]) simp
qed

text \<open>Reading.\<close>

lemma recv_buffer_read_ok:
  assumes ok: "rb_ok rb h xs" and n: "unat len < expected_seq rb - read_seq rb"
    and dst: "unat len \<le> length dst"
  shows "\<exists>rb'. recv_buffer_read rb dst len =
      Inr (rb', map (\<lambda>k. byte_at rb (read_seq rb + 1 + k)) [0..<unat len] @ drop (unat len) dst)
    \<and> rb_ok rb' h xs \<and> read_seq rb' = read_seq rb + unat len \<and> rcap rb' = rcap rb
    \<and> expected_seq rb' = expected_seq rb
    \<and> (\<forall>q. read_seq rb' < q \<longrightarrow> byte_at rb' q = byte_at rb q)"
proof (cases "len = 0")
  case True
  then show ?thesis using ok by (simp add: recv_buffer_read_def word_le_nat_alt)
next
  case False
  have wf: "rb_wf rb" using ok by (simp add: rb_ok_def)
  note d = rb_wfD [OF wf]
  have n': "unat len < expected_dist rb" using n by (simp add: expected_seq_def)
  have l0: "0 < unat len" using False by (simp add: unat_gt_0)
  let ?i = "(last_byte_read_index rb + len) mod r_capacity rb"
  let ?rb = "rb\<lparr>last_byte_read_seqnum := last_byte_read_seqnum rb + len, last_byte_read_index := ?i\<rparr>"
  have sq: "read_seq ?rb = read_seq rb + unat len"
    using n d(6,9) by (simp add: read_seq_def) (subst unat_add32; simp add: expected_seq_def read_seq_def)
  have ix: "read_idx ?rb = (read_idx rb + unat len) mod rcap rb"
    using d(2,4,9) n' by (simp add: read_idx_def unat_mod32 rcap_def) (subst unat_add32; simp)
  have "expected_dist ?rb = expected_dist rb - unat len"
    using dist1_rebase [OF d(4,5), of "unat len"] n' ix by (simp add: expected_dist_def rcap_def)
  then have ex: "expected_seq ?rb = expected_seq rb"
    using n' sq by (simp add: expected_seq_def)
  have wf': "rb_wf ?rb"
    using d ex ix by (simp add: rb_wf_def) (simp add: rcap_def)
  then have "rb_ok ?rb h xs"
    using ok ex sq by (auto simp: rb_ok_def rcap_def)
  moreover have "recv_buffer_read rb dst len =
      Inr (?rb, map (\<lambda>k. byte_at rb (read_seq rb + 1 + k)) [0..<unat len] @ drop (unat len) dst)"
    using False d(7) n read_bytes [OF wf l0 n' dst]
    by (simp add: recv_buffer_read_def word_le_nat_alt max_read [OF wf])
  moreover have "byte_at ?rb q = byte_at rb q" if "read_seq ?rb < q" for q
  proof -
    have "ring_slot ?rb q = ((read_idx rb + unat len) mod rcap rb + (q - read_seq ?rb)) mod rcap rb"
      using ix by (simp add: ring_slot_def rcap_def)
    also have "\<dots> = (read_idx rb + unat len + (q - read_seq ?rb)) mod rcap rb" by (rule mod_add_left_eq)
    also have "\<dots> = ring_slot rb q" using that sq by (simp add: ring_slot_def)
    finally show ?thesis by (simp add: byte_at_def)
  qed
  ultimately show ?thesis using ex sq by (intro exI [of _ ?rb]) (simp add: rcap_def)
qed

end
