(* ===== verification/Recv_Stream.thy ===== *)
theory Recv_Stream
  imports Recv_Buffer
begin

text \<open>
  The contract of the receive buffer towards the socket: the locale \<open>reassembly\<close>, whose
  client lemma says what any sequence of accepted segments and reads delivers; its
  interpretation on the operations of \<open>recv_buffer.c\<close>; and the properties of the component,
  the faults of the code outside its contract included.
\<close>

section \<open>The contract\<close>

text \<open>
  A history over a reassembly buffer: segments of a stream \<open>S\<close> (a byte for every sequence
  number) arrive in any order, as long as they fit the window and bring something new, and
  in-order bytes are read. \<open>A\<close> collects the sequence numbers that arrived, \<open>out\<close> the bytes
  read.
\<close>

inductive reassembly_run ::
  "('b \<Rightarrow> nat \<Rightarrow> u8 list \<Rightarrow> 'b res) \<Rightarrow> ('b \<Rightarrow> nat \<Rightarrow> ('b \<times> u8 list) res) \<Rightarrow>
   ('b \<Rightarrow> nat) \<Rightarrow> ('b \<Rightarrow> nat) \<Rightarrow> ('b \<Rightarrow> nat) \<Rightarrow> (nat \<Rightarrow> u8) \<Rightarrow>
   'b \<Rightarrow> nat set \<Rightarrow> u8 list \<Rightarrow> 'b \<Rightarrow> bool"
  for recv :: "'b \<Rightarrow> nat \<Rightarrow> u8 list \<Rightarrow> 'b res" and rd :: "'b \<Rightarrow> nat \<Rightarrow> ('b \<times> u8 list) res"
    and base :: "'b \<Rightarrow> nat" and expected :: "'b \<Rightarrow> nat" and window :: "'b \<Rightarrow> nat"
    and S :: "nat \<Rightarrow> u8" and b0 :: 'b
where
  start: "reassembly_run recv rd base expected window S b0 {} [] b0"
| arrive: "reassembly_run recv rd base expected window S b0 A out b \<Longrightarrow>
    base b < s \<Longrightarrow> d \<noteq> [] \<Longrightarrow> expected b < s + length d \<Longrightarrow> s + length d \<le> base b + window b \<Longrightarrow>
    s + length d < 2 ^ 32 \<Longrightarrow> d = map S [s..<s + length d] \<Longrightarrow> recv b s d = Inr b' \<Longrightarrow>
    reassembly_run recv rd base expected window S b0 (A \<union> {s..<s + length d}) out b'"
| deliver: "reassembly_run recv rd base expected window S b0 A out b \<Longrightarrow>
    base b + n < expected b \<Longrightarrow> rd b n = Inr (b', d) \<Longrightarrow>
    reassembly_run recv rd base expected window S b0 A (out @ d) b'"

locale reassembly =
  fixes inv :: "'b \<Rightarrow> bool" and base :: "'b \<Rightarrow> nat" and expected :: "'b \<Rightarrow> nat"
    and window :: "'b \<Rightarrow> nat" and holds :: "'b \<Rightarrow> nat \<Rightarrow> bool" and byte :: "'b \<Rightarrow> nat \<Rightarrow> u8"
    and recv :: "'b \<Rightarrow> nat \<Rightarrow> u8 list \<Rightarrow> 'b res" and rd :: "'b \<Rightarrow> nat \<Rightarrow> ('b \<times> u8 list) res"
  assumes in_order: "inv b \<Longrightarrow> base b < q \<Longrightarrow> q < expected b \<Longrightarrow> holds b q"
    and in_window: "inv b \<Longrightarrow> holds b q \<Longrightarrow> base b < q \<and> q < base b + window b"
    and recv_law: "inv b \<Longrightarrow> base b < s \<Longrightarrow> d \<noteq> [] \<Longrightarrow> expected b < s + length d \<Longrightarrow>
      s + length d \<le> base b + window b \<Longrightarrow> s + length d < 2 ^ 32 \<Longrightarrow>
      \<exists>b'. recv b s d = Inr b' \<and> inv b' \<and> base b' = base b \<and> window b' = window b
        \<and> expected b \<le> expected b'
        \<and> (\<forall>q. holds b' q \<longleftrightarrow> holds b q \<or> s \<le> q \<and> q < s + length d)
        \<and> (\<forall>q. base b < q \<and> q < base b + window b \<longrightarrow>
            byte b' q = (if s \<le> q \<and> q < s + length d then d ! (q - s) else byte b q))"
    and read_law: "inv b \<Longrightarrow> base b + n < expected b \<Longrightarrow>
      \<exists>b'. rd b n = Inr (b', map (byte b) [base b + 1..<base b + 1 + n]) \<and> inv b'
        \<and> base b' = base b + n \<and> window b' = window b \<and> expected b' = expected b
        \<and> (\<forall>q. holds b' q \<longleftrightarrow> base b + n < q \<and> holds b q)
        \<and> (\<forall>q. base b + n < q \<longrightarrow> byte b' q = byte b q)"
begin

lemma run_reassembles:
  assumes "reassembly_run recv rd base expected window S b0 A out b"
    and "inv b0" and "\<And>q. \<not> holds b0 q"
  shows "inv b \<and> base b = base b0 + length out \<and> window b = window b0
    \<and> out = map S [base b0 + 1..<base b0 + 1 + length out]
    \<and> (\<forall>q. holds b q \<longleftrightarrow> q \<in> A \<and> base b < q)
    \<and> (\<forall>q. holds b q \<longrightarrow> byte b q = S q)
    \<and> {base b0<..base b} \<subseteq> A"
  using assms
proof (induction rule: reassembly_run.induct)
  case start
  then show ?case by simp
next
  case (arrive A out b s d b')
  then have ih: "inv b" "base b = base b0 + length out" "window b = window b0"
    "out = map S [base b0 + 1..<base b0 + 1 + length out]"
    "\<forall>q. holds b q \<longleftrightarrow> q \<in> A \<and> base b < q" "\<forall>q. holds b q \<longrightarrow> byte b q = S q"
    "{base b0<..base b} \<subseteq> A" by auto
  from recv_law [OF ih(1) arrive.hyps(2-6)] arrive.hyps(8) have r: "inv b'" "base b' = base b"
    "window b' = window b" "\<forall>q. holds b' q \<longleftrightarrow> holds b q \<or> s \<le> q \<and> q < s + length d"
    "\<forall>q. base b < q \<and> q < base b + window b \<longrightarrow>
            byte b' q = (if s \<le> q \<and> q < s + length d then d ! (q - s) else byte b q)"
    by auto
  have d: "d ! (q - s) = S q" if "s \<le> q" "q < s + length d" for q
  proof -
    have "d ! (q - s) = map S [s..<s + length d] ! (q - s)" using arrive.hyps(7) by simp
    then show ?thesis using that by simp
  qed
  have "byte b' q = S q" if "holds b' q" for q
    using that r(4,5) ih(6) d in_window [OF r(1) that] r(2,3)
    by (cases "s \<le> q \<and> q < s + length d") auto
  moreover have "holds b' q \<longleftrightarrow> q \<in> A \<union> {s..<s + length d} \<and> base b' < q" for q
  proof -
    have "s \<le> q \<Longrightarrow> base b < q" using arrive.hyps(2) by simp
    then show ?thesis unfolding r(2) r(4) [rule_format] ih(5) [rule_format] by auto
  qed
  moreover have "base b' = base b0 + length out" "window b' = window b0"
    "{base b0<..base b'} \<subseteq> A \<union> {s..<s + length d}"
    using ih(2,3,7) r(2,3) by auto
  ultimately show ?case using ih(4) r(1) by blast
next
  case (deliver A out b n b' d)
  then have ih: "inv b" "base b = base b0 + length out" "window b = window b0"
    "out = map S [base b0 + 1..<base b0 + 1 + length out]"
    "\<forall>q. holds b q \<longleftrightarrow> q \<in> A \<and> base b < q" "\<forall>q. holds b q \<longrightarrow> byte b q = S q"
    "{base b0<..base b} \<subseteq> A" by auto
  from read_law [OF ih(1) deliver.hyps(2)] deliver.hyps(3)
  have r: "d = map (byte b) [base b + 1..<base b + 1 + n]" "inv b'" "base b' = base b + n"
    "window b' = window b" "\<forall>q. holds b' q \<longleftrightarrow> base b + n < q \<and> holds b q"
    "\<forall>q. base b + n < q \<longrightarrow> byte b' q = byte b q" by auto
  have h: "holds b q" if "base b < q" "q \<le> base b + n" for q
    using in_order [OF ih(1)] deliver.hyps(2) that by simp
  then have "d = map S [base b + 1..<base b + 1 + n]" using r(1) ih(6) by auto
  then have out: "out @ d = map S [base b0 + 1..<base b0 + 1 + length (out @ d)]"
  proof -
    assume d: "d = map S [base b + 1..<base b + 1 + n]"
    have "[base b0 + 1..<base b0 + 1 + length (out @ d)] =
        [base b0 + 1..<base b + 1] @ [base b + 1..<base b + 1 + n]"
      using ih(2) d upt_add_eq_append [of "base b0 + 1" "base b + 1" n]
      by (simp add: add.assoc del: upt_Suc)
    then have "map S [base b0 + 1..<base b0 + 1 + length (out @ d)] =
        map S [base b0 + 1..<base b + 1] @ d" using d by (simp del: upt_Suc)
    then show ?thesis using ih(2,4) by (metis add.assoc add.commute)
  qed
  have "{base b0<..base b'} \<subseteq> A"
    using ih(5,7) h r(3) by (auto simp: subset_iff) (meson not_le)
  moreover have "holds b' q \<longrightarrow> byte b' q = S q" for q using r(5,6) ih(6) by simp
  moreover have "holds b' q \<longleftrightarrow> q \<in> A \<and> base b' < q" for q
    unfolding r(3) r(5) [rule_format] ih(5) [rule_format] by auto
  moreover have "base b' = base b0 + length (out @ d)" "window b' = window b0"
    using ih(2,3) r(1,3,4) by simp_all
  ultimately show ?case using out r(2) by blast
qed

end

section \<open>The code provides it\<close>

definition rb_recv :: "recv_buffer_t \<times> seg_heap \<Rightarrow> nat \<Rightarrow> u8 list \<Rightarrow> (recv_buffer_t \<times> seg_heap) res" where
  "rb_recv b s d = recv_buffer_receive (fst b) (snd b) (of_nat s) (of_nat (length d)) d"

definition rb_read ::
  "(nat \<Rightarrow> u8) \<Rightarrow> recv_buffer_t \<times> seg_heap \<Rightarrow> nat \<Rightarrow> ((recv_buffer_t \<times> seg_heap) \<times> u8 list) res"
where
  "rb_read junk b n =
     bindF (recv_buffer_read (fst b) (malloc junk n) (of_nat n)) (\<lambda>(rb, d). Inr ((rb, snd b), d))"

definition rb_inv :: "recv_buffer_t \<times> seg_heap \<Rightarrow> bool" where
  "rb_inv b \<longleftrightarrow> (\<exists>xs. rb_ok (fst b) (snd b) xs)"

lemma rb_ok_in_window:
  assumes "rb_ok rb h xs" and "rb_has rb h q"
  shows "read_seq rb < q" "q < read_seq rb + rcap rb"
proof -
  have wf: "rb_wf rb" and hok: "heap_ok h xs"
    and b: "\<forall>x \<in> set xs. expected_seq rb \<le> unat (lo x) \<and> unat (hi x) < read_seq rb + rcap rb"
    using assms(1) by (simp_all add: rb_ok_def)
  note d = rb_wfD [OF wf]
  show "read_seq rb < q" "q < read_seq rb + rcap rb"
    using assms(2) b d(10,11) unfolding rb_has_list [OF hok] seg_has_def by fastforce+
qed

lemma rb_recv_law:
  assumes "rb_inv b" and "read_seq (fst b) < s" and "d \<noteq> []"
    and "expected_seq (fst b) < s + length d" and "s + length d \<le> read_seq (fst b) + rcap (fst b)"
    and "s + length d < 2 ^ 32"
  shows "\<exists>b'. rb_recv b s d = Inr b' \<and> rb_inv b' \<and> read_seq (fst b') = read_seq (fst b)
    \<and> rcap (fst b') = rcap (fst b) \<and> expected_seq (fst b) \<le> expected_seq (fst b')
    \<and> (\<forall>q. rb_has (fst b') (snd b') q \<longleftrightarrow> rb_has (fst b) (snd b) q \<or> s \<le> q \<and> q < s + length d)
    \<and> (\<forall>q. read_seq (fst b) < q \<and> q < read_seq (fst b) + rcap (fst b) \<longrightarrow>
        byte_at (fst b') q = (if s \<le> q \<and> q < s + length d then d ! (q - s) else byte_at (fst b) q))"
proof -
  obtain rb h where b: "b = (rb, h)" by (cases b)
  obtain xs where ok: "rb_ok rb h xs" using assms(1) b by (auto simp: rb_inv_def)
  have s: "unat (of_nat s :: u32) = s" "unat (of_nat (length d) :: u32) = length d"
    using assms(6) by (simp_all add: unat_of_nat32)
  have "(of_nat (length d) :: u32) \<noteq> 0"
    using assms(3) s(2) by (metis length_0_conv unsigned_0)
  from recv_buffer_receive_ok [OF ok _ this, of "of_nat s" d] s assms b
  obtain rb' h' ys where "recv_buffer_receive rb h (of_nat s) (of_nat (length d)) d = Inr (rb', h')"
    "rb_ok rb' h' ys" "read_seq rb' = read_seq rb" "rcap rb' = rcap rb"
    "expected_seq rb \<le> expected_seq rb'"
    "\<forall>q. rb_has rb' h' q \<longleftrightarrow> rb_has rb h q \<or> s \<le> q \<and> q < s + length d"
    "\<forall>q. read_seq rb < q \<and> q < read_seq rb + rcap rb \<longrightarrow>
        byte_at rb' q = (if s \<le> q \<and> q < s + length d then d ! (q - s) else byte_at rb q)"
    by auto
  then show ?thesis using b by (intro exI [of _ "(rb', h')"]) (auto simp: rb_recv_def rb_inv_def)
qed

lemma rb_read_law:
  assumes "rb_inv b" and "read_seq (fst b) + n < expected_seq (fst b)"
  shows "\<exists>b'. rb_read junk b n =
      Inr (b', map (byte_at (fst b)) [read_seq (fst b) + 1..<read_seq (fst b) + 1 + n])
    \<and> rb_inv b' \<and> read_seq (fst b') = read_seq (fst b) + n \<and> rcap (fst b') = rcap (fst b)
    \<and> expected_seq (fst b') = expected_seq (fst b)
    \<and> (\<forall>q. rb_has (fst b') (snd b') q \<longleftrightarrow> read_seq (fst b) + n < q \<and> rb_has (fst b) (snd b) q)
    \<and> (\<forall>q. read_seq (fst b) + n < q \<longrightarrow> byte_at (fst b') q = byte_at (fst b) q)"
proof -
  obtain rb h where b: "b = (rb, h)" by (cases b)
  obtain xs where ok: "rb_ok rb h xs" using assms(1) b by (auto simp: rb_inv_def)
  then have wf: "rb_wf rb" and hok: "heap_ok h xs"
    and bd: "\<forall>x \<in> set xs. expected_seq rb \<le> unat (lo x)" by (simp_all add: rb_ok_def)
  have n: "unat (of_nat n :: u32) = n"
    using assms(2) b rb_wfD(6) [OF wf] by (intro unat_of_nat32) simp
  have "unat (of_nat n :: u32) < expected_seq rb - read_seq rb"
    "unat (of_nat n :: u32) \<le> length (malloc junk n)" using n assms(2) b by simp_all
  from recv_buffer_read_ok [OF ok this] n obtain rb' where r: "recv_buffer_read rb (malloc junk n) (of_nat n) =
      Inr (rb', map (\<lambda>k. byte_at rb (read_seq rb + 1 + k)) [0..<n])"
    "rb_ok rb' h xs" "read_seq rb' = read_seq rb + n" "rcap rb' = rcap rb"
    "expected_seq rb' = expected_seq rb" "\<forall>q. read_seq rb' < q \<longrightarrow> byte_at rb' q = byte_at rb q"
    by auto
  have "map (\<lambda>k. byte_at rb (read_seq rb + 1 + k)) [0..<n] =
      map (byte_at rb) [read_seq rb + 1..<read_seq rb + 1 + n]"
    by (rule nth_equalityI) (simp_all del: upt_Suc)
  moreover have "rb_has rb' h q \<longleftrightarrow> read_seq rb + n < q \<and> rb_has rb h q" for q
  proof -
    have "seg_has xs q \<Longrightarrow> expected_seq rb \<le> q" using bd by (auto simp: seg_has_def)
    then show ?thesis using r(3,5) assms(2) b by (auto simp: rb_has_list [OF hok])
  qed
  ultimately show ?thesis
    using r b by (intro exI [of _ "(rb', h)"]) (auto simp: rb_read_def rb_inv_def)
qed

interpretation rbr: reassembly rb_inv "\<lambda>b. read_seq (fst b)" "\<lambda>b. expected_seq (fst b)"
  "\<lambda>b. rcap (fst b)" "\<lambda>b. rb_has (fst b) (snd b)" "\<lambda>b. byte_at (fst b)" rb_recv "rb_read junk"
  for junk
proof
  show "rb_inv b \<Longrightarrow> read_seq (fst b) < q \<Longrightarrow> q < expected_seq (fst b) \<Longrightarrow> rb_has (fst b) (snd b) q" for b q
    by (simp add: rb_has_def)
  show "rb_inv b \<Longrightarrow> rb_has (fst b) (snd b) q \<Longrightarrow>
      read_seq (fst b) < q \<and> q < read_seq (fst b) + rcap (fst b)" for b q
    using rb_ok_in_window by (auto simp: rb_inv_def)
qed (fact rb_recv_law, fact rb_read_law)

section \<open>Properties\<close>

definition rb_run ::
  "(nat \<Rightarrow> u8) \<Rightarrow> (nat \<Rightarrow> u8) \<Rightarrow> recv_buffer_t \<times> seg_heap \<Rightarrow> nat set \<Rightarrow> u8 list \<Rightarrow>
    recv_buffer_t \<times> seg_heap \<Rightarrow> bool"
where
  "rb_run junk = reassembly_run rb_recv (rb_read junk) (\<lambda>b. read_seq (fst b))
     (\<lambda>b. expected_seq (fst b)) (\<lambda>b. rcap (fst b))"

lemma recv_buffer_initialize_ok:
  assumes "1 < unat capacity" and "unat capacity \<le> 2 ^ 31" and "unat isn + 1 < 2 ^ 32"
    and "recv_buffer_initialize (recv_buffer_create junk mem capacity) isn = Inr rb"
    and "heap_ok h []"
  shows "rb_ok rb h []" "read_seq rb = unat isn" "expected_seq rb = unat isn + 1"
    "rcap rb = unat capacity" "\<not> rb_has rb h q"
proof -
  have rb: "rb = (recv_buffer_create junk mem capacity)\<lparr>last_byte_read_seqnum := isn,
      last_byte_read_index := 0, next_byte_expected_index := 1\<rparr>"
    using assms(4) by (simp add: recv_buffer_initialize_def)
  show s: "read_seq rb = unat isn" and c: "rcap rb = unat capacity"
    by (simp_all add: rb recv_buffer_create_def rb_nat)
  have i: "read_idx rb = 0" by (simp add: rb rb_nat)
  show e: "expected_seq rb = unat isn + 1"
    using s c i by (simp add: expected_seq_def expected_dist_def dist1_def rb)
  have "rb_wf rb"
    unfolding rb_wf_def using assms(1-3) c e i by (simp add: rb recv_buffer_create_def)
  then show "rb_ok rb h []"
    using assms(5) by (simp add: rb_ok_def segs_sorted_def rb recv_buffer_create_def)
  show "\<not> rb_has rb h q" using s e by (simp add: rb_has_list [OF assms(5)])
qed

text \<open>A small buffer for the witnesses: capacity 16, everything up to 100 read.\<close>

definition rb_example :: recv_buffer_t where
  "rb_example = \<lparr>r_capacity = 16, last_byte_read_seqnum = 100, last_byte_read_index = 0,
     next_byte_expected_index = 1, r_buffer = [0, 0, 0, 0, 0, 0, 0, 0, 0, 0, 0, 0, 0, 0, 0, 0], r_start = Null, r_end = Null\<rparr>"

definition empty_heap :: seg_heap where
  "empty_heap = \<lparr>cells = Map.empty, brk = 0, fresh = seg_node 0 0 Null Null\<rparr>"

lemma rb_example_created:
  "recv_buffer_initialize (recv_buffer_create (\<lambda>_. 0) (rb_example\<lparr>r_capacity := 0\<rparr>) 16) 100 = Inr rb_example"
  by (simp add: recv_buffer_initialize_def recv_buffer_create_def rb_example_def malloc_def
    upt_rec)

lemma empty_heap_ok: "heap_ok empty_heap []"
  by (simp add: heap_ok_def empty_heap_def)

lemma rb_example_ok: "rb_ok rb_example empty_heap []" "read_seq rb_example = 100"
  "expected_seq rb_example = 101" "rcap rb_example = 16" "rb_wf rb_example"
  using recv_buffer_initialize_ok [OF _ _ _ rb_example_created empty_heap_ok]
  by (simp_all add: rb_ok_def)

text \<open>
  C2: Reassembly. From a fresh buffer and an allocator that zeroes, however the segments of a
  stream are cut, reordered and repeated: the bytes read so far are exactly the stream from
  the byte after the initial sequence number on, the acknowledgement number covers only
  bytes that arrived, and every byte that arrived was read or is held with its value.
\<close>

theorem recv_buffer_stream:
  assumes "1 < unat capacity" and "unat capacity \<le> 2 ^ 31" and "unat isn + 1 < 2 ^ 32"
    and "recv_buffer_initialize (recv_buffer_create junk mem capacity) isn = Inr rb0"
    and "heap_ok h0 []"
    and "rb_run junk S (rb0, h0) A out (rb, h)"
  shows "out = map S [unat isn + 1..<unat isn + 1 + length out]
    \<and> (\<forall>q. unat isn < q \<and> q < unat (get_next_byte_expected_seqnum rb) \<longrightarrow> q \<in> A)
    \<and> (\<forall>q \<in> A. q \<le> read_seq rb \<or> rb_has rb h q \<and> byte_at rb q = S q)"
proof -
  note init = recv_buffer_initialize_ok [OF assms(1-5)]
  have "rb_inv (rb0, h0)" using init(1) by (auto simp: rb_inv_def)
  moreover have "\<not> rb_has (fst (rb0, h0)) (snd (rb0, h0)) q" for q using init(5) by simp
  ultimately have r: "rb_inv (rb, h)" "read_seq rb = unat isn + length out"
    "out = map S [unat isn + 1..<unat isn + 1 + length out]"
    "\<forall>q. rb_has rb h q \<longleftrightarrow> q \<in> A \<and> read_seq rb < q" "\<forall>q. rb_has rb h q \<longrightarrow> byte_at rb q = S q"
    "{unat isn<..read_seq rb} \<subseteq> A"
    using rbr.run_reassembles [OF assms(6) [unfolded rb_run_def]]
    unfolding fst_conv snd_conv init(2) by blast+
  have "rb_wf rb" using r(1) by (auto simp: rb_inv_def rb_ok_def)
  then have e: "unat (get_next_byte_expected_seqnum rb) = expected_seq rb" by (rule next_expected(2))
  have "q \<in> A" if "unat isn < q" "q < expected_seq rb" for q
  proof (cases "q \<le> read_seq rb")
    case True
    then show ?thesis using r(6) that by auto
  next
    case False
    then have "rb_has rb h q" using that by (simp add: rb_has_def)
    then show ?thesis using r(4) by blast
  qed
  moreover have "q \<le> read_seq rb \<or> rb_has rb h q \<and> byte_at rb q = S q" if "q \<in> A" for q
    using r(4,5) that by (cases "q \<le> read_seq rb") auto
  ultimately show ?thesis using r(3) e by simp
qed

lemma rb_example_run:
  "rb_run (\<lambda>_. 0) (\<lambda>q. of_nat (q - 100)) (rb_example, empty_heap) {101..<104} [1, 2]
    (rb_example\<lparr>last_byte_read_seqnum := 102, last_byte_read_index := 2, next_byte_expected_index := 4,
       r_buffer := [0, 1, 2, 3, 0, 0, 0, 0, 0, 0, 0, 0, 0, 0, 0, 0]\<rparr>, empty_heap)"
proof -
  let ?S = "\<lambda>q. of_nat (q - 100) :: u8"
  let ?b1 = "rb_example\<lparr>next_byte_expected_index := 4, r_buffer := [0, 1, 2, 3, 0, 0, 0, 0, 0, 0, 0, 0, 0, 0, 0, 0]\<rparr>"
  have "rb_run (\<lambda>_. 0) ?S (rb_example, empty_heap) {} [] (rb_example, empty_heap)"
    unfolding rb_run_def by (rule reassembly_run.start)
  moreover have "rb_recv (rb_example, empty_heap) 101 [1, 2, 3] = Inr (?b1, empty_heap)"
    by (simp add: rb_recv_def recv_buffer_receive_def recv_buffer_can_receive_def rb_example_def
      get_next_byte_expected_seqnum_def seqnum_to_index_recv_def safe_memcpy_to_recvbuf_def
      memcpy_def Let_def)
  moreover have "[1, 2, 3] = map ?S [101..<101 + length [1, 2, 3 :: u8]]"
    by (simp add: upt_rec)
  ultimately have "rb_run (\<lambda>_. 0) ?S (rb_example, empty_heap) ({} \<union> {101..<101 + length [1, 2, 3 :: u8]}) []
      (?b1, empty_heap)"
    unfolding rb_run_def
    by (intro reassembly_run.arrive [where s = 101 and d = "[1, 2, 3]"])
      (simp_all add: rb_example_ok)
  moreover have "rb_read (\<lambda>_. 0) (?b1, empty_heap) 2 =
      Inr ((?b1\<lparr>last_byte_read_seqnum := 102, last_byte_read_index := 2\<rparr>, empty_heap), [1, 2])"
    by (simp add: rb_read_def recv_buffer_read_def recv_buffer_max_read_def rb_example_def
      get_next_byte_expected_seqnum_def seqnum_to_index_recv_def safe_memcpy_from_recvbuf_def
      memcpy_def malloc_def Let_def upt_rec)
  moreover have "read_seq ?b1 + 2 < expected_seq ?b1"
    by (simp add: read_seq_def expected_seq_def expected_dist_def dist1_def rb_nat rb_example_def)
  ultimately have "rb_run (\<lambda>_. 0) ?S (rb_example, empty_heap) ({} \<union> {101..<101 + length [1, 2, 3 :: u8]})
      ([] @ [1, 2]) (?b1\<lparr>last_byte_read_seqnum := 102, last_byte_read_index := 2\<rparr>, empty_heap)"
    unfolding rb_run_def by (intro reassembly_run.deliver [where n = 2]) simp_all
  then show ?thesis by (simp add: rb_example_def)
qed

theorem recv_buffer_stream_witness:
  "[1, 2] = map (\<lambda>q. of_nat (q - 100) :: u8) [unat (100 :: u32) + 1..<unat (100 :: u32) + 1 + 2]"
proof -
  have "out = map (\<lambda>q. of_nat (q - 100) :: u8) [unat (100 :: u32) + 1..<unat (100 :: u32) + 1 + length out]"
    if "out = [1, 2]" for out
    unfolding that
    by (rule recv_buffer_stream [OF _ _ _ rb_example_created empty_heap_ok rb_example_run, THEN conjunct1]) simp_all
  then have "[1, 2] = map (\<lambda>q. of_nat (q - 100) :: u8) [unat (100 :: u32) + 1..<unat (100 :: u32) + 1 + length [1, 2 :: u8]]"
    by blast
  then show ?thesis by simp
qed

text \<open>
  C14: One receive. A segment that starts after the last byte read, brings something new and
  ends inside the window is stored: the buffer then holds exactly the old bytes and the
  segment's, with the segment's values where they overlap, the invariant holds again, and
  the next byte expected does not go back. Every other segment aborts the process.
\<close>

theorem recv_buffer_receive_correct:
  assumes "rb_ok rb h xs" and "len \<noteq> 0" and "unat len \<le> length data" and "unat s + unat len < 2 ^ 32"
  shows "if read_seq rb < unat s \<and> expected_seq rb < unat s + unat len
      \<and> unat s + unat len \<le> read_seq rb + rcap rb
    then \<exists>rb' h' ys. recv_buffer_receive rb h s len data = Inr (rb', h')
      \<and> rb_ok rb' h' ys \<and> read_seq rb' = read_seq rb \<and> rcap rb' = rcap rb
      \<and> expected_seq rb \<le> expected_seq rb'
      \<and> (\<forall>q. rb_has rb' h' q \<longleftrightarrow> rb_has rb h q \<or> unat s \<le> q \<and> q < unat s + unat len)
      \<and> (\<forall>q. rb_has rb' h' q \<longrightarrow>
          byte_at rb' q = (if unat s \<le> q \<and> q < unat s + unat len then data ! (q - unat s) else byte_at rb q))
    else recv_buffer_receive rb h s len data = Inl AssertFail"
proof (cases "read_seq rb < unat s \<and> expected_seq rb < unat s + unat len
      \<and> unat s + unat len \<le> read_seq rb + rcap rb")
  case True
  then obtain rb' h' ys where r: "recv_buffer_receive rb h s len data = Inr (rb', h')"
    "rb_ok rb' h' ys" "read_seq rb' = read_seq rb" "rcap rb' = rcap rb"
    "expected_seq rb \<le> expected_seq rb'"
    "\<forall>q. rb_has rb' h' q \<longleftrightarrow> rb_has rb h q \<or> unat s \<le> q \<and> q < unat s + unat len"
    "\<forall>q. read_seq rb < q \<and> q < read_seq rb + rcap rb \<longrightarrow>
        byte_at rb' q = (if unat s \<le> q \<and> q < unat s + unat len then data ! (q - unat s) else byte_at rb q)"
    using recv_buffer_receive_ok [OF assms(1) _ assms(2,3) _ _ assms(4)] by blast
  have "\<forall>q. rb_has rb' h' q \<longrightarrow>
      byte_at rb' q = (if unat s \<le> q \<and> q < unat s + unat len then data ! (q - unat s) else byte_at rb q)"
    using r(3,4,7) rb_ok_in_window [OF r(2)] by simp
  then show ?thesis using True r by auto
next
  case False
  have wf: "rb_wf rb" using assms(1) by (simp add: rb_ok_def)
  have "recv_buffer_can_receive rb s len \<noteq> 0"
    using can_receive_cases [OF wf assms(2)] assms(4) False by auto
  then show ?thesis using False by (auto simp: recv_buffer_receive_def)
qed

theorem recv_buffer_receive_correct_witness:
  "(\<exists>rb' h'. recv_buffer_receive rb_example empty_heap 103 2 [3, 4] = Inr (rb', h')
      \<and> rb_has rb' h' 104 \<and> \<not> rb_has rb' h' 102 \<and> byte_at rb' 104 = 4)
    \<and> recv_buffer_receive rb_example empty_heap 115 2 [3, 4] = Inl AssertFail"
proof -
  have "\<not> rb_has rb_example empty_heap 102"
    using rb_example_ok by (simp add: rb_has_list [OF empty_heap_ok])
  then show ?thesis
    using recv_buffer_receive_correct [OF rb_example_ok(1), of 2 "[3, 4]" 103]
      recv_buffer_receive_correct [OF rb_example_ok(1), of 2 "[3, 4]" 115] rb_example_ok
    by fastforce
qed

text \<open>
  The test a packet must pass before it is received, with its three reasons to refuse:
  it starts at or before the last byte read (2), it ends before the next byte expected (3),
  it ends beyond the window (1).
\<close>

lemma recv_buffer_can_receive_correct:
  assumes "rb_wf rb" and "len \<noteq> 0" and "unat s + unat len \<le> 2 ^ 32"
  shows "recv_buffer_can_receive rb s len =
    (if unat s \<le> read_seq rb then 2
     else if unat s + unat len \<le> expected_seq rb then 3
     else if read_seq rb + rcap rb < unat s + unat len then 1 else 0)"
  using can_receive_cases [OF assms] .

lemma recv_buffer_can_receive_correct_witness:
  "recv_buffer_can_receive rb_example 101 15 = 0 \<and> recv_buffer_can_receive rb_example 101 16 = 1
    \<and> recv_buffer_can_receive rb_example 100 1 = 2"
  using recv_buffer_can_receive_correct [OF rb_example_ok(5), of 15 101]
    recv_buffer_can_receive_correct [OF rb_example_ok(5), of 16 101]
    recv_buffer_can_receive_correct [OF rb_example_ok(5), of 1 100]
  by (simp add: rb_example_ok)

text \<open>
  The advertised window is exact: a segment that starts at the next byte expected passes
  the test if and only if it is no longer than \<open>recv_buffer_max_receive\<close>.
\<close>

lemma recv_buffer_window_exact:
  assumes "rb_wf rb" and "len \<noteq> 0" and "expected_seq rb + unat len \<le> 2 ^ 32"
  shows "recv_buffer_can_receive rb (get_next_byte_expected_seqnum rb) len = 0
    \<longleftrightarrow> len \<le> recv_buffer_max_receive rb"
proof -
  note d = rb_wfD [OF assms(1)]
  have "0 < unat len" using assms(2) by (simp add: unat_gt_0)
  then show ?thesis
    using can_receive_cases [OF assms(1,2), of "get_next_byte_expected_seqnum rb"] assms(3) d(10,11)
    by (simp add: next_expected(2) [OF assms(1)] word_le_nat_alt max_receive [OF assms(1)]) linarith
qed

lemma recv_buffer_window_exact_witness:
  "recv_buffer_can_receive rb_example (get_next_byte_expected_seqnum rb_example) 15 = 0
    \<longleftrightarrow> 15 \<le> recv_buffer_max_receive rb_example"
  by (rule recv_buffer_window_exact [OF rb_example_ok(5)]) (simp_all add: rb_example_ok)

text \<open>
  C33: A read of at most the bytes available delivers them in order into the front of the
  caller's block, frees their room and keeps everything else; a longer read aborts.
\<close>

theorem recv_buffer_read_correct:
  assumes "rb_ok rb h xs" and "unat len \<le> length dst"
  shows "if unat len < expected_seq rb - read_seq rb
    then \<exists>rb'. recv_buffer_read rb dst len =
          Inr (rb', map (\<lambda>k. byte_at rb (read_seq rb + 1 + k)) [0..<unat len] @ drop (unat len) dst)
        \<and> rb_ok rb' h xs \<and> read_seq rb' = read_seq rb + unat len
        \<and> expected_seq rb' = expected_seq rb
        \<and> (\<forall>q. read_seq rb' < q \<longrightarrow> byte_at rb' q = byte_at rb q)
    else recv_buffer_read rb dst len = Inl AssertFail"
proof -
  have wf: "rb_wf rb" using assms(1) by (simp add: rb_ok_def)
  have "recv_buffer_read rb dst len = Inl AssertFail" if "\<not> unat len < expected_seq rb - read_seq rb"
  proof -
    have "\<not> len \<le> recv_buffer_max_read rb"
      using that rb_wfD(10) [OF wf] by (simp add: word_le_nat_alt max_read [OF wf])
    then show ?thesis by (simp add: recv_buffer_read_def)
  qed
  then show ?thesis using recv_buffer_read_ok [OF assms(1) _ assms(2)] by auto
qed

theorem recv_buffer_read_correct_witness:
  "recv_buffer_read rb_example [7, 8] 0 = Inr (rb_example, [7, 8])
    \<and> recv_buffer_read rb_example [7, 8] 2 = Inl AssertFail"
proof -
  have "\<exists>rb'. recv_buffer_read rb_example [7, 8] 0 = Inr (rb', [7, 8])"
    using recv_buffer_read_correct [OF rb_example_ok(1), of 0 "[7, 8]"] by (auto simp: rb_example_ok)
  then have "recv_buffer_read rb_example [7, 8] 0 = Inr (rb_example, [7, 8])"
    by (auto simp: recv_buffer_read_def)
  moreover have "recv_buffer_read rb_example [7, 8] 2 = Inl AssertFail"
    using recv_buffer_read_correct [OF rb_example_ok(1), of 2 "[7, 8]"] by (simp add: rb_example_ok)
  ultimately show ?thesis by blast
qed

text \<open>
  Cleaning a buffer frees all its segments, each once.
\<close>

lemma recv_buffer_clean_correct:
  assumes "rb_ok rb h xs"
  shows "\<exists>h'. recv_buffer_clean rb h = Inr h' \<and> cells h' = Map.empty"
  using assms segment_clean_list by (auto simp: rb_ok_def recv_buffer_clean_def)

lemma recv_buffer_clean_correct_witness:
  "\<exists>h'. recv_buffer_clean rb_example empty_heap = Inr h' \<and> cells h' = Map.empty"
  using recv_buffer_clean_correct [OF rb_example_ok(1)] .

section \<open>Where the code falls short\<close>

text \<open>
  C34: Segments are allocated with \<open>malloc\<close> and their links are not all assigned. Where the
  allocator does not hand out zeroed memory, the segment made for the first out-of-order
  data has two unassigned links, and the next data that is accepted reads one of them.
\<close>

theorem recv_buffer_second_segment_uninitialised:
  assumes "r_start rb = Null" and "get_next_byte_expected_seqnum rb < s"
    and "prevp (fresh h) = Uninit" and "nextp (fresh h) = Uninit"
    and "recv_buffer_receive rb h s len data = Inr (rb1, h1)"
    and "recv_buffer_can_receive rb1 s2 len2 = 0"
  shows "recv_buffer_receive rb1 h1 s2 len2 data2 = Inl UninitRead"
proof -
  have ns: "\<not> s \<le> get_next_byte_expected_seqnum rb" using assms(2) by simp
  obtain b where r1: "rb1 = rb\<lparr>r_buffer := b, r_start := Ref (brk h), r_end := Ref (brk h)\<rparr>"
    and h1: "cells h1 (brk h) = Some (seg_node s (s + len - 1) Uninit Uninit)" "brk h1 = Suc (brk h)"
    using assms(1,3-5) ns
    by (cases "fresh h") (auto simp: recv_buffer_receive_def Let_def malloc_segment_def set_range_def)
  have "segment_merge h1 (Ref (brk h)) (Ref (brk h)) s2 e2 = Inl UninitRead" for e2
  proof (cases "s + len - 1 < s2 \<or> e2 < s")
    case True
    then show ?thesis using h1 by (auto simp: segment_merge_def)
  next
    case False
    have "get_next (snd (malloc_segment h1)) (Ref (brk h)) = Inl UninitRead"
      using h1 by (simp add: get_next_def malloc_segment_def)
    then show ?thesis
      using False h1 by (simp add: segment_merge_def Let_def split_beta)
  qed
  then show ?thesis
    using assms(6) r1 by (simp add: recv_buffer_receive_def)
qed

definition junk_heap :: seg_heap where
  "junk_heap = \<lparr>cells = Map.empty, brk = 0, fresh = seg_node 0 0 Uninit Uninit\<rparr>"

lemma junk_heap_receive:
  "recv_buffer_receive rb_example junk_heap 103 2 [3, 4] =
    Inr (rb_example\<lparr>r_buffer := [0, 0, 0, 3, 4, 0, 0, 0, 0, 0, 0, 0, 0, 0, 0, 0], r_start := Ref 0, r_end := Ref 0\<rparr>,
         junk_heap\<lparr>cells := [0 \<mapsto> seg_node 103 104 Uninit Uninit], brk := 1\<rparr>)"
  by (simp add: recv_buffer_receive_def recv_buffer_can_receive_def rb_example_def
      get_next_byte_expected_seqnum_def seqnum_to_index_recv_def safe_memcpy_to_recvbuf_def
      memcpy_def Let_def malloc_segment_def set_range_def junk_heap_def)

theorem recv_buffer_second_segment_uninitialised_witness:
  "recv_buffer_receive
     (rb_example\<lparr>r_buffer := [0, 0, 0, 3, 4, 0, 0, 0, 0, 0, 0, 0, 0, 0, 0, 0], r_start := Ref 0, r_end := Ref 0\<rparr>)
     (junk_heap\<lparr>cells := [0 \<mapsto> seg_node 103 104 Uninit Uninit], brk := 1\<rparr>) 101 2 [1, 2] = Inl UninitRead"
  by (rule recv_buffer_second_segment_uninitialised [OF _ _ _ _ junk_heap_receive])
    (simp_all add: rb_example_def junk_heap_def get_next_byte_expected_seqnum_def
      recv_buffer_can_receive_def)

text \<open>
  In-order data that ends exactly where the first out-of-order segment begins is not
  joined with it: afterwards the next byte expected, and so the acknowledgement, is a byte
  the buffer already holds.
\<close>

lemma recv_buffer_adjacent_not_joined:
  assumes "rb_ok rb h (x # xs)" and "read_seq rb < unat s" and "unat s \<le> expected_seq rb"
    and "expected_seq rb < unat s + unat len" and "unat s + unat len = unat (lo x)"
    and "unat len \<le> length data"
  shows "\<exists>rb' h'. recv_buffer_receive rb h s len data = Inr (rb', h')
    \<and> unat (get_next_byte_expected_seqnum rb') = unat (lo x) \<and> rb_has rb' h' (unat (lo x))"
proof -
  have wf: "rb_wf rb" and so: "segs_sorted (x # xs)" and hok: "heap_ok h (x # xs)"
    and b: "unat (hi x) < read_seq rb + rcap rb" "unat (hi x) + 1 < 2 ^ 32"
    using assms(1) by (simp_all add: rb_ok_def)
  have x: "lo x \<le> hi x" using so by (simp add: segs_sorted_def)
  then have x': "unat (lo x) \<le> unat (hi x)" by (simp add: word_le_nat_alt)
  have len: "len \<noteq> 0" and l0: "0 < unat len" using assms(3,4) by (auto simp: unat_gt_0)
  have "unat (s + len) = unat s + unat len" using assms(5) unat_u32_less [of "lo x"] by (intro unat_add32) simp
  then have e: "unat (s + len - 1) = unat s + unat len - 1"
    using l0 by (subst unat_sub32) simp_all
  have "\<not> hi x < s" "\<not> lo x \<le> s + len - 1"
    using assms(5) x' e l0 by (simp_all add: word_nat)
  then have "seg_mid (x # xs) s (s + len - 1) = []" by (simp add: seg_mid_def)
  then have m: "merged (brk h) s (s + len - 1) (seg_mid (x # xs) s (s + len - 1)) = (brk h, s, s + len - 1)"
    by (simp add: merged_def)
  have fits: "unat s + unat len \<le> read_seq rb + rcap rb" "unat s + unat len < 2 ^ 32"
    using assms(5) x' b by linarith+
  from receive_more [OF assms(1) _ assms(2) len assms(6) assms(4) fits] assms(3)
  obtain rb' h' ys c where r: "recv_buffer_receive rb h s len data = Inr (rb'\<lparr>r_buffer := c\<rparr>, h')"
    "rb_ok rb' h' ys" "expected_seq rb' = unat (s + len - 1) + 1"
    "\<forall>q. rb_has rb' h' q \<longleftrightarrow> rb_has rb h q \<or> unat s \<le> q \<and> q < unat s + unat len"
    unfolding m by auto
  have "rb_wf rb'" using r(2) by (simp add: rb_ok_def)
  then have "unat (get_next_byte_expected_seqnum rb') = unat (lo x)"
    using next_expected(2) r(3) e l0 assms(5) by simp
  moreover have "get_next_byte_expected_seqnum (rb'\<lparr>r_buffer := c\<rparr>) = get_next_byte_expected_seqnum rb'"
    by (simp add: get_next_byte_expected_seqnum_def)
  moreover have "rb_has (rb'\<lparr>r_buffer := c\<rparr>) h' (unat (lo x))"
  proof -
    have "rb_has rb h (unat (lo x))" using x' by (simp add: rb_has_list [OF hok])
    then have "rb_has rb' h' (unat (lo x))" using r(4) by simp
    then show ?thesis by (simp add: rb_has_def)
  qed
  ultimately show ?thesis using r(1) by auto
qed

lemma rb_example_gap_ok:
  "rb_ok (rb_example\<lparr>r_start := Ref 0, r_end := Ref 0\<rparr>)
    (empty_heap\<lparr>cells := [0 \<mapsto> seg_node 103 104 Null Null], brk := 1\<rparr>) [(0, 103, 104)]"
  using rb_example_ok by (simp add: rb_ok_def heap_ok_def empty_heap_def segs_sorted_def)

lemma recv_buffer_adjacent_not_joined_witness:
  "\<exists>rb' h'. recv_buffer_receive (rb_example\<lparr>r_start := Ref 0, r_end := Ref 0\<rparr>)
      (empty_heap\<lparr>cells := [0 \<mapsto> seg_node 103 104 Null Null], brk := 1\<rparr>) 101 2 [1, 2] = Inr (rb', h')
    \<and> unat (get_next_byte_expected_seqnum rb') = 103"
  using recv_buffer_adjacent_not_joined [OF rb_example_gap_ok, of 101 2 "[1, 2]"]
  by (auto simp: rb_example_ok)

end
