(* ===== verification/Socket.thy ===== *)
theory Socket
  imports Packet Send_Buffer Recv_Stream
begin

text \<open>
  \<open>inc/cmu_tcp.h\<close> and \<open>src/cmu_tcp.c\<close>: the socket structure and the calls of the
  application (\<open>cmu_socket\<close>, \<open>cmu_read\<close>, \<open>cmu_write\<close>, \<open>cmu_close\<close>), and the operating
  system as the program sees it: datagrams that have arrived, datagrams sent, the clock,
  what fresh memory holds. A section under a mutex is one step, so the locks have no state.
\<close>

section \<open>Types of \<open>cmu_tcp.h\<close>\<close>

text \<open>The address of the peer; the port is in network byte order, as in \<open>struct sockaddr_in\<close>.\<close>

record sockaddr_in =
  sin_addr :: u32
  sin_port :: u16

record window_t =
  next_seq_expected :: u32
  last_ack_received :: u32
  rcvd_advertised_window :: u16

datatype cmu_socket_type_t = TCP_INITIATOR | TCP_LISTENER

datatype cmu_socket_state_t =
  CLOSED | LISTEN | SYN_RCVD | SYN_SENT | ESTABLISHED | FIN_WAIT_1 | FIN_WAIT_2 | CLOSING
  | TIME_WAIT | CLOSE_WAIT | LAST_ACK

datatype cmu_read_mode_t = NO_FLAG | NO_WAIT | TIMEOUT

record cmu_socket_t =
  sock_type :: cmu_socket_type_t
  my_port :: u16
  conn :: sockaddr_in
  recv_buf :: recv_buffer_t
  send_buf :: send_buffer_t
  dying :: int
  window :: window_t
  state :: cmu_socket_state_t
  initialized :: bool
  last_send_ms :: int

definition EXIT_SUCCESS :: int where "EXIT_SUCCESS = 0"
definition EXIT_ERROR :: int where "EXIT_ERROR = - 1"

definition DEFAULT_BUFF_SIZE :: u32 where "DEFAULT_BUFF_SIZE = 1024"

section \<open>The process and its surroundings\<close>

text \<open>
  The socket, the heap of segments, the datagrams that have arrived and were not yet
  received (with their senders), the datagrams sent (with their destinations), the clock,
  the contents of fresh memory, and the three counters of \<open>backend.c\<close>.
\<close>

record host =
  sock :: cmu_socket_t
  segs :: seg_heap
  inbox :: "(sockaddr_in \<times> u8 list) list"
  outbox :: "(sockaddr_in \<times> u8 list) list"
  clock :: timeval
  mem_junk :: "nat \<Rightarrow> u8"
  counter1 :: int
  counter2 :: int
  counter3 :: int

definition upd_sock :: "(cmu_socket_t \<Rightarrow> cmu_socket_t) \<Rightarrow> host \<Rightarrow> host" where
  "upd_sock f w = w\<lparr>sock := f (sock w)\<rparr>"

definition upd_window :: "(window_t \<Rightarrow> window_t) \<Rightarrow> host \<Rightarrow> host" where
  "upd_window f = upd_sock (\<lambda>s. s\<lparr>window := f (window s)\<rparr>)"

text \<open>
  \<open>sendto(sock->socket, packet, plen, 0, &sock->conn, \<dots>)\<close>: sends the first \<open>plen\<close> bytes of
  the block; given \<open>NULL\<close> it fails and sends nothing. A datagram that is sent may be lost
  later, so \<open>outbox\<close> is what left the process.
\<close>

definition sendto :: "host \<Rightarrow> u8 list option \<Rightarrow> u16 \<Rightarrow> host res" where
  "sendto w packet plen =
     (case packet of None \<Rightarrow> Inr w
      | Some p \<Rightarrow>
          if unat plen \<le> length p
          then Inr (w\<lparr>outbox := outbox w @ [(conn (sock w), take (unat plen) p)]\<rparr>)
          else Inl OutOfBounds)"

text \<open>
  \<open>recvfrom\<close> with \<open>MSG_PEEK\<close>: the first bytes of the next datagram, which stays; the
  address of its sender overwrites \<open>sock->conn\<close>. \<open>None\<close>: nothing has arrived.
\<close>

definition recvfrom_peek :: "host \<Rightarrow> nat \<Rightarrow> (u8 list \<times> host) option" where
  "recvfrom_peek w n =
     (case inbox w of [] \<Rightarrow> None
      | (from, d) # _ \<Rightarrow> Some (take n d, upd_sock (\<lambda>s. s\<lparr>conn := from\<rparr>) w))"

text \<open>\<open>recvfrom\<close> without flags takes the datagram, however much of it fits, or waits.\<close>

definition recvfrom :: "host \<Rightarrow> nat \<Rightarrow> (u8 list \<times> host) res" where
  "recvfrom w n =
     (case inbox w of [] \<Rightarrow> Inl Blocked
      | (from, d) # rest \<Rightarrow>
          Inr (take n d, upd_sock (\<lambda>s. s\<lparr>conn := from\<rparr>) (w\<lparr>inbox := rest\<rparr>)))"

text \<open>
  \<open>while (buf_size < plen) { n = recvfrom(\<dots>, pkt + buf_size, plen - buf_size, \<dots>); \<dots> }\<close>,
  as a recursion over the datagrams: \<open>pkt\<close> is what has been filled in.
\<close>

fun recv_loop ::
  "sockaddr_in \<Rightarrow> (sockaddr_in \<times> u8 list) list \<Rightarrow> nat \<Rightarrow> u8 list \<Rightarrow>
    (u8 list \<times> sockaddr_in \<times> (sockaddr_in \<times> u8 list) list) res"
where
  "recv_loop c [] plen pkt = (if length pkt < plen then Inl Blocked else Inr (pkt, c, []))"
| "recv_loop c ((from, d) # rest) plen pkt =
     (if length pkt < plen
      then recv_loop from rest plen (pkt @ take (plen - length pkt) d)
      else Inr (pkt, c, (from, d) # rest))"

definition recv_packet :: "host \<Rightarrow> nat \<Rightarrow> (u8 list \<times> host) res" where
  "recv_packet w plen =
     bindF (recv_loop (conn (sock w)) (inbox w) plen []) (\<lambda>(pkt, c, rest).
       Inr (pkt, upd_sock (\<lambda>s. s\<lparr>conn := c\<rparr>) (w\<lparr>inbox := rest\<rparr>)))"

section \<open>The calls of the application\<close>

text \<open>
  What the operating system answers to \<open>cmu_socket\<close>: whether \<open>socket\<close>,
  \<open>pthread_cond_init\<close> and \<open>bind\<close> succeed, the value of \<open>rand\<close>, the port that
  \<open>getsockname\<close> reports.
\<close>

record os_answers =
  socket_ok :: bool
  cond_ok :: bool
  bind_ok :: bool
  rand_value :: u32
  bound_port :: u16

definition INADDR_ANY :: u32 where "INADDR_ANY = 0"

text \<open>
  \<open>cmu_socket\<close> up to the start of the backend thread. \<open>inet_addr\<close> of the C library is a
  parameter; the case for a socket type outside the enumeration does not arise.
\<close>

definition init_socket ::
  "os_answers \<Rightarrow> host \<Rightarrow> cmu_socket_type_t \<Rightarrow> host res"
where
  "init_socket os w socket_type =
     (let s = (sock w)\<lparr>sock_type := socket_type, dying := 0,
                window := \<lparr>next_seq_expected = 0, last_ack_received = rand_value os,
                           rcvd_advertised_window = of_nat CP1_WINDOW_SIZE\<rparr>,
                recv_buf := recv_buffer_create (mem_junk w) (recv_buf (sock w)) DEFAULT_BUFF_SIZE,
                send_buf := send_buffer_create (mem_junk w) (send_buf (sock w)) DEFAULT_BUFF_SIZE\<rparr>
      in bindF (send_buffer_initialize (clock w) (send_buf s) (last_ack_received (window s))) (\<lambda>sb.
           Inr (w\<lparr>sock := s\<lparr>send_buf := sb, state := CLOSED, initialized := False,
                             last_send_ms := 0\<rparr>\<rparr>)))"

definition cmu_socket ::
  "(string \<Rightarrow> u32) \<Rightarrow> os_answers \<Rightarrow> host \<Rightarrow> cmu_socket_type_t \<Rightarrow> int \<Rightarrow> string option \<Rightarrow>
    (host \<times> int) res"
where
  "cmu_socket inet_addr os w socket_type port server_ip =
     (if \<not> socket_ok os then Inr (w, EXIT_ERROR)
      else if \<not> cond_ok os
      then Inr (upd_sock (\<lambda>s. s\<lparr>sock_type := socket_type, dying := 0\<rparr>) w, EXIT_ERROR)
      else bindF (init_socket os w socket_type) (\<lambda>w.
        case socket_type of
          TCP_INITIATOR \<Rightarrow>
            (case server_ip of None \<Rightarrow> Inr (w, EXIT_ERROR)
             | Some ip \<Rightarrow>
                 let w = upd_sock (\<lambda>s. s\<lparr>conn :=
                           \<lparr>sin_addr = inet_addr ip, sin_port = htons (word_of_int port)\<rparr>\<rparr>) w
                 in if \<not> bind_ok os then Inr (w, EXIT_ERROR)
                    else Inr (upd_sock (\<lambda>s. s\<lparr>my_port := ntohs (bound_port os)\<rparr>) w, EXIT_SUCCESS))
        | TCP_LISTENER \<Rightarrow>
            if \<not> bind_ok os then Inr (w, EXIT_ERROR)
            else Inr (upd_sock (\<lambda>s. s\<lparr>conn :=
                        \<lparr>sin_addr = htonl INADDR_ANY, sin_port = htons (word_of_int port)\<rparr>,
                        my_port := ntohs (bound_port os)\<rparr>) w, EXIT_SUCCESS)))"

text \<open>
  \<open>cmu_read\<close>: the bytes read go to the front of \<open>buf\<close>; the result is also the number of
  bytes, or the error code. It waits for the handshake and, in the mode \<open>NO_FLAG\<close>, for data.
\<close>

definition cmu_read ::
  "host \<Rightarrow> u8 list \<Rightarrow> int \<Rightarrow> cmu_read_mode_t \<Rightarrow> (host \<times> u8 list \<times> int) res"
where
  "cmu_read w buf len flags =
     (if \<not> initialized (sock w) then Inl Blocked
      else if len < 0 then Inr (w, buf, EXIT_ERROR)
      else if flags = TIMEOUT then Inr (w, buf, EXIT_ERROR)
      else if flags = NO_FLAG \<and> recv_buffer_max_read (recv_buf (sock w)) = 0 then Inl Blocked
      else if recv_buffer_max_read (recv_buf (sock w)) > 0
      then let read_len = (if recv_buffer_max_read (recv_buf (sock w)) > word_of_int len
                           then len else uint (recv_buffer_max_read (recv_buf (sock w))))
           in bindF (recv_buffer_read (recv_buf (sock w)) buf (word_of_int read_len)) (\<lambda>(rb, buf).
                Inr (upd_sock (\<lambda>s. s\<lparr>recv_buf := rb\<rparr>) w, buf, read_len))
      else Inr (w, buf, 0))"

text \<open>
  \<open>cmu_write\<close>, one turn of its loop: \<open>written\<close> bytes of \<open>buf\<close> are stored, \<open>len\<close> are left.
  A turn that finds no room stores nothing and the loop turns again.
\<close>

definition cmu_write_turn ::
  "host \<Rightarrow> u8 list \<Rightarrow> u32 \<Rightarrow> int \<Rightarrow> (host \<times> u32 \<times> int) res"
where
  "cmu_write_turn w buf written len =
     (let room = send_buffer_max_write (send_buf (sock w));
          write_len = (if word_of_int len > room then room else word_of_int len)
      in if write_len > 0
         then bindF (send_buffer_write (send_buf (sock w)) (drop (unat written) buf) write_len) (\<lambda>sb.
                Inr (upd_sock (\<lambda>s. s\<lparr>send_buf := sb\<rparr>) w, written + write_len, len - uint write_len))
         else Inr (w, written, len))"

text \<open>
  The whole call. Between two turns the backend runs, \<open>others\<close> says how it changes the
  state each time; the loop ends when nothing is left, and if it is still turning when
  \<open>others\<close> is used up, it is waiting.
\<close>

fun cmu_write_loop ::
  "(host \<Rightarrow> host res) list \<Rightarrow> host \<Rightarrow> u8 list \<Rightarrow> u32 \<Rightarrow> int \<Rightarrow> (host \<times> int) res"
where
  "cmu_write_loop others w buf written len =
     (if len > 0
      then bindF (cmu_write_turn w buf written len) (\<lambda>(w, written, len).
        if len > 0
        then (case others of [] \<Rightarrow> Inl Blocked
              | f # others \<Rightarrow> bindF (f w) (\<lambda>w. cmu_write_loop others w buf written len))
        else Inr (w, EXIT_SUCCESS))
      else Inr (w, EXIT_SUCCESS))"

declare cmu_write_loop.simps [simp del]

definition cmu_write ::
  "(host \<Rightarrow> host res) list \<Rightarrow> host \<Rightarrow> u8 list \<Rightarrow> int \<Rightarrow> (host \<times> int) res"
where
  "cmu_write others w buf len =
     (if \<not> initialized (sock w) then Inl Blocked else cmu_write_loop others w buf 0 len)"

text \<open>
  \<open>cmu_close\<close> in its two halves: the request, and, once the backend thread has ended
  (\<open>pthread_join\<close>), the release of the buffers.
\<close>

definition cmu_close_request :: "host \<Rightarrow> host res" where
  "cmu_close_request w =
     (if \<not> initialized (sock w) then Inl Blocked
      else Inr (upd_sock (\<lambda>s. s\<lparr>dying := 1\<rparr>) w))"

definition cmu_close_finish :: "host \<Rightarrow> host res" where
  "cmu_close_finish w =
     bindF (recv_buffer_clean (recv_buf (sock w)) (segs w)) (\<lambda>h. Inr (w\<lparr>segs := h\<rparr>))"

section \<open>What the calls do\<close>

lemma upd_sock_simps [simp]:
  "sock (upd_sock f w) = f (sock w)" "segs (upd_sock f w) = segs w" "inbox (upd_sock f w) = inbox w"
  "outbox (upd_sock f w) = outbox w" "clock (upd_sock f w) = clock w"
  "mem_junk (upd_sock f w) = mem_junk w" "counter1 (upd_sock f w) = counter1 w"
  "counter2 (upd_sock f w) = counter2 w" "counter3 (upd_sock f w) = counter3 w"
  by (simp_all add: upd_sock_def)

lemma upd_window_simps [simp]:
  "window (sock (upd_window f w)) = f (window (sock w))" "segs (upd_window f w) = segs w"
  "inbox (upd_window f w) = inbox w" "outbox (upd_window f w) = outbox w"
  "clock (upd_window f w) = clock w" "mem_junk (upd_window f w) = mem_junk w"
  "counter1 (upd_window f w) = counter1 w" "counter2 (upd_window f w) = counter2 w"
  "counter3 (upd_window f w) = counter3 w"
  "send_buf (sock (upd_window f w)) = send_buf (sock w)"
  "recv_buf (sock (upd_window f w)) = recv_buf (sock w)" "conn (sock (upd_window f w)) = conn (sock w)"
  "my_port (sock (upd_window f w)) = my_port (sock w)" "state (sock (upd_window f w)) = state (sock w)"
  "dying (sock (upd_window f w)) = dying (sock w)" "sock_type (sock (upd_window f w)) = sock_type (sock w)"
  "initialized (sock (upd_window f w)) = initialized (sock w)"
  by (simp_all add: upd_window_def)

text \<open>
  \<open>cmu_socket\<close> never faults; it succeeds exactly when the operating system grants the
  socket, the condition variable and the address and an initiator was given an address; and
  then both buffers are fresh: nothing queued, the send buffer based at the random initial
  sequence number, the receive buffer waiting for its own.
\<close>

lemma cmu_socket_correct:
  shows "\<exists>w' c. cmu_socket inet_addr os w ty port ip = Inr (w', c)
    \<and> (c = EXIT_SUCCESS \<longleftrightarrow> socket_ok os \<and> cond_ok os \<and> bind_ok os \<and> (ty = TCP_LISTENER \<or> ip \<noteq> None))
    \<and> (c = EXIT_SUCCESS \<longrightarrow>
        sb_wf (send_buf (sock w')) \<and> s_capacity (send_buf (sock w')) = 1024
        \<and> sb_abs (send_buf (sock w')) = \<lparr>q_base = rand_value os, q_inflight = [], q_fresh = []\<rparr>
        \<and> last_ack_received (window (sock w')) = rand_value os
        \<and> r_capacity (recv_buf (sock w')) = 1024 \<and> last_byte_read_seqnum (recv_buf (sock w')) = 0
        \<and> r_start (recv_buf (sock w')) = Null \<and> r_end (recv_buf (sock w')) = Null
        \<and> sock_type (sock w') = ty \<and> state (sock w') = CLOSED \<and> \<not> initialized (sock w')
        \<and> sin_port (conn (sock w')) = htons (word_of_int port)
        \<and> outbox w' = outbox w \<and> inbox w' = inbox w)"
proof -
  let ?sb = "send_buffer_create (mem_junk w) (send_buf (sock w)) 1024"
  obtain sb where sb: "send_buffer_initialize (clock w) ?sb (rand_value os) = Inr sb"
    "sb_wf sb" "s_capacity sb = 1024" "sb_abs sb = \<lparr>q_base = rand_value os, q_inflight = [], q_fresh = []\<rparr>"
    using send_buffer_initialize_abs [of ?sb "clock w" "rand_value os"]
    by (auto simp: send_buffer_create_def)
  have i: "\<exists>w'. init_socket os w ty = Inr w' \<and> sb_wf (send_buf (sock w'))
      \<and> s_capacity (send_buf (sock w')) = 1024
      \<and> sb_abs (send_buf (sock w')) = \<lparr>q_base = rand_value os, q_inflight = [], q_fresh = []\<rparr>
      \<and> last_ack_received (window (sock w')) = rand_value os
      \<and> r_capacity (recv_buf (sock w')) = 1024 \<and> last_byte_read_seqnum (recv_buf (sock w')) = 0
      \<and> r_start (recv_buf (sock w')) = Null \<and> r_end (recv_buf (sock w')) = Null
      \<and> sock_type (sock w') = ty \<and> state (sock w') = CLOSED \<and> \<not> initialized (sock w')
      \<and> outbox w' = outbox w \<and> inbox w' = inbox w"
    using sb by (simp add: init_socket_def DEFAULT_BUFF_SIZE_def Let_def recv_buffer_create_def)
  then obtain w' where "init_socket os w ty = Inr w'" by blast
  with i show ?thesis
    by (cases ty; cases ip) (auto simp: cmu_socket_def EXIT_SUCCESS_def EXIT_ERROR_def Let_def)
qed

lemma cmu_read_ok:
  assumes "initialized (sock w)" and "flags \<noteq> TIMEOUT"
    and "rb_ok (recv_buf (sock w)) (segs w) xs"
    and "0 \<le> len" and "len < 2 ^ 31" and "nat len \<le> length buf"
    and "0 < expected_seq (recv_buf (sock w)) - read_seq (recv_buf (sock w)) - 1"
  defines "rb \<equiv> recv_buf (sock w)"
  defines "n \<equiv> min (nat len) (expected_seq rb - read_seq rb - 1)"
  shows "\<exists>rb'. cmu_read w buf len flags = Inr (upd_sock (\<lambda>s. s\<lparr>recv_buf := rb'\<rparr>) w,
        map (\<lambda>k. byte_at rb (read_seq rb + 1 + k)) [0..<n] @ drop n buf, int n)
    \<and> rb_ok rb' (segs w) xs \<and> read_seq rb' = read_seq rb + n \<and> rcap rb' = rcap rb
    \<and> expected_seq rb' = expected_seq rb \<and> (\<forall>q. read_seq rb' < q \<longrightarrow> byte_at rb' q = byte_at rb q)"
proof -
  have wf: "rb_wf rb" using assms(3) by (simp add: rb_ok_def rb_def)
  note d = rb_wfD [OF wf]
  have mr: "unat (recv_buffer_max_read rb) = expected_seq rb - read_seq rb - 1" by (rule max_read [OF wf])
  have wl: "unat (word_of_int len :: u32) = nat len"
    using assms(4,5) by (simp add: unsigned_of_int take_bit_int_eq_self)
  let ?r = "if recv_buffer_max_read rb > word_of_int len then len else uint (recv_buffer_max_read rb)"
  have r: "?r = int n"
    using assms(4) wl mr by (auto simp: n_def word_less_nat_alt uint_nat min_def)
  have nn: "n < expected_seq rb - read_seq rb" "n < 2 ^ 32" "n \<le> length buf"
    using assms(5-7) d(6) by (auto simp: n_def rb_def)
  have wn: "unat (word_of_int (int n) :: u32) = n" using nn(2) by (simp add: unat_of_nat32)
  have mz: "recv_buffer_max_read rb > 0" "recv_buffer_max_read rb \<noteq> 0"
    using assms(7) mr by (auto simp: word_less_nat_alt rb_def)
  obtain rb' where rd: "recv_buffer_read rb buf (word_of_int (int n)) =
      Inr (rb', map (\<lambda>k. byte_at rb (read_seq rb + 1 + k)) [0..<n] @ drop n buf)"
    "rb_ok rb' (segs w) xs" "read_seq rb' = read_seq rb + n" "rcap rb' = rcap rb"
    "expected_seq rb' = expected_seq rb" "\<forall>q. read_seq rb' < q \<longrightarrow> byte_at rb' q = byte_at rb q"
    using recv_buffer_read_ok [OF assms(3), of "word_of_int (int n)" buf] nn wn unfolding rb_def by auto
  have "\<not> len < 0" using assms(4) by simp
  then have "cmu_read w buf len flags = Inr (upd_sock (\<lambda>s. s\<lparr>recv_buf := rb'\<rparr>) w,
      map (\<lambda>k. byte_at rb (read_seq rb + 1 + k)) [0..<n] @ drop n buf, int n)"
    unfolding cmu_read_def rb_def [symmetric] Let_def r rd(1)
    using assms(1,2) mz by simp
  then show ?thesis using rd(2-) by blast
qed

text \<open>
  \<open>cmu_read\<close> on an initialised socket with data: it delivers, in order and into the
  front of the buffer, as many bytes as asked for and available, says how many, and frees
  their room.
\<close>

lemma cmu_read_correct:
  assumes "initialized (sock w)" and "flags \<noteq> TIMEOUT"
    and "rb_ok (recv_buf (sock w)) (segs w) xs"
    and "0 \<le> len" and "len < 2 ^ 31" and "nat len \<le> length buf"
    and "0 < expected_seq (recv_buf (sock w)) - read_seq (recv_buf (sock w)) - 1"
  defines "rb \<equiv> recv_buf (sock w)"
  defines "n \<equiv> min (nat len) (expected_seq rb - read_seq rb - 1)"
  shows "\<exists>w'. cmu_read w buf len flags =
      Inr (w', map (\<lambda>k. byte_at rb (read_seq rb + 1 + k)) [0..<n] @ drop n buf, int n)
    \<and> rb_ok (recv_buf (sock w')) (segs w') xs
    \<and> read_seq (recv_buf (sock w')) = read_seq rb + n
    \<and> expected_seq (recv_buf (sock w')) = expected_seq rb"
proof -
  obtain rb' where "cmu_read w buf len flags = Inr (upd_sock (\<lambda>s. s\<lparr>recv_buf := rb'\<rparr>) w,
        map (\<lambda>k. byte_at rb (read_seq rb + 1 + k)) [0..<n] @ drop n buf, int n)"
    "rb_ok rb' (segs w) xs" "read_seq rb' = read_seq rb + n" "expected_seq rb' = expected_seq rb"
    using cmu_read_ok [OF assms(1-7)] unfolding rb_def [symmetric] n_def [symmetric] by blast
  then show ?thesis by simp
qed

lemma cmu_write_turn_ok:
  assumes "sb_wf (send_buf (sock w))" and "0 < len" and "len < 2 ^ 31"
    and "unat written + nat len \<le> length buf"
  defines "sb \<equiv> send_buf (sock w)"
  defines "n \<equiv> min (nat len) (cap sb - 1 - length (q_inflight (sb_abs sb)) - length (q_fresh (sb_abs sb)))"
  shows "\<exists>sb'. cmu_write_turn w buf written len =
      Inr (upd_sock (\<lambda>s. s\<lparr>send_buf := sb'\<rparr>) w, written + of_nat n, len - int n)
    \<and> sb_wf sb' \<and> cap sb' = cap sb
    \<and> sb_abs sb' = (sb_abs sb)\<lparr>q_fresh := q_fresh (sb_abs sb) @ take n (drop (unat written) buf)\<rparr>"
proof -
  have wf: "sb_wf sb" using assms(1) by (simp add: sb_def)
  note d = sb_wfD [OF wf]
  have room: "unat (send_buffer_max_write sb) = cap sb - 1 - length (q_inflight (sb_abs sb)) - length (q_fresh (sb_abs sb))"
    using d by (simp add: max_write [OF wf] length_abs [OF wf])
  have wl: "unat (word_of_int len :: u32) = nat len"
    using assms(2,3) by (simp add: unsigned_of_int take_bit_int_eq_self)
  define k where "k = (if word_of_int len > send_buffer_max_write sb then send_buffer_max_write sb else word_of_int len)"
  have k: "unat k = n" "uint k = int n" "k = of_nat n"
  proof -
    show u: "unat k = n" using wl room by (auto simp: k_def n_def word_less_nat_alt min_def)
    then show "uint k = int n" by (simp add: uint_nat)
    show "k = of_nat n" using u unat_u32_less [of k] by (intro u32_eqI) (simp add: unat_of_nat32)
  qed
  show ?thesis
  proof (cases "n = 0")
    case True
    then have "k = 0" using k(3) by simp
    moreover have "upd_sock (\<lambda>s. s\<lparr>send_buf := sb\<rparr>) w = w" by (simp add: upd_sock_def sb_def)
    ultimately show ?thesis
      using True wf by (intro exI [of _ sb]) (simp add: cmu_write_turn_def Let_def k_def [symmetric] sb_def [symmetric])
  next
    case False
    then have k0: "k > 0" using k(1) by (simp add: word_less_nat_alt)
    have "k \<le> send_buffer_max_write sb" by (simp add: k_def not_less)
    moreover have "unat k \<le> length (drop (unat written) buf)"
      unfolding k(1) using assms(4) by (simp add: n_def)
    ultimately obtain sb' where "send_buffer_write sb (drop (unat written) buf) k = Inr sb'"
      "sb_wf sb'" "s_capacity sb' = s_capacity sb"
      "sb_abs sb' = (sb_abs sb)\<lparr>q_fresh := q_fresh (sb_abs sb) @ take n (drop (unat written) buf)\<rparr>"
      using send_buffer_write_abs [OF wf, of k "drop (unat written) buf"] k(1) by auto
    then show ?thesis
      using k0 k(2,3)
      by (intro exI [of _ sb']) (simp add: cmu_write_turn_def Let_def k_def [symmetric] sb_def [symmetric] cap_def)
  qed
qed


text \<open>
  One turn of \<open>cmu_write\<close> queues the next bytes of the caller's buffer, as many as are
  left and fit, behind those already queued.
\<close>

lemma cmu_write_turn_correct:
  assumes "sb_wf (send_buf (sock w))" and "0 < len" and "len < 2 ^ 31"
    and "unat written + nat len \<le> length buf"
  defines "sb \<equiv> send_buf (sock w)"
  defines "n \<equiv> min (nat len) (cap sb - 1 - length (q_inflight (sb_abs sb)) - length (q_fresh (sb_abs sb)))"
  shows "\<exists>w'. cmu_write_turn w buf written len = Inr (w', written + of_nat n, len - int n)
    \<and> sb_wf (send_buf (sock w')) \<and> cap (send_buf (sock w')) = cap sb
    \<and> sb_abs (send_buf (sock w')) =
        (sb_abs sb)\<lparr>q_fresh := q_fresh (sb_abs sb) @ take n (drop (unat written) buf)\<rparr>"
proof -
  obtain sb' where "cmu_write_turn w buf written len =
      Inr (upd_sock (\<lambda>s. s\<lparr>send_buf := sb'\<rparr>) w, written + of_nat n, len - int n)"
    "sb_wf sb'" "cap sb' = cap sb"
    "sb_abs sb' = (sb_abs sb)\<lparr>q_fresh := q_fresh (sb_abs sb) @ take n (drop (unat written) buf)\<rparr>"
    using cmu_write_turn_ok [OF assms(1-4)] unfolding sb_def [symmetric] n_def [symmetric] by blast
  then show ?thesis by simp
qed

text \<open>The state of a connected socket with the example buffers of both directions.\<close>

definition host_example :: host where
  "host_example = \<lparr>sock = \<lparr>sock_type = TCP_INITIATOR, my_port = 5000,
       conn = \<lparr>sin_addr = 1, sin_port = 0\<rparr>, recv_buf = rb_example, send_buf = sb_example, dying = 0,
       window = \<lparr>next_seq_expected = 101, last_ack_received = 101, rcvd_advertised_window = 1000\<rparr>,
       state = ESTABLISHED, initialized = True, last_send_ms = 0\<rparr>,
     segs = empty_heap, inbox = [], outbox = [], clock = (0, 0), mem_junk = (\<lambda>_. 0),
     counter1 = 0, counter2 = 0, counter3 = 0\<rparr>"

lemma host_example_simps [simp]:
  "send_buf (sock host_example) = sb_example" "recv_buf (sock host_example) = rb_example"
  "segs host_example = empty_heap" "initialized (sock host_example)"
  by (simp_all add: host_example_def)

definition rb_two_bytes :: recv_buffer_t where
  "rb_two_bytes = rb_example\<lparr>next_byte_expected_index := 3,
     r_buffer := [0, 8, 9, 0, 0, 0, 0, 0, 0, 0, 0, 0, 0, 0, 0, 0]\<rparr>"

lemma rb_two_bytes_ok: "rb_ok rb_two_bytes empty_heap []" "read_seq rb_two_bytes = 100"
  "expected_seq rb_two_bytes = 103"
  using empty_heap_ok
  by (simp_all add: rb_two_bytes_def rb_ok_def rb_wf_def rb_nat expected_seq_def expected_dist_def
    dist1_def segs_sorted_def rb_example_def)

lemma cmu_socket_correct_witness:
  "\<exists>w'. cmu_socket (\<lambda>_. 1) \<lparr>socket_ok = True, cond_ok = True, bind_ok = True, rand_value = 77, bound_port = 9\<rparr>
      host_example TCP_INITIATOR 15441 (Some ''10.0.1.1'') = Inr (w', 0)
    \<and> last_ack_received (window (sock w')) = 77"
proof -
  let ?os = "\<lparr>socket_ok = True, cond_ok = True, bind_ok = True, rand_value = 77, bound_port = 9\<rparr>"
  from cmu_socket_correct [of "\<lambda>_. 1" ?os host_example TCP_INITIATOR 15441 "Some ''10.0.1.1''"]
  obtain w' c where "cmu_socket (\<lambda>_. 1) ?os host_example TCP_INITIATOR 15441 (Some ''10.0.1.1'') = Inr (w', c)"
    "c = EXIT_SUCCESS" "last_ack_received (window (sock w')) = 77"
    by auto
  then show ?thesis by (simp add: EXIT_SUCCESS_def)
qed

lemma cmu_read_correct_witness:
  "\<exists>w'. cmu_read (upd_sock (\<lambda>s. s\<lparr>recv_buf := rb_two_bytes\<rparr>) host_example) [0, 0, 0] 3 NO_FLAG =
    Inr (w', [8, 9, 0], 2)"
proof -
  let ?w = "upd_sock (\<lambda>s. s\<lparr>recv_buf := rb_two_bytes\<rparr>) host_example"
  have b: "byte_at rb_two_bytes 101 = 8" "byte_at rb_two_bytes 102 = 9"
    by (simp_all add: byte_at_def ring_slot_def rb_nat rb_two_bytes_def rb_example_def)
  show ?thesis
    using cmu_read_correct [of ?w NO_FLAG "[]" 3 "[0, 0, 0]"] b
    by (auto simp: rb_two_bytes_ok upt_rec)
qed

lemma cmu_write_turn_correct_witness:
  "\<exists>w'. cmu_write_turn host_example [1, 2, 3] 0 3 = Inr (w', 3, 0)
    \<and> q_fresh (sb_abs (send_buf (sock w'))) = [1, 2, 3]"
proof -
  have "q_inflight (sb_abs sb_example) = []" "q_fresh (sb_abs sb_example) = []" "cap sb_example = 8"
    by (simp_all add: sb_abs_def pending_def ring_get_def sb_example_def cap_def acked_idx_def
      sent_dist_def written_dist_def dist0_def dist1_def)
  then show ?thesis
    using cmu_write_turn_correct [of host_example 3 0 "[1, 2, 3]"] sb_example_wf by auto
qed

section \<open>Reading in pieces\<close>

lemma recv_buffer_read_moves:
  assumes "recv_buffer_read rb dst len = Inr (rb', d)" and "rb_wf rb"
  shows "rb' = rb\<lparr>last_byte_read_seqnum := last_byte_read_seqnum rb + len,
    last_byte_read_index := (last_byte_read_index rb + len) mod r_capacity rb\<rparr>"
proof (cases "len = 0")
  case True
  have "unat (last_byte_read_index rb) < unat (r_capacity rb)"
    using rb_wfD(4) [OF assms(2)] by (simp add: rb_nat)
  then have "last_byte_read_index rb mod r_capacity rb = last_byte_read_index rb"
    by (intro u32_eqI) (simp add: unat_mod32)
  then show ?thesis using assms(1) True by (simp add: recv_buffer_read_def)
next
  case False
  with assms(1) show ?thesis
    by (auto simp: recv_buffer_read_def umod_def split: if_splits)
qed

text \<open>
  C29: How the application cuts its reads makes no difference: reading \<open>m\<close> bytes and then
  \<open>n\<close> bytes leaves the receive buffer in exactly the state that reading \<open>m + n\<close> bytes at
  once leaves it in, and delivers the same bytes, wherever the ring wraps.
\<close>

theorem recv_buffer_read_split:
  assumes "rb_ok rb h xs" and "unat m + unat n < expected_seq rb - read_seq rb"
    and "unat m \<le> length d1" and "unat n \<le> length d2" and "unat m + unat n \<le> length d3"
  shows "\<exists>rb1 rb2 a b c. recv_buffer_read rb d1 m = Inr (rb1, a) \<and> recv_buffer_read rb1 d2 n = Inr (rb2, b)
    \<and> recv_buffer_read rb d3 (m + n) = Inr (rb2, c)
    \<and> take (unat m) a @ take (unat n) b = take (unat m + unat n) c"
proof -
  have wf: "rb_wf rb" using assms(1) by (simp add: rb_ok_def)
  note d = rb_wfD [OF wf]
  have mn: "unat (m + n) = unat m + unat n"
    using assms(2) d(5,6,9) by (intro unat_add32) (simp add: expected_seq_def)
  obtain rb1 where r1: "recv_buffer_read rb d1 m =
        Inr (rb1, map (\<lambda>k. byte_at rb (read_seq rb + 1 + k)) [0..<unat m] @ drop (unat m) d1)"
      "rb_ok rb1 h xs" "read_seq rb1 = read_seq rb + unat m" "expected_seq rb1 = expected_seq rb"
      "\<forall>q. read_seq rb1 < q \<longrightarrow> byte_at rb1 q = byte_at rb q"
    using recv_buffer_read_ok [OF assms(1) _ assms(3)] assms(2) by auto
  have "unat n < expected_seq rb1 - read_seq rb1" using assms(2) r1(3,4) by simp
  then obtain rb2 where r2: "recv_buffer_read rb1 d2 n =
        Inr (rb2, map (\<lambda>k. byte_at rb1 (read_seq rb1 + 1 + k)) [0..<unat n] @ drop (unat n) d2)"
    using recv_buffer_read_ok [OF r1(2) _ assms(4)] by blast
  obtain rb3 where r3: "recv_buffer_read rb d3 (m + n) =
        Inr (rb3, map (\<lambda>k. byte_at rb (read_seq rb + 1 + k)) [0..<unat m + unat n] @ drop (unat m + unat n) d3)"
    using recv_buffer_read_ok [OF assms(1), of "m + n" d3] assms(2,5) mn by auto
  have small: "read_idx rb < 2 ^ 31" "unat m + unat n < 2 ^ 31" "(read_idx rb + unat m) mod rcap rb < 2 ^ 31"
    using d(2,4,11) assms(2) mod_less_divisor [OF d(1), of "read_idx rb + unat m"] by linarith+
  have i: "unat (last_byte_read_index rb + m) = read_idx rb + unat m"
      "unat ((last_byte_read_index rb + m) mod r_capacity rb + n) = (read_idx rb + unat m) mod rcap rb + unat n"
      "unat (last_byte_read_index rb + (m + n)) = read_idx rb + (unat m + unat n)"
    using small mn by (simp_all add: read_idx_def rcap_def unat_add32 unat_mod32)
  have "((last_byte_read_index rb + m) mod r_capacity rb + n) mod r_capacity rb =
      (last_byte_read_index rb + (m + n)) mod r_capacity rb"
    by (rule u32_eqI) (simp add: unat_mod32 i rcap_def [symmetric] mod_add_left_eq add.assoc)
  then have "rb2 = rb3"
    using recv_buffer_read_moves [OF r1(1) wf] recv_buffer_read_moves [OF r2] r1(2)
      recv_buffer_read_moves [OF r3 wf]
    by (simp add: rb_ok_def add.assoc)
  have b: "map (\<lambda>k. byte_at rb1 (read_seq rb1 + 1 + k)) [0..<unat n] =
      map (\<lambda>k. byte_at rb (read_seq rb + 1 + k)) [unat m..<unat m + unat n]"
    by (rule nth_equalityI) (simp_all add: r1(3,5) add.assoc)
  have "map (\<lambda>k. byte_at rb (read_seq rb + 1 + k)) [0..<unat m]
      @ map (\<lambda>k. byte_at rb1 (read_seq rb1 + 1 + k)) [0..<unat n] =
    map (\<lambda>k. byte_at rb (read_seq rb + 1 + k)) [0..<unat m + unat n]"
    unfolding b by (simp add: upt_add_eq_append [of 0])
  then show ?thesis
    using r1(1) r2 r3 unfolding \<open>rb2 = rb3\<close> by (intro exI conjI) (assumption+, simp)
qed

text \<open>The two bytes 8 and 9 read one by one.\<close>

theorem recv_buffer_read_split_witness:
  "\<exists>rb1 rb2 a b c. recv_buffer_read rb_two_bytes [0] 1 = Inr (rb1, a) \<and> recv_buffer_read rb1 [0] 1 = Inr (rb2, b)
    \<and> recv_buffer_read rb_two_bytes [0, 0] 2 = Inr (rb2, c) \<and> take 1 a @ take 1 b = take 2 c"
  using recv_buffer_read_split [OF rb_two_bytes_ok(1), of 1 1 "[0]" "[0]" "[0, 0]"]
  by (simp add: rb_two_bytes_ok numeral_2_eq_2 del: One_nat_def)

end
