(* ===== verification/Backend.thy ===== *)
theory Backend
  imports Socket
begin

text \<open>
  \<open>src/backend.c\<close>: the thread behind a socket. Each C function is a function on the state of
  the process, \<open>host\<close>; a packet is handled as the code does it, header field by header
  field. A blocking call that finds nothing ends in \<open>Blocked\<close>; the polls of the client's
  handshake, the number of turns of the server's, and what the application does between two
  turns of the main loop are arguments.
\<close>

definition MIN_u32 :: "u32 \<Rightarrow> u32 \<Rightarrow> u32" where "MIN_u32 X Y = (if X < Y then X else Y)"
definition MAX_u32 :: "u32 \<Rightarrow> u32 \<Rightarrow> u32" where "MAX_u32 X Y = (if X > Y then X else Y)"

definition hdr_len :: u16 where "hdr_len = of_nat sizeof_header"

text \<open>
  A packet without extension from this socket to its peer; a pure control packet has no
  payload either.
\<close>

definition make_packet ::
  "host \<Rightarrow> u32 \<Rightarrow> u32 \<Rightarrow> u16 \<Rightarrow> u8 \<Rightarrow> u16 \<Rightarrow> u8 list \<Rightarrow> u16 \<Rightarrow> u8 list option res"
where
  "make_packet w seq ack plen flags adv_window payload payload_len =
     create_packet (mem_junk w) (my_port (sock w)) (ntohs (sin_port (conn (sock w)))) seq ack
       hdr_len plen flags adv_window 0 [] payload payload_len"

section \<open>\<open>handle_message\<close>\<close>

definition handle_ack :: "host \<Rightarrow> u32 \<Rightarrow> host res" where
  "handle_ack w acknum =
     (if acknum = last_ack_received (window (sock w)) then Inr w
      else
        let w = upd_window (\<lambda>v. v\<lparr>last_ack_received := MAX_u32 (last_ack_received v) acknum\<rparr>) w
        in bindF (send_buffer_update_ack (clock w) (send_buf (sock w)) acknum) (\<lambda>sb.
             Inr (upd_sock (\<lambda>s. s\<lparr>send_buf := sb\<rparr>) w)))"

text \<open>Lines 92 to 115: the answer to a packet with data.\<close>

definition send_pure_ack :: "host \<Rightarrow> host res" where
  "send_pure_ack w =
     (let seq = last_ack_received (window (sock w));
          ack = next_seq_expected (window (sock w));
          plen = hdr_len + 0 + 0;
          adv_window = ucast (recv_buffer_max_receive (recv_buf (sock w)))
      in bindF (make_packet w seq ack plen ACK_FLAG_MASK adv_window [] 0) (\<lambda>packet.
           sendto w packet plen))"

definition handle_data :: "host \<Rightarrow> u8 list \<Rightarrow> u16 \<Rightarrow> host res" where
  "handle_data w pkt payload_len =
     bindF (get_seq pkt) (\<lambda>seqnum.
     bindF (if recv_buffer_can_receive (recv_buf (sock w)) seqnum (ucast payload_len) = 0
            then bindF (get_payload pkt) (\<lambda>p.
                 bindF (recv_buffer_receive (recv_buf (sock w)) (segs w) seqnum (ucast payload_len)
                          (drop p pkt)) (\<lambda>(rb, h).
                   Inr (upd_sock (\<lambda>s. s\<lparr>recv_buf := rb\<rparr>) (w\<lparr>segs := h\<rparr>))))
            else Inr w) (\<lambda>w.
       send_pure_ack (upd_window (\<lambda>v. v\<lparr>next_seq_expected :=
         get_next_byte_expected_seqnum (recv_buf (sock w))\<rparr>) w)))"

definition handle_message :: "host \<Rightarrow> u8 list \<Rightarrow> host res" where
  "handle_message w pkt =
     bindF (get_flags pkt) (\<lambda>flags.
     bindF (assertF (flags AND ACK_FLAG_MASK \<noteq> 0)) (\<lambda>_.
     bindF (assertF (flags AND SYN_FLAG_MASK = 0)) (\<lambda>_.
     if flags AND FIN_FLAG_MASK \<noteq> 0 then Inr w
     else
       bindF (get_ack pkt) (\<lambda>acknum.
       bindF (handle_ack w acknum) (\<lambda>w.
       bindF (get_advertised_window pkt) (\<lambda>adv.
       let w = upd_window (\<lambda>v. v\<lparr>rcvd_advertised_window := adv\<rparr>) w in
       bindF (get_payload_len pkt) (\<lambda>payload_len.
         if payload_len \<noteq> 0 then handle_data w pkt payload_len else Inr w)))))))"

section \<open>The handshakes\<close>

text \<open>The limits are never assigned, so no packet is withheld.\<close>

definition counter1_lim :: int where "counter1_lim = 0"
definition counter2_lim :: int where "counter2_lim = 0"
definition counter3_lim :: int where "counter3_lim = 0"

definition send_syn :: "host \<Rightarrow> u8 list option \<Rightarrow> u16 \<Rightarrow> host res" where
  "send_syn w packet plen =
     (if counter1 w \<ge> counter1_lim then sendto w packet plen
      else Inr (w\<lparr>counter1 := counter1 w + 1\<rparr>))"

text \<open>Lines 187 to 233: the client has taken a header from the socket.\<close>

definition client_syn_ack :: "host \<Rightarrow> u8 list \<Rightarrow> host res" where
  "client_syn_ack w hdr =
     bindF (get_flags hdr) (\<lambda>flags.
     bindF (assertF (flags AND SYN_FLAG_MASK \<noteq> 0)) (\<lambda>_.
     bindF (assertF (flags AND ACK_FLAG_MASK \<noteq> 0)) (\<lambda>_.
     bindF (get_seq hdr) (\<lambda>hdr_seq.
     bindF (recv_buffer_initialize (recv_buf (sock w)) hdr_seq) (\<lambda>rb.
     let w = upd_sock (\<lambda>s. s\<lparr>recv_buf := rb\<rparr>) w in
     bindF (get_ack hdr) (\<lambda>hdr_ack.
     bindF (assertF (hdr_ack = last_ack_received (window (sock w)) + 1)) (\<lambda>_.
     let w = upd_window (\<lambda>v. v\<lparr>last_ack_received := hdr_ack, next_seq_expected := hdr_seq + 1\<rparr>) w;
         plen = hdr_len + 0 + 0 in
     bindF (make_packet w (last_ack_received (window (sock w))) (next_seq_expected (window (sock w)))
              plen ACK_FLAG_MASK (of_nat CP1_WINDOW_SIZE) [] 0) (\<lambda>packet.
     bindF (if counter2 w \<ge> counter2_lim then sendto w packet plen
            else Inr (w\<lparr>counter2 := counter2 w + 1\<rparr>)) (\<lambda>w.
       Inr (upd_sock (\<lambda>s. s\<lparr>state := ESTABLISHED\<rparr>) w))))))))))"

text \<open>One turn of the client's loop; \<open>timed_out\<close> says that \<open>poll\<close> saw nothing in time.\<close>

definition client_turn :: "host \<Rightarrow> u8 list option \<Rightarrow> u16 \<Rightarrow> bool \<Rightarrow> host res" where
  "client_turn w packet plen timed_out =
     (if timed_out \<or> inbox w = [] then send_syn w packet plen
      else case recvfrom_peek w sizeof_header of
          None \<Rightarrow> Inl Blocked
        | Some (hdr, w) \<Rightarrow>
            if length hdr = sizeof_header
            then bindF (recvfrom w sizeof_header) (\<lambda>(hdr, w).
                 bindF (assertF (length hdr = sizeof_header)) (\<lambda>_. client_syn_ack w hdr))
            else Inr w)"

fun client_loop :: "host \<Rightarrow> u8 list option \<Rightarrow> u16 \<Rightarrow> bool list \<Rightarrow> host res" where
  "client_loop w packet plen [] = (if state (sock w) = ESTABLISHED then Inr w else Inl Blocked)"
| "client_loop w packet plen (timed_out # polls) =
     (if state (sock w) = ESTABLISHED then Inr w
      else bindF (client_turn w packet plen timed_out) (\<lambda>w. client_loop w packet plen polls))"

definition init_handshake_client :: "host \<Rightarrow> bool list \<Rightarrow> host res" where
  "init_handshake_client w polls =
     bindF (assertF (sock_type (sock w) = TCP_INITIATOR)) (\<lambda>_.
     let plen = hdr_len + 0 + 0 in
     bindF (make_packet w (last_ack_received (window (sock w))) 0 plen SYN_FLAG_MASK
              (of_nat CP1_WINDOW_SIZE) [] 0) (\<lambda>packet.
     bindF (send_syn w packet plen) (\<lambda>w.
     bindF (client_loop (upd_sock (\<lambda>s. s\<lparr>state := SYN_SENT\<rparr>) w) packet plen polls) (\<lambda>w.
       Inr (upd_sock (\<lambda>s. s\<lparr>initialized := True\<rparr>) w)))))"

definition send_syn_ack :: "host \<Rightarrow> u8 list option \<Rightarrow> u16 \<Rightarrow> host res" where
  "send_syn_ack w packet plen =
     (if counter3 w \<ge> counter3_lim then sendto w packet plen
      else Inr (w\<lparr>counter3 := counter3 w + 1\<rparr>))"

text \<open>The server in \<open>LISTEN\<close>: the next datagram must be a SYN. The packet it answers is kept.\<close>

definition server_listen :: "host \<Rightarrow> (host \<times> u8 list option) res" where
  "server_listen w =
     bindF (recvfrom w sizeof_header) (\<lambda>(hdr, w).
     bindF (assertF (length hdr = sizeof_header)) (\<lambda>_.
     bindF (get_flags hdr) (\<lambda>flags.
     bindF (assertF (flags = SYN_FLAG_MASK)) (\<lambda>_.
     bindF (get_seq hdr) (\<lambda>hdr_seq.
     bindF (recv_buffer_initialize (recv_buf (sock w)) hdr_seq) (\<lambda>rb.
     let w = upd_window (\<lambda>v. v\<lparr>next_seq_expected := hdr_seq + 1\<rparr>)
               (upd_sock (\<lambda>s. s\<lparr>recv_buf := rb, initialized := True\<rparr>) w);
         plen = hdr_len + 0 + 0 in
     bindF (make_packet w (last_ack_received (window (sock w))) (next_seq_expected (window (sock w)))
              plen (SYN_FLAG_MASK OR ACK_FLAG_MASK) (of_nat CP1_WINDOW_SIZE) [] 0) (\<lambda>packet.
     bindF (send_syn_ack w packet plen) (\<lambda>w.
       Inr (upd_sock (\<lambda>s. s\<lparr>state := SYN_RCVD\<rparr>) w, packet)))))))))"

text \<open>The server in \<open>SYN_RCVD\<close>, one turn: an acknowledgement of its SYN, or the SYN again.\<close>

definition server_syn_rcvd :: "host \<Rightarrow> u8 list option \<Rightarrow> host res" where
  "server_syn_rcvd w packet =
     (case recvfrom_peek w sizeof_header of
        None \<Rightarrow> Inl Blocked
      | Some (hdr, w) \<Rightarrow>
          if length hdr = sizeof_header
          then bindF (get_plen hdr) (\<lambda>packet_len.
               bindF (recv_packet w (unat packet_len)) (\<lambda>(pkt, w).
               bindF (get_flags hdr) (\<lambda>flags.
               bindF (get_ack hdr) (\<lambda>hdr_ack.
               if flags AND ACK_FLAG_MASK \<noteq> 0 \<and> hdr_ack = last_ack_received (window (sock w)) + 1
               then handle_message (upd_sock (\<lambda>s. s\<lparr>state := ESTABLISHED\<rparr>) w) pkt
               else bindF (assertF (flags AND SYN_FLAG_MASK \<noteq> 0)) (\<lambda>_.
                      send_syn_ack w packet hdr_len)))))
          else Inr w)"

fun server_loop :: "nat \<Rightarrow> host \<Rightarrow> u8 list option \<Rightarrow> host res" where
  "server_loop 0 w packet = Inl Diverges"
| "server_loop (Suc n) w packet =
     (if state (sock w) = ESTABLISHED then Inr w
      else if state (sock w) = LISTEN
      then bindF (server_listen w) (\<lambda>(w, packet). server_loop n w packet)
      else bindF (assertF (state (sock w) = SYN_RCVD)) (\<lambda>_.
           bindF (server_syn_rcvd w packet) (\<lambda>w. server_loop n w packet)))"

definition init_handshake_server :: "host \<Rightarrow> nat \<Rightarrow> host res" where
  "init_handshake_server w turns =
     bindF (assertF (sock_type (sock w) = TCP_LISTENER)) (\<lambda>_.
       server_loop turns (upd_sock (\<lambda>s. s\<lparr>state := LISTEN\<rparr>) w) None)"

section \<open>Receiving\<close>

definition check_for_data :: "host \<Rightarrow> cmu_read_mode_t \<Rightarrow> host res" where
  "check_for_data w flags =
     (case recvfrom_peek w sizeof_header of
        None \<Rightarrow> if flags = NO_FLAG then Inl Blocked else Inr w
      | Some (hdr, w) \<Rightarrow>
          if length hdr \<ge> sizeof_header
          then bindF (get_plen hdr) (\<lambda>plen.
               bindF (recv_packet w (unat plen)) (\<lambda>(pkt, w). handle_message w pkt))
          else Inr w)"

section \<open>Sending\<close>

text \<open>The payload of the next segment of \<open>n\<close> bytes, in 16 bits.\<close>

definition segment_len :: "u32 \<Rightarrow> u16" where
  "segment_len n = ucast (MIN_u32 n (of_nat MSS))"

lemma segment_len: "unat (segment_len n) = min (unat n) MSS"
proof -
  have "unat (MIN_u32 n 1375) = min (unat n) 1375"
    by (auto simp: MIN_u32_def word_less_nat_alt min_def)
  then show ?thesis by (simp add: segment_len_def unat_u16_u32)
qed

lemma segment_len_decreases:
  "0 < n \<Longrightarrow> unat (n - ucast (segment_len n)) < unat n"
  by (subst unat_sub32) (auto simp: segment_len word_less_nat_alt)

text \<open>The loop of \<open>multiple_send\<close>.\<close>

function send_fresh :: "host \<Rightarrow> u16 \<Rightarrow> u32 \<Rightarrow> host res" where
  "send_fresh w adv_window target_send_len =
     (if target_send_len > 0
      then
        let payload_len = segment_len target_send_len;
            seq = get_last_byte_sent_seqnum (send_buf (sock w)) + 1;
            plen = hdr_len + payload_len in
        bindF (umod (last_byte_sent_index (send_buf (sock w)) + 1) (s_capacity (send_buf (sock w))))
          (\<lambda>start_index.
        bindF (send_buffer_dump (send_buf (sock w)) start_index (ucast payload_len)
                 (malloc (mem_junk w) (unat payload_len))) (\<lambda>(sb, payload).
        let w = upd_sock (\<lambda>s. s\<lparr>send_buf := sb\<rparr>) w in
        bindF (make_packet w seq (next_seq_expected (window (sock w))) plen ACK_FLAG_MASK adv_window
                 payload payload_len) (\<lambda>msg.
        bindF (sendto w msg plen) (\<lambda>w.
          send_fresh w adv_window (target_send_len - ucast payload_len)))))
      else Inr w)"
  by pat_completeness auto
termination
  by (relation "measure (\<lambda>(w, adv_window, n). unat n)") (simp_all add: segment_len_decreases)

declare send_fresh.simps [simp del]

definition multiple_send :: "host \<Rightarrow> host res" where
  "multiple_send w =
     (let curr_adv_window = recv_buffer_max_receive (recv_buf (sock w));
          num_unacknowledged = get_unacknowledged_count (send_buf (sock w));
          adv = ucast (rcvd_advertised_window (window (sock w))) in
      if num_unacknowledged < adv
      then
        let num_fresh_data_available = send_buffer_max_new_dump (send_buf (sock w));
            max_fresh_data_allowed = adv - num_unacknowledged;
            target_send_len = (if num_fresh_data_available < max_fresh_data_allowed
                               then num_fresh_data_available else max_fresh_data_allowed)
        in send_fresh w (ucast curr_adv_window) target_send_len
      else Inr w)"

text \<open>The loop of \<open>resend_unacknowledged\<close>.\<close>

function resend_loop :: "host \<Rightarrow> u16 \<Rightarrow> u32 \<Rightarrow> u32 \<Rightarrow> u32 \<Rightarrow> u32 \<Rightarrow> host res" where
  "resend_loop w adv_window start_index start_seq num_sent target_send_len =
     (if target_send_len > 0
      then
        bindF (umod (start_index + num_sent) (s_capacity (send_buf (sock w)))) (\<lambda>curr_index.
        let curr_seq = start_seq + num_sent;
            payload_len = segment_len target_send_len;
            plen = hdr_len + payload_len in
        bindF (make_packet w curr_seq (next_seq_expected (window (sock w))) plen ACK_FLAG_MASK
                 adv_window (get_buf_at_index_send (send_buf (sock w)) curr_index) payload_len) (\<lambda>msg.
        bindF (sendto w msg plen) (\<lambda>w.
          resend_loop w adv_window start_index start_seq (num_sent + ucast payload_len)
            (target_send_len - ucast payload_len))))
      else Inr w)"
  by pat_completeness auto
termination
  by (relation "measure (\<lambda>(w, adv_window, i, q, m, n). unat n)") (simp_all add: segment_len_decreases)

declare resend_loop.simps [simp del]

definition resend_unacknowledged :: "host \<Rightarrow> host res" where
  "resend_unacknowledged w =
     (let sb = send_buf (sock w);
          adv_window = ucast (recv_buffer_max_receive (recv_buf (sock w)));
          num_unacknowledged = get_unacknowledged_count sb in
      bindF (assertF (num_unacknowledged > 0)) (\<lambda>_.
      let target_send_len =
            MIN_u32 num_unacknowledged (ucast (rcvd_advertised_window (window (sock w)))) in
      bindF (umod (last_byte_acked_index sb + 1) (s_capacity sb)) (\<lambda>start_index.
      if target_send_len = 0
      then
        let seq = last_byte_acked_seqnum sb + 1; plen = hdr_len + 1 in
        bindF (make_packet w seq (next_seq_expected (window (sock w))) plen ACK_FLAG_MASK adv_window
                 (get_buf_at_index_send sb start_index) 1) (\<lambda>msg.
          sendto w msg plen)
      else resend_loop w adv_window start_index (last_byte_acked_seqnum sb + 1) 0 target_send_len)))"

section \<open>The thread\<close>

text \<open>
  One turn of the main loop in its parts: the test for the end, and the section under
  \<open>send_lock\<close> that resends after a timeout or sends fresh data.
\<close>

definition backend_ends :: "host \<Rightarrow> bool" where
  "backend_ends w \<longleftrightarrow> dying (sock w) \<noteq> 0
     \<and> get_unacknowledged_count (send_buf (sock w)) + send_buffer_max_new_dump (send_buf (sock w)) = 0"

definition backend_send :: "host \<Rightarrow> host res" where
  "backend_send w =
     (if get_time_ms (clock w) - last_byte_acked_ts (send_buf (sock w)) > DEFAULT_TIMEOUT
         \<and> get_unacknowledged_count (send_buf (sock w)) > 0
      then resend_unacknowledged w
      else multiple_send w)"

text \<open>
  The main loop. \<open>others\<close> is what happens between two turns: datagrams arrive, time passes,
  the application reads, writes or closes. If it is used up the thread is still running.
\<close>

fun backend_loop :: "(host \<Rightarrow> host res) list \<Rightarrow> host \<Rightarrow> host res" where
  "backend_loop others w =
     (if backend_ends w then Inr w
      else bindF (check_for_data w NO_WAIT) (\<lambda>w.
           bindF (backend_send w) (\<lambda>w.
           case others of [] \<Rightarrow> Inl Blocked
           | f # others \<Rightarrow> bindF (f w) (\<lambda>w. backend_loop others w))))"

declare backend_loop.simps [simp del]

definition begin_backend ::
  "host \<Rightarrow> bool list \<Rightarrow> nat \<Rightarrow> (host \<Rightarrow> host res) list \<Rightarrow> host res"
where
  "begin_backend w polls turns others =
     bindF (if sock_type (sock w) = TCP_INITIATOR then init_handshake_client w polls
            else init_handshake_server w turns) (\<lambda>w. backend_loop others w)"

end
