(* ===== verification/Backend_Send.thy ===== *)
theory Backend_Send
  imports Backend
begin


text \<open>
  What the backend puts on the wire: \<open>multiple_send\<close> and \<open>resend_unacknowledged\<close> as
  operations on the queue of the send buffer, exactly when they leave an array, and what
  follows for the retransmission timer.
\<close>

lemma bindF_Inr [simp]: "bindF m Inr = m"
  by (cases m) simp_all

section \<open>Packets\<close>

text \<open>The packet with data this socket sends to its peer.\<close>

definition data_packet :: "host \<Rightarrow> u16 \<Rightarrow> u32 \<times> u8 list \<Rightarrow> sockaddr_in \<times> u8 list" where
  "data_packet w adv_window seg =
     (conn (sock w),
      wire_header (my_port (sock w)) (ntohs (sin_port (conn (sock w)))) (fst seg)
        (next_seq_expected (window (sock w))) 25 (25 + of_nat (length (snd seg))) ACK_FLAG_MASK
        adv_window 0 @ snd seg)"

text \<open>A run of bytes cut into segments of at most \<open>MSS\<close> bytes.\<close>

function cut_segments :: "u32 \<Rightarrow> u8 list \<Rightarrow> (u32 \<times> u8 list) list" where
  "cut_segments seq bs =
     (if bs = [] then []
      else (seq, take MSS bs) # cut_segments (seq + of_nat (length (take MSS bs))) (drop MSS bs))"
  by pat_completeness auto
termination
  by (relation "measure (\<lambda>(seq, bs). length bs)") auto

declare cut_segments.simps [simp del]

lemma cut_segments_Nil [simp]: "cut_segments seq [] = []"
  by (simp add: cut_segments.simps)

lemma cut_segments_more: "bs \<noteq> [] \<Longrightarrow> cut_segments seq bs =
    (seq, take MSS bs) # cut_segments (seq + of_nat (length (take MSS bs))) (drop MSS bs)"
  by (subst cut_segments.simps) simp

lemma cut_segments_MSS: "(s, p) \<in> set (cut_segments seq bs) \<Longrightarrow> length p \<le> MSS \<and> p \<noteq> []"
proof (induction seq bs rule: cut_segments.induct)
  case (1 seq bs)
  then show ?case by (cases "bs = []") (auto simp: cut_segments_more)
qed

lemma cut_segments_at:
  "(s, p) \<in> set (cut_segments seq bs) \<Longrightarrow>
   \<exists>k. s = seq + of_nat k \<and> k + length p \<le> length bs \<and> p = take (length p) (drop k bs)"
proof (induction seq bs rule: cut_segments.induct)
  case (1 seq bs)
  show ?case
  proof (cases "bs = []")
    case False
    with "1.prems" consider "s = seq" "p = take MSS bs"
      | "(s, p) \<in> set (cut_segments (seq + of_nat (length (take MSS bs))) (drop MSS bs))"
      by (auto simp: cut_segments_more)
    then show ?thesis
    proof cases
      case 1
      then show ?thesis by (intro exI [of _ 0]) (simp add: min_def)
    next
      case 2
      from "1.IH" [OF False 2] obtain k where k: "s = seq + of_nat (length (take MSS bs)) + of_nat k"
        "k + length p \<le> length (drop MSS bs)" "p = take (length p) (drop k (drop MSS bs))" by blast
      show ?thesis
      proof (cases "length bs \<le> MSS")
        case True
        with k(2) have "k = 0" "p = []" by auto
        then show ?thesis using k(1) by (intro exI [of _ "length (take MSS bs)"]) simp
      next
        case False
        then show ?thesis using k
          by (intro exI [of _ "MSS + k"]) (simp add: add.commute)
      qed
    qed
  qed (use "1.prems" in simp)
qed

lemma hdr_len_unat [simp]: "unat hdr_len = 25" "hdr_len = 25"
  by (simp_all add: hdr_len_def)

lemma make_packet_ok:
  assumes "unat n + 25 < 2 ^ 16" and "unat n \<le> length payload"
  shows "make_packet w seq ack (hdr_len + n) flags adv_window payload n =
    Inr (Some (wire_header (my_port (sock w)) (ntohs (sin_port (conn (sock w)))) seq ack 25 (25 + n)
      flags adv_window 0 @ take (unat n) payload))"
proof -
  have "unat (25 + n) = 25 + unat n" using assms(1) by (simp add: unat_word_ariths)
  then have "25 \<le> 25 + n" by (simp add: word_le_nat_alt)
  then show ?thesis
    using create_packet_ok [of hdr_len "hdr_len + n" n payload] assms(2) by (simp add: make_packet_def)
qed

lemma make_packet_short:
  assumes "unat n + 25 < 2 ^ 16" and "length payload < unat n"
  shows "make_packet w seq ack (hdr_len + n) flags adv_window payload n = Inl OutOfBounds"
proof -
  have "unat (25 + n) = 25 + unat n" using assms(1) by (simp add: unat_word_ariths)
  then have "\<not> 25 + n < 25" by (simp add: word_less_nat_alt)
  moreover have "get_payload (wire_header src dst seq ack 25 (25 + n) flags adv_window 0 @ rest) = Inr 25"
    for src dst rest by (simp add: get_payload_wire_header)
  ultimately show ?thesis
    using assms(2)
    by (simp add: make_packet_def create_packet_def set_header_wire memcpy_out_of_bounds Let_def)
qed

lemma send_data:
  assumes "unat n + 25 < 2 ^ 16" and "unat n \<le> length payload"
    and "conn (sock w') = conn (sock w)" and "my_port (sock w') = my_port (sock w)"
    and "window (sock w') = window (sock w)"
  shows "bindF (make_packet w' seq (next_seq_expected (window (sock w'))) (hdr_len + n) ACK_FLAG_MASK adv_window payload n)
      (\<lambda>msg. bindF (sendto w' msg (hdr_len + n)) f) =
    f (w'\<lparr>outbox := outbox w' @ [data_packet w adv_window (seq, take (unat n) payload)]\<rparr>)"
proof -
  have "unat (25 + n) = 25 + unat n" using assms(1) by (simp add: unat_word_ariths)
  moreover have "of_nat (min (length payload) (unat n)) = n"
    using assms(2) by (simp add: min_def)
  ultimately show ?thesis
    using make_packet_ok [OF assms(1,2)] assms(2-)
    by (simp add: sendto_def data_packet_def)
qed

section \<open>Fresh data\<close>

lemma next_slot:
  assumes "sb_wf sb"
  shows "unat ((last_byte_sent_index sb + 1) mod s_capacity sb) =
    (if unat (last_byte_sent_index sb) + 1 = cap sb then 0 else unat (last_byte_sent_index sb) + 1)"
proof -
  note d = sb_wfD [OF assms]
  have "unat (last_byte_sent_index sb + 1) = unat (last_byte_sent_index sb) + 1"
    using d(2,5) by (subst unat_add32) simp_all
  then show ?thesis using d(5) by (simp add: unat_mod32 cap_def)
qed

lemma dump_safe_less: "dump_safe sb n \<Longrightarrow> unat k \<le> unat n \<Longrightarrow> dump_safe sb k"
  by (auto simp: dump_safe_def Let_def)

lemma dump_acked_idx: "send_buffer_dump sb i k data = Inr (sb', d) \<Longrightarrow> acked_idx sb' = acked_idx sb"
  by (auto simp: send_buffer_dump_def acked_idx_def split: if_splits)

lemma dump_safe_split:
  assumes wf: "sb_wf sb" and k: "unat k < unat n" and safe: "dump_safe sb k"
    and sb': "s_capacity sb' = s_capacity sb" "acked_idx sb' = acked_idx sb"
      "unat (last_byte_sent_index sb') = unat (last_byte_sent_index sb) + unat k" "sb_wf sb'"
  shows "dump_safe sb n \<longleftrightarrow> dump_safe sb' (n - k)"
proof -
  have c: "cap sb' = cap sb" using sb'(1) by (simp add: cap_def)
  have m: "unat (n - k) = unat n - unat k" using k by (intro unat_sub32) simp
  show ?thesis
    using safe k next_slot [OF wf] next_slot [OF sb'(4)] sb_wfD(5) [OF wf]
    by (auto simp: dump_safe_def Let_def c m sb' split: if_splits)
qed

lemma send_fresh_ok:
  assumes "sb_wf (send_buf (sock w))" and "sb_room (send_buf (sock w))"
    and "unat n \<le> length (q_fresh (sb_abs (send_buf (sock w))))"
  defines "sb \<equiv> send_buf (sock w)"
  shows "if n = 0 \<or> dump_safe sb n
    then \<exists>sb'. send_fresh w adv n = Inr (w\<lparr>sock := (sock w)\<lparr>send_buf := sb'\<rparr>,
          outbox := outbox w @ map (data_packet w adv)
            (cut_segments (get_last_byte_sent_seqnum sb + 1) (take (unat n) (q_fresh (sb_abs sb))))\<rparr>)
        \<and> sb_wf sb' \<and> s_capacity sb' = s_capacity sb
        \<and> last_byte_acked_ts sb' = last_byte_acked_ts sb
        \<and> sb_abs sb' = (sb_abs sb)
            \<lparr>q_inflight := q_inflight (sb_abs sb) @ take (unat n) (q_fresh (sb_abs sb)),
             q_fresh := drop (unat n) (q_fresh (sb_abs sb))\<rparr>
    else send_fresh w adv n = Inl OutOfBounds"
  using assms(1-3) unfolding sb_def
proof (induction "unat n" arbitrary: w n rule: less_induct)
  case less
  define sb where "sb = send_buf (sock w)"
  have wf: "sb_wf sb" and room: "sb_room sb" and fr: "unat n \<le> length (q_fresh (sb_abs sb))"
    using less.prems by (simp_all add: sb_def)
  note d = sb_wfD [OF wf]
  show ?case
  proof (cases "n = 0")
    case True
    then show ?thesis using wf
      by (auto simp: send_fresh.simps [of w adv 0] sb_def intro!: exI [of _ "send_buf (sock w)"])
  next
    case False
    define k where "k = (ucast (segment_len n) :: u32)"
    have n0: "0 < unat n" using False by (simp add: unat_gt_0)
    have k: "unat (segment_len n) = min (unat n) 1375" "unat k = min (unat n) 1375" "k \<noteq> 0"
      "unat k \<le> unat n" using n0 by (auto simp: k_def segment_len unat_eq_0 simp flip: unat_gt_0)
    let ?i = "(last_byte_sent_index sb + 1) mod s_capacity sb"
    let ?junk = "malloc (mem_junk w) (unat (segment_len n))"
    have lt: "unat k < written_dist sb - sent_dist sb"
      using fr k(4) d(7) by (simp add: length_abs [OF wf])
    have lj: "length ?junk = unat k" using k by simp
    have im: "umod (last_byte_sent_index sb + 1) (s_capacity sb) = Inr ?i" using d(9) by simp
    show ?thesis
    proof (cases "dump_safe sb k")
      case unsafe: False
      have "send_buffer_dump sb ?i k ?junk = Inl OutOfBounds"
        by (rule send_buffer_dump_unsafe [OF wf k(3) lt lj unsafe])
      then have "send_fresh w adv n = Inl OutOfBounds"
        using n0 im by (subst send_fresh.simps)
          (simp add: Let_def sb_def [symmetric] k_def [symmetric] word_less_nat_alt)
      moreover have "\<not> dump_safe sb n" using unsafe k(4) dump_safe_less by blast
      ultimately show ?thesis using False by (simp add: sb_def)
    next
      case safe: True
      obtain sb' where sb': "send_buffer_dump sb ?i k ?junk = Inr (sb', take (unat k) (q_fresh (sb_abs sb)))"
        "sb_wf sb'" "s_capacity sb' = s_capacity sb" "last_byte_acked_ts sb' = last_byte_acked_ts sb"
        "unat (last_byte_sent_index sb') = unat (last_byte_sent_index sb) + unat k"
        "sb_abs sb' = (sb_abs sb)
          \<lparr>q_inflight := q_inflight (sb_abs sb) @ take (unat k) (q_fresh (sb_abs sb)),
           q_fresh := drop (unat k) (q_fresh (sb_abs sb))\<rparr>"
        using send_buffer_dump_abs [OF wf room k(3) lt lj safe] by blast
      let ?w = "upd_sock (\<lambda>s. s\<lparr>send_buf := sb'\<rparr>) w"
      let ?seq = "get_last_byte_sent_seqnum sb + 1"
      let ?p = "take (unat k) (q_fresh (sb_abs sb))"
      define w2 where "w2 = ?w\<lparr>outbox := outbox w @ [data_packet w adv (?seq, ?p)]\<rparr>"
      have lp: "length ?p = unat k" using fr k(4) by simp
      have "unat (segment_len n) + 25 < 2 ^ 16" "unat (segment_len n) \<le> length ?p"
        using k lp by simp_all
      note sd = send_data [OF this, of ?w w ?seq adv]
      have tp: "take (unat (segment_len n)) ?p = ?p" using k by simp
      have step: "send_fresh w adv n = send_fresh w2 adv (n - k)"
        using n0 im sb'(1) sd unfolding tp w2_def
        by (subst send_fresh.simps)
          (simp add: Let_def sb_def [symmetric] k_def [symmetric] word_less_nat_alt)
      have w2: "send_buf (sock w2) = sb'" "outbox w2 = outbox w @ [data_packet w adv (?seq, ?p)]"
        "data_packet w2 = data_packet w"
        "w2\<lparr>sock := (sock w2)\<lparr>send_buf := x\<rparr>, outbox := y\<rparr> = w\<lparr>sock := (sock w)\<lparr>send_buf := x\<rparr>, outbox := y\<rparr>" for x y
        by (simp_all add: w2_def upd_sock_def data_packet_def fun_eq_iff)
      have nk: "unat (n - k) = unat n - unat k" using k(4) by (intro unat_sub32)
      have prem: "sb_room sb'" "unat (n - k) \<le> length (q_fresh (sb_abs sb'))"
        using room sb'(3,6) fr nk by (simp_all add: sb_room_def cap_def sb_abs_def)
      have less': "unat (n - k) < unat n" using nk k(2) n0 by simp
      note ih = less.hyps [OF less' , of w2, unfolded w2 nk, OF sb'(2) prem(1) prem(2) [unfolded nk]]
      have seq: "get_last_byte_sent_seqnum sb' + 1 = ?seq + of_nat (length ?p)"
      proof -
        have "sent_dist sb' = sent_dist sb + unat k"
          using length_abs(1) [OF sb'(2)] length_abs(1) [OF wf] sb'(6) lp by simp
        moreover have "last_byte_acked_seqnum sb' = last_byte_acked_seqnum sb"
          using sb'(6) by (simp add: sb_abs_def)
        ultimately show ?thesis
          unfolding lp by (simp add: last_sent_seq wf sb'(2))
      qed
      have cut: "cut_segments ?seq (take (unat n) (q_fresh (sb_abs sb))) =
          (?seq, ?p) # cut_segments (?seq + of_nat (length ?p))
            (take (unat n - unat k) (drop (unat k) (q_fresh (sb_abs sb))))"
      proof -
        have "take (unat n) (q_fresh (sb_abs sb)) \<noteq> []" using n0 fr by auto
        moreover have "take 1375 (take (unat n) (q_fresh (sb_abs sb))) = ?p"
          using k(2) by (simp add: min.commute)
        moreover have "drop 1375 (take (unat n) (q_fresh (sb_abs sb))) =
            take (unat n - unat k) (drop (unat k) (q_fresh (sb_abs sb)))"
          using k(2) by (cases "unat n \<le> 1375") (simp_all add: drop_take)
        ultimately show ?thesis by (simp add: cut_segments_more)
      qed
      have iff: "n = 0 \<or> dump_safe sb n \<longleftrightarrow> n - k = 0 \<or> dump_safe sb' (n - k)"
      proof (cases "n = k")
        case True
        then show ?thesis using safe by simp
      next
        case neq: False
        then have "unat k < unat n" using k(4) by (metis le_neq_implies_less u32_eqI)
        then show ?thesis
          using dump_safe_split [OF wf _ safe sb'(3) dump_acked_idx [OF sb'(1)] sb'(5,2)] neq False
          by simp
      qed
      have tn: "take (unat k) (q_fresh (sb_abs sb)) @ take (unat n - unat k) (drop (unat k) (q_fresh (sb_abs sb))) =
          take (unat n) (q_fresh (sb_abs sb))"
        using k(4) take_add [of "unat k" "unat n - unat k" "q_fresh (sb_abs sb)"] by simp
      have dn: "unat n - unat k + unat k = unat n" using k(4) by simp
      show ?thesis
        using ih sb'(3,4,6) tn dn unfolding step sb_def [symmetric] iff cut seq
        by (cases "n - k = 0 \<or> dump_safe sb' (n - k)") (simp_all, blast?)
    qed
  qed
qed

lemma multiple_send_ok:
  assumes "sb_wf (send_buf (sock w))" and "sb_room (send_buf (sock w))"
  defines "sb \<equiv> send_buf (sock w)"
  defines "adv \<equiv> unat (rcvd_advertised_window (window (sock w)))"
  defines "n \<equiv> min (length (q_fresh (sb_abs sb))) (adv - length (q_inflight (sb_abs sb)))"
  shows "if n = 0 \<or> dump_safe sb (of_nat n)
    then \<exists>sb'. multiple_send w = Inr (w\<lparr>sock := (sock w)\<lparr>send_buf := sb'\<rparr>,
          outbox := outbox w @ map (data_packet w (ucast (recv_buffer_max_receive (recv_buf (sock w)))))
            (cut_segments (get_last_byte_sent_seqnum sb + 1) (take n (q_fresh (sb_abs sb))))\<rparr>)
      \<and> sb_wf sb' \<and> s_capacity sb' = s_capacity sb \<and> last_byte_acked_ts sb' = last_byte_acked_ts sb
      \<and> sb_abs sb' = (sb_abs sb)
          \<lparr>q_inflight := q_inflight (sb_abs sb) @ take n (q_fresh (sb_abs sb)),
           q_fresh := drop n (q_fresh (sb_abs sb))\<rparr>
    else multiple_send w = Inl OutOfBounds"
proof -
  have wf: "sb_wf sb" and room: "sb_room sb" using assms(1,2) by (simp_all add: sb_def)
  let ?a = "ucast (rcvd_advertised_window (window (sock w))) :: u32"
  let ?u = "get_unacknowledged_count sb" and ?f = "send_buffer_max_new_dump sb"
  have u: "unat ?u = length (q_inflight (sb_abs sb))" "unat ?f = length (q_fresh (sb_abs sb))"
    by (simp_all add: unacked_count max_new_dump length_abs wf)
  have a: "unat ?a = adv" by (simp add: adv_def)
  show ?thesis
  proof (cases "?u < ?a")
    case False
    then have "n = 0" using u(1) a by (simp add: n_def word_less_nat_alt)
    moreover have "w\<lparr>sock := (sock w)\<lparr>send_buf := sb\<rparr>, outbox := outbox w\<rparr> = w" by (simp add: sb_def)
    ultimately show ?thesis
      using False wf by (auto simp: multiple_send_def sb_def [symmetric] Let_def intro!: exI [of _ sb])
  next
    case True
    define t where "t = (if ?f < ?a - ?u then ?f else ?a - ?u)"
    have "unat (?a - ?u) = adv - length (q_inflight (sb_abs sb))"
      using True u a by (subst unat_sub32) (simp_all add: word_less_nat_alt)
    then have t: "unat t = n" using u(2) by (auto simp: t_def n_def word_less_nat_alt min_def)
    then have tn: "t = of_nat n" "n = 0 \<longleftrightarrow> t = 0"
      using unat_u32_less [of t] by (auto intro: u32_eqI simp: unat_of_nat32 unat_eq_0)
    have ms: "multiple_send w = send_fresh w (ucast (recv_buffer_max_receive (recv_buf (sock w)))) t"
      using True by (simp add: multiple_send_def sb_def [symmetric] Let_def t_def)
    have le: "unat t \<le> length (q_fresh (sb_abs (send_buf (sock w))))" by (simp add: t n_def sb_def)
    show ?thesis
      using send_fresh_ok [OF assms(1,2) le, of "ucast (recv_buffer_max_receive (recv_buf (sock w)))"]
      unfolding sb_def [symmetric] t tn(2) [symmetric] ms tn(1) [symmetric]
      by (cases "n = 0 \<or> dump_safe sb t") simp_all
  qed
qed

text \<open>
  C13: \<open>multiple_send\<close> sends as many fresh bytes as there are and as the peer's window leaves
  room for, cut into segments of at most \<open>MSS\<close> bytes that carry consecutive sequence numbers
  from the first fresh byte on, and moves them in flight, never beyond the window; exactly
  when those bytes lie in one run above the base index. Otherwise it leaves an array.
\<close>

theorem multiple_send_correct:
  assumes "sb_wf (send_buf (sock w))" and "sb_room (send_buf (sock w))"
  defines "sb \<equiv> send_buf (sock w)"
  defines "adv \<equiv> unat (rcvd_advertised_window (window (sock w)))"
  defines "n \<equiv> min (length (q_fresh (sb_abs sb))) (adv - length (q_inflight (sb_abs sb)))"
  shows "if n = 0 \<or> dump_safe sb (of_nat n)
    then \<exists>w'. multiple_send w = Inr w'
      \<and> outbox w' = outbox w @ map (data_packet w (ucast (recv_buffer_max_receive (recv_buf (sock w)))))
          (cut_segments (get_last_byte_sent_seqnum sb + 1) (take n (q_fresh (sb_abs sb))))
      \<and> sb_wf (send_buf (sock w'))
      \<and> sb_abs (send_buf (sock w')) = (sb_abs sb)
          \<lparr>q_inflight := q_inflight (sb_abs sb) @ take n (q_fresh (sb_abs sb)),
           q_fresh := drop n (q_fresh (sb_abs sb))\<rparr>
      \<and> length (q_inflight (sb_abs (send_buf (sock w')))) \<le> max adv (length (q_inflight (sb_abs sb)))
      \<and> inbox w' = inbox w \<and> recv_buf (sock w') = recv_buf (sock w)
    else multiple_send w = Inl OutOfBounds"
proof -
  have "length (q_inflight (sb_abs sb)) + n \<le> max adv (length (q_inflight (sb_abs sb)))"
    and "n \<le> length (q_fresh (sb_abs sb))"
    by (simp_all add: n_def)
  then show ?thesis
    using multiple_send_ok [OF assms(1,2)] unfolding sb_def [symmetric] adv_def [symmetric] n_def [symmetric]
    by (auto split: if_splits)
qed

section \<open>Data already sent\<close>

lemma buf_from_acked:
  assumes wf: "sb_wf sb" and n: "acked_idx sb + 1 < cap sb" "acked_idx sb + 1 + n \<le> cap sb"
    "n \<le> length (q_inflight (sb_abs sb))"
  shows "take n (drop (acked_idx sb + 1) (s_buffer sb)) = take n (q_inflight (sb_abs sb))"
proof -
  note d = sb_wfD [OF wf]
  have le: "n \<le> sent_dist sb" "n \<le> written_dist sb - 1" using n(3) d(7) by (simp_all add: length_abs [OF wf])
  have "take n (q_inflight (sb_abs sb)) = ring_get (s_buffer sb) (acked_idx sb + 1) n"
    using le by (simp add: sb_abs_def pending_def take_ring_get min_def)
  also have "\<dots> = take n (drop (acked_idx sb + 1) (s_buffer sb))"
    using n d(3) by (intro ring_get_one) simp
  finally show ?thesis by simp
qed

lemma acked_slot:
  assumes "sb_wf sb"
  shows "unat ((last_byte_acked_index sb + 1) mod s_capacity sb) = (acked_idx sb + 1) mod cap sb"
proof -
  have "unat (last_byte_acked_index sb + 1) = acked_idx sb + 1"
    using sb_wfD(2,4) [OF assms] by (subst unat_add32) (simp_all add: acked_idx_def)
  then show ?thesis by (simp add: unat_mod32 cap_def)
qed

lemma resend_unacknowledged_ok:
  assumes "sb_wf (send_buf (sock w))" and "cap (send_buf (sock w)) \<le> MSS"
    and "q_inflight (sb_abs (send_buf (sock w))) \<noteq> []"
  defines "sb \<equiv> send_buf (sock w)"
  defines "n \<equiv> max 1 (min (length (q_inflight (sb_abs sb))) (unat (rcvd_advertised_window (window (sock w)))))"
  shows "resend_unacknowledged w =
    (if (acked_idx sb + 1) mod cap sb + n \<le> cap sb
     then Inr (w\<lparr>outbox := outbox w @ [data_packet w (ucast (recv_buffer_max_receive (recv_buf (sock w))))
            (q_base (sb_abs sb) + 1, take n (q_inflight (sb_abs sb)))]\<rparr>)
     else Inl OutOfBounds)"
proof -
  have wf: "sb_wf sb" and ne: "q_inflight (sb_abs sb) \<noteq> []" and cm: "cap sb \<le> 1375"
    using assms(1-3) by (simp_all add: sb_def)
  note d = sb_wfD [OF wf]
  let ?u = "get_unacknowledged_count sb" and ?a = "ucast (rcvd_advertised_window (window (sock w))) :: u32"
  let ?i = "(last_byte_acked_index sb + 1) mod s_capacity sb"
  let ?adv = "ucast (recv_buffer_max_receive (recv_buf (sock w))) :: u16"
  have u: "unat ?u = length (q_inflight (sb_abs sb))" by (simp add: unacked_count length_abs wf)
  then have u0: "0 < ?u" using ne by (simp add: word_less_nat_alt)
  have len: "length (q_inflight (sb_abs sb)) < cap sb" using d(7,8) by (simp add: length_abs [OF wf])
  have nb: "0 < n" "n \<le> length (q_inflight (sb_abs sb))" "n < cap sb" "n \<le> 1375"
  proof -
    show "0 < n" "n \<le> length (q_inflight (sb_abs sb))" using ne by (auto simp: n_def Suc_le_eq)
    then show "n < cap sb" "n \<le> 1375" using len cm by linarith+
  qed
  have ix: "unat ?i = (acked_idx sb + 1) mod cap sb" by (rule acked_slot [OF wf])
  have im: "umod (last_byte_acked_index sb + 1) (s_capacity sb) = Inr ?i" using d(9) by simp
  have il: "unat ?i < cap sb" using ix d(1) by simp
  have base: "q_base (sb_abs sb) = last_byte_acked_seqnum sb" by (simp add: sb_abs_def)
  have slice: "take n (drop (unat ?i) (s_buffer sb)) = take n (q_inflight (sb_abs sb))"
    if "unat ?i + n \<le> cap sb"
  proof (cases "acked_idx sb + 1 < cap sb")
    case True
    then show ?thesis using buf_from_acked [OF wf True _ nb(2)] that ix by simp
  next
    case False
    then have c: "acked_idx sb + 1 = cap sb" using d(4) by simp
    then have "ring_get (s_buffer sb) (acked_idx sb + 1) n = ring_get (s_buffer sb) 0 n"
      using ring_get_mod [of "s_buffer sb" "cap sb" n] d(3) by simp
    moreover have "ring_get (s_buffer sb) 0 n = take n (s_buffer sb)"
      using nb(3) d(3) ring_get_one [of 0 n "s_buffer sb"] by simp
    moreover have "take n (q_inflight (sb_abs sb)) = ring_get (s_buffer sb) (acked_idx sb + 1) n"
      using nb(2) d(7) by (simp add: sb_abs_def pending_def take_ring_get min_def length_abs [OF wf])
    ultimately show ?thesis using c ix by simp
  qed
  have send: "bindF (make_packet w (last_byte_acked_seqnum sb + 1) (next_seq_expected (window (sock w)))
        (hdr_len + k) ACK_FLAG_MASK ?adv (get_buf_at_index_send sb ?i) k) (\<lambda>msg. bindF (sendto w msg (hdr_len + k)) f) =
      (if unat ?i + n \<le> cap sb
       then f (w\<lparr>outbox := outbox w @ [data_packet w ?adv (q_base (sb_abs sb) + 1, take n (q_inflight (sb_abs sb)))]\<rparr>)
       else Inl OutOfBounds)" if k: "unat k = n" for k f
  proof -
    have k16: "unat k + 25 < 2 ^ 16" using k nb(4) by simp
    have lb: "length (get_buf_at_index_send sb ?i) = cap sb - unat ?i"
      using d(3) by (simp add: get_buf_at_index_send_def)
    show ?thesis
    proof (cases "unat ?i + n \<le> cap sb")
      case True
      then have "unat k \<le> length (get_buf_at_index_send sb ?i)" using lb k by simp
      then show ?thesis
        using send_data [OF k16 _ refl refl refl, of "get_buf_at_index_send sb ?i" w] True slice [OF True] k
        by (simp add: get_buf_at_index_send_def base)
    next
      case False
      then have "length (get_buf_at_index_send sb ?i) < unat k" using lb k il by simp
      then show ?thesis using make_packet_short [OF k16] False by simp
    qed
  qed
  let ?t = "MIN_u32 ?u ?a"
  have t: "unat ?t = min (length (q_inflight (sb_abs sb))) (unat (rcvd_advertised_window (window (sock w))))"
    using u by (auto simp: MIN_u32_def word_less_nat_alt)
  have start: "resend_unacknowledged w =
      (if ?t = 0
       then bindF (make_packet w (last_byte_acked_seqnum sb + 1) (next_seq_expected (window (sock w)))
              (hdr_len + 1) ACK_FLAG_MASK ?adv (get_buf_at_index_send sb ?i) 1) (\<lambda>msg. sendto w msg (hdr_len + 1))
       else resend_loop w ?adv ?i (last_byte_acked_seqnum sb + 1) 0 ?t)"
    using u0 im by (simp add: resend_unacknowledged_def sb_def [symmetric] Let_def)
  show ?thesis
  proof (cases "?t = 0")
    case True
    then have "unat (1 :: u16) = n" using t ne by (auto simp: n_def)
    from send [OF this, of Inr] show ?thesis using True start unfolding ix by (simp del: hdr_len_unat)
  next
    case False
    then have "0 < unat ?t" by (simp add: unat_gt_0)
    then have tn: "unat ?t = n" unfolding t n_def by linarith
    then have k: "unat (segment_len ?t) = n" using nb(4) by (simp add: segment_len)
    have rest: "?t - ucast (segment_len ?t) = 0"
      by (rule u32_eqI) (subst unat_sub32; simp add: k tn)
    have one: "umod (?i + 0) (s_capacity sb) = Inr ?i"
    proof -
      have "?i mod s_capacity sb = ?i" by (rule u32_eqI) (simp add: unat_mod32)
      then show ?thesis using d(9) by simp
    qed
    have "resend_loop w ?adv ?i (last_byte_acked_seqnum sb + 1) 0 ?t =
        bindF (make_packet w (last_byte_acked_seqnum sb + 1) (next_seq_expected (window (sock w)))
          (hdr_len + segment_len ?t) ACK_FLAG_MASK ?adv (get_buf_at_index_send sb ?i) (segment_len ?t))
        (\<lambda>msg. bindF (sendto w msg (hdr_len + segment_len ?t)) (\<lambda>w. resend_loop w ?adv ?i
          (last_byte_acked_seqnum sb + 1) (0 + ucast (segment_len ?t)) 0))"
      using False one rest by (subst resend_loop.simps)
        (simp add: Let_def sb_def [symmetric] word_neq_0_conv del: hdr_len_unat)
    then show ?thesis
      using False start send [OF k, of Inr] unfolding ix by (simp add: resend_loop.simps [where target_send_len = 0] del: hdr_len_unat)
  qed
qed

text \<open>
  C23: \<open>resend_unacknowledged\<close> with bytes in flight in a buffer of at most \<open>MSS\<close> bytes, as
  every socket's is: with a window it sends the oldest bytes in flight again, as many as the
  window allows, in one packet under their own sequence number; with a closed window it
  probes with the oldest byte. It changes nothing else. If the bytes wrap around the end of
  the array the packet is read past its end.
\<close>

theorem resend_unacknowledged_correct:
  assumes "sb_wf (send_buf (sock w))" and "cap (send_buf (sock w)) \<le> MSS"
    and "q_inflight (sb_abs (send_buf (sock w))) \<noteq> []"
  defines "sb \<equiv> send_buf (sock w)"
  defines "n \<equiv> max 1 (min (length (q_inflight (sb_abs sb))) (unat (rcvd_advertised_window (window (sock w)))))"
  shows "resend_unacknowledged w =
    (if (acked_idx sb + 1) mod cap sb + n \<le> cap sb
     then Inr (w\<lparr>outbox := outbox w @ [data_packet w (ucast (recv_buffer_max_receive (recv_buf (sock w))))
            (q_base (sb_abs sb) + 1, take n (q_inflight (sb_abs sb)))]\<rparr>)
     else Inl OutOfBounds)"
  unfolding sb_def n_def by (rule resend_unacknowledged_ok [OF assms(1-3)])

lemma queue_empty:
  assumes "sb_wf sb"
  shows "get_unacknowledged_count sb + send_buffer_max_new_dump sb = 0
    \<longleftrightarrow> q_inflight (sb_abs sb) = [] \<and> q_fresh (sb_abs sb) = []"
proof -
  note d = sb_wfD [OF assms]
  have "unat (get_unacknowledged_count sb + send_buffer_max_new_dump sb) =
      length (q_inflight (sb_abs sb)) + length (q_fresh (sb_abs sb))"
    using d by (subst unat_add32) (simp_all add: unacked_count max_new_dump length_abs assms)
  then show ?thesis by (metis add_is_0 length_0_conv unat_eq_0)
qed

lemma backend_ends_iff:
  assumes "sb_wf (send_buf (sock w))"
  shows "backend_ends w \<longleftrightarrow> dying (sock w) \<noteq> 0
    \<and> q_inflight (sb_abs (send_buf (sock w))) = [] \<and> q_fresh (sb_abs (send_buf (sock w))) = []"
  using queue_empty [OF assms] by (simp add: backend_ends_def)

text \<open>A turn of the main loop in which nothing has arrived.\<close>

lemma backend_loop_quiet:
  assumes "inbox w = []" and "sb_wf (send_buf (sock w))" and "q_inflight (sb_abs (send_buf (sock w))) \<noteq> []"
    and "DEFAULT_TIMEOUT < get_time_ms (clock w) - last_byte_acked_ts (send_buf (sock w))"
  shows "backend_loop others w = bindF (resend_unacknowledged w) (\<lambda>w.
      case others of [] \<Rightarrow> Inl Blocked | f # others \<Rightarrow> bindF (f w) (\<lambda>w. backend_loop others w))"
proof -
  have "\<not> backend_ends w" using backend_ends_iff [OF assms(2)] assms(3) by simp
  moreover have "check_for_data w NO_WAIT = Inr w"
    using assms(1) by (simp add: check_for_data_def recvfrom_peek_def)
  moreover have "backend_send w = resend_unacknowledged w"
    using assms(2-4)
    by (simp add: backend_send_def word_less_nat_alt unacked_count length_abs(1) [symmetric])
  ultimately show ?thesis by (subst backend_loop.simps) simp
qed

text \<open>
  C38: The retransmission timer is not restarted by a retransmission: once the oldest bytes in
  flight have waited longer than the timeout, every turn of the main loop sends the same
  packet with the oldest of them again, whatever the number of turns, as long as only time
  passes: no datagram arrives and the application does not use the socket. When those bytes
  wrap around the end of the array, the first such turn reads beyond it instead.
\<close>

theorem backend_send_repeats:
  assumes "sb_wf (send_buf (sock w))" and "cap (send_buf (sock w)) \<le> MSS"
    and "q_inflight (sb_abs (send_buf (sock w))) \<noteq> []" and "inbox w = []"
    and "DEFAULT_TIMEOUT < get_time_ms (clock w) - last_byte_acked_ts (send_buf (sock w))"
    and "\<forall>t \<in> set later. get_time_ms (clock w) \<le> get_time_ms t"
  defines "sb \<equiv> send_buf (sock w)"
  defines "n \<equiv> max 1 (min (length (q_inflight (sb_abs sb))) (unat (rcvd_advertised_window (window (sock w)))))"
  defines "packet \<equiv> data_packet w (ucast (recv_buffer_max_receive (recv_buf (sock w))))
    (q_base (sb_abs sb) + 1, take n (q_inflight (sb_abs sb)))"
  shows "backend_loop (map (\<lambda>t w. Inr (w\<lparr>clock := t\<rparr>)) later @ others) w =
    (if (acked_idx sb + 1) mod cap sb + n \<le> cap sb
     then backend_loop others (w\<lparr>clock := last (clock w # later),
            outbox := outbox w @ replicate (length later) packet\<rparr>)
     else Inl OutOfBounds)"
proof -
  have turn: "backend_loop fs v = (if (acked_idx sb + 1) mod cap sb + n \<le> cap sb
      then (case fs of [] \<Rightarrow> Inl Blocked
        | f # fs \<Rightarrow> bindF (f (v\<lparr>outbox := outbox v @ [packet]\<rparr>)) (\<lambda>w. backend_loop fs w))
      else Inl OutOfBounds)"
    if "sock v = sock w" "inbox v = []" "get_time_ms (clock w) \<le> get_time_ms (clock v)" for v fs
  proof -
    have "resend_unacknowledged v = (if (acked_idx sb + 1) mod cap sb + n \<le> cap sb
        then Inr (v\<lparr>outbox := outbox v @ [packet]\<rparr>) else Inl OutOfBounds)"
      using resend_unacknowledged_ok [of v] assms(1-3) that(1) by (simp add: n_def packet_def sb_def data_packet_def)
    moreover have "DEFAULT_TIMEOUT < get_time_ms (clock v) - last_byte_acked_ts (send_buf (sock v))"
      using assms(5) that(1,3) by simp
    ultimately show ?thesis
      using backend_loop_quiet [of v fs] that(1,2) assms(1,3) by simp
  qed
  show ?thesis
  proof (cases "(acked_idx sb + 1) mod cap sb + n \<le> cap sb")
    case False
    then show ?thesis using turn [of w] assms(4) by simp
  next
    case True
    have "backend_loop (map (\<lambda>t w. Inr (w\<lparr>clock := t\<rparr>)) ts @ others) v =
        backend_loop others (v\<lparr>clock := last (clock v # ts), outbox := outbox v @ replicate (length ts) packet\<rparr>)"
      if "sock v = sock w" "inbox v = []" "\<forall>t \<in> set (clock v # ts). get_time_ms (clock w) \<le> get_time_ms t" for v ts
      using that
    proof (induction ts arbitrary: v)
      case (Cons t ts)
      let ?v = "v\<lparr>outbox := outbox v @ [packet], clock := t\<rparr>"
      have "backend_loop (map (\<lambda>t w. Inr (w\<lparr>clock := t\<rparr>)) (t # ts) @ others) v =
          backend_loop (map (\<lambda>t w. Inr (w\<lparr>clock := t\<rparr>)) ts @ others) ?v"
        using turn [of v] Cons.prems True by simp
      also have "\<dots> = backend_loop others (?v\<lparr>clock := last (clock ?v # ts),
          outbox := outbox ?v @ replicate (length ts) packet\<rparr>)"
        using Cons.prems by (intro Cons.IH) simp_all
      finally show ?case by simp
    qed simp
    from this [of w later] True assms(4,6) show ?thesis by simp
  qed
qed

section \<open>Witnesses\<close>

definition sending_host :: "send_buffer_t \<Rightarrow> host" where
  "sending_host sb = upd_sock (\<lambda>s. s\<lparr>send_buf := sb\<rparr>) host_example"

lemma sending_host_simps [simp]:
  "send_buf (sock (sending_host sb)) = sb" "outbox (sending_host sb) = []"
  "rcvd_advertised_window (window (sock (sending_host sb))) = 1000"
  "recv_buf (sock (sending_host sb)) = rb_example" "clock (sending_host sb) = (0, 0)"
  by (simp_all add: sending_host_def host_example_def)

lemma sb_example2_facts:
  "sb_wf sb_example2" "sb_room sb_example2" "q_inflight (sb_abs sb_example2) = []"
  "q_fresh (sb_abs sb_example2) = [1, 2, 3]" "dump_safe sb_example2 3"
  by (simp_all add: sb_example2_def sb_example_def sb_wf_def sb_room_def cap_def acked_idx_def
    sent_dist_def written_dist_def dist0_def dist1_def sb_abs_def pending_def ring_get_def upt_rec
    dump_safe_def)

theorem multiple_send_correct_witness:
  "\<exists>w'. multiple_send (sending_host sb_example2) = Inr w'
    \<and> q_inflight (sb_abs (send_buf (sock w'))) = [1, 2, 3]"
  using multiple_send_correct [of "sending_host sb_example2"] by (auto simp: sb_example2_facts)

definition sb_sent :: send_buffer_t where
  "sb_sent = sb_example2\<lparr>last_byte_sent_index := 2\<rparr>"

lemma sb_sent_facts:
  "sb_wf sb_sent" "cap sb_sent = 8" "acked_idx sb_sent = 0" "q_base (sb_abs sb_sent) = 100"
  "q_inflight (sb_abs sb_sent) = [1, 2]" "last_byte_acked_ts sb_sent = 0"
  by (simp_all add: sb_sent_def sb_example2_def sb_example_def sb_wf_def cap_def acked_idx_def
    sent_dist_def written_dist_def dist0_def dist1_def sb_abs_def pending_def ring_get_def upt_rec)

theorem resend_unacknowledged_correct_witness:
  "resend_unacknowledged (sending_host sb_sent) =
    Inr ((sending_host sb_sent)\<lparr>outbox := [data_packet (sending_host sb_sent)
      (ucast (recv_buffer_max_receive rb_example)) (101, [1, 2])]\<rparr>)"
  using resend_unacknowledged_correct [of "sending_host sb_sent"] by (simp add: sb_sent_facts)

theorem backend_send_repeats_witness:
  "backend_loop [\<lambda>w. Inr (w\<lparr>clock := (5, 0)\<rparr>), \<lambda>w. Inr (w\<lparr>clock := (6, 0)\<rparr>)]
      ((sending_host sb_sent)\<lparr>clock := (4, 0)\<rparr>) =
    backend_loop [] ((sending_host sb_sent)\<lparr>clock := (6, 0),
      outbox := replicate 2 (data_packet (sending_host sb_sent) (ucast (recv_buffer_max_receive rb_example)) (101, [1, 2]))\<rparr>)"
proof -
  have "inbox (sending_host sb_sent) = []" by (simp add: sending_host_def host_example_def)
  moreover have "replicate 2 x = [x, x]" for x :: "sockaddr_in \<times> u8 list" by (simp add: numeral_2_eq_2)
  ultimately show ?thesis
    using backend_send_repeats [of "(sending_host sb_sent)\<lparr>clock := (4, 0)\<rparr>" "[(5, 0), (6, 0)]" "[]"]
    by (simp add: sb_sent_facts get_time_ms_def DEFAULT_TIMEOUT_def data_packet_def)
qed

end
