(* ===== verification/Backend_Receive.thy ===== *)
theory Backend_Receive
  imports Backend_Send
begin

text \<open>
  What a packet does to a connected socket: \<open>handle_message\<close> as an acknowledgement for the
  send buffer, a segment for the receive buffer and an answer; and what the packets do that
  the code does not expect.
\<close>

section \<open>An ordinary packet\<close>

definition host_ok :: "host \<Rightarrow> bool" where
  "host_ok w \<longleftrightarrow> sb_wf (send_buf (sock w)) \<and> sb_room (send_buf (sock w))
     \<and> (\<exists>xs. rb_ok (recv_buf (sock w)) (segs w) xs)"

text \<open>The acknowledgement number of a packet is for bytes the socket has sent.\<close>

definition ack_admissible :: "send_buffer_t \<Rightarrow> u32 \<Rightarrow> bool" where
  "ack_admissible sb a \<longleftrightarrow> a - 1 \<le> last_byte_acked_seqnum sb
     \<or> unat (a - 1 - last_byte_acked_seqnum sb) \<le> length (q_inflight (sb_abs sb))"

text \<open>A packet with data or without, as a peer sends it, and the answer to one with data.\<close>

definition peer_packet :: "u16 \<Rightarrow> u16 \<Rightarrow> u32 \<Rightarrow> u32 \<Rightarrow> u8 \<Rightarrow> u16 \<Rightarrow> u8 list \<Rightarrow> u8 list" where
  "peer_packet src dst seq ack flags adv payload =
     wire_header src dst seq ack 25 (25 + of_nat (length payload)) flags adv 0 @ payload"

definition ack_packet :: "host \<Rightarrow> sockaddr_in \<times> u8 list" where
  "ack_packet w =
     (conn (sock w),
      wire_header (my_port (sock w)) (ntohs (sin_port (conn (sock w))))
        (last_ack_received (window (sock w))) (get_next_byte_expected_seqnum (recv_buf (sock w)))
        25 25 ACK_FLAG_MASK (ucast (recv_buffer_max_receive (recv_buf (sock w)))) 0)"

text \<open>
  What an acknowledgement number does to the send buffer: nothing when it is the one already
  noted, otherwise \<open>send_buffer_update_ack\<close>.
\<close>

definition takes_ack :: "host \<Rightarrow> u32 \<Rightarrow> send_buffer_t \<Rightarrow> bool" where
  "takes_ack w a sb' \<longleftrightarrow>
     (if a = last_ack_received (window (sock w)) then sb' = send_buf (sock w)
      else send_buffer_update_ack (clock w) (send_buf (sock w)) a = Inr sb')"

lemma takes_ackD:
  "takes_ack w a sb' \<Longrightarrow> a = last_ack_received (window (sock w)) \<and> sb' = send_buf (sock w)
    \<or> send_buffer_update_ack (clock w) (send_buf (sock w)) a = Inr sb'"
  by (simp add: takes_ack_def split: if_splits)

lemma handle_ack_ok:
  assumes "sb_wf (send_buf (sock w))" and "sb_room (send_buf (sock w))"
    and "ack_admissible (send_buf (sock w)) a"
  shows "\<exists>w' sb'. handle_ack w a = Inr w' \<and> segs w' = segs w \<and> inbox w' = inbox w
    \<and> outbox w' = outbox w \<and> mem_junk w' = mem_junk w \<and> recv_buf (sock w') = recv_buf (sock w)
    \<and> conn (sock w') = conn (sock w) \<and> my_port (sock w') = my_port (sock w)
    \<and> next_seq_expected (window (sock w')) = next_seq_expected (window (sock w))
    \<and> last_ack_received (window (sock w')) = MAX_u32 (last_ack_received (window (sock w))) a
    \<and> initialized (sock w') = initialized (sock w)
    \<and> send_buf (sock w') = sb'
    \<and> takes_ack w a sb'"
proof (cases "a = last_ack_received (window (sock w))")
  case True
  then show ?thesis by (simp add: handle_ack_def MAX_u32_def takes_ack_def)
next
  case False
  let ?sb = "send_buf (sock w)"
  obtain sb' where "send_buffer_update_ack (clock w) ?sb a = Inr sb'"
  proof (cases "a - 1 \<le> last_byte_acked_seqnum ?sb")
    case True
    then show ?thesis using that update_ack_old by blast
  next
    case new: False
    then have "unat (a - 1 - last_byte_acked_seqnum ?sb) \<le> sent_dist ?sb"
      using assms(3) by (simp add: ack_admissible_def length_abs [OF assms(1)])
    then show ?thesis
      using that send_buffer_update_ack_abs [OF assms(1,2) _ refl, of a "clock w"] new
      by (auto simp: not_le)
  qed
  then show ?thesis using False by (simp add: handle_ack_def takes_ack_def Let_def)
qed

lemma send_pure_ack_ok:
  assumes "next_seq_expected (window (sock w)) = get_next_byte_expected_seqnum (recv_buf (sock w))"
  shows "send_pure_ack w = Inr (w\<lparr>outbox := outbox w @ [ack_packet w]\<rparr>)"
  using make_packet_ok [of 0 "[]" w _ _ ACK_FLAG_MASK] assms
  by (simp add: send_pure_ack_def ack_packet_def sendto_def)

lemma peer_packet_fields:
  assumes "length payload + 25 < 2 ^ 16"
  shows "get_flags (peer_packet src dst seq ack flags adv payload) = Inr flags"
    "get_ack (peer_packet src dst seq ack flags adv payload) = Inr ack"
    "get_seq (peer_packet src dst seq ack flags adv payload) = Inr seq"
    "get_advertised_window (peer_packet src dst seq ack flags adv payload) = Inr adv"
    "get_payload_len (peer_packet src dst seq ack flags adv payload) = Inr (of_nat (length payload))"
    "get_payload (peer_packet src dst seq ack flags adv payload) = Inr 25"
    "drop 25 (peer_packet src dst seq ack flags adv payload) = payload"
    "unat (of_nat (length payload) :: u16) = length payload"
  using assms
  by (simp_all add: peer_packet_def get_wire_header get_payload_wire_header
    get_payload_len_wire_header unat_of_nat)

text \<open>
  What a segment with first number \<open>seq\<close> may do to the receive buffer \<open>rb\<close> with its heap
  \<open>h\<close>: it is accepted when it is new and fits, and then its bytes are held, with its values;
  otherwise nothing changes.
\<close>

definition accepts :: "recv_buffer_t \<Rightarrow> nat \<Rightarrow> nat \<Rightarrow> bool" where
  "accepts rb seq n \<longleftrightarrow> n \<noteq> 0 \<and> read_seq rb < seq \<and> expected_seq rb < seq + n
     \<and> seq + n \<le> read_seq rb + rcap rb"

definition takes_segment ::
  "recv_buffer_t \<Rightarrow> seg_heap \<Rightarrow> nat \<Rightarrow> u8 list \<Rightarrow> recv_buffer_t \<Rightarrow> seg_heap \<Rightarrow> bool"
where
  "takes_segment rb h seq payload rb' h' \<longleftrightarrow>
     (\<exists>xs. rb_ok rb' h' xs) \<and> read_seq rb' = read_seq rb \<and> rcap rb' = rcap rb
     \<and> expected_seq rb \<le> expected_seq rb'
     \<and> (accepts rb seq (length payload) \<and> seq \<le> expected_seq rb \<longrightarrow> seq + length payload \<le> expected_seq rb')
     \<and> (\<forall>q. rb_has rb' h' q \<longleftrightarrow> rb_has rb h q
          \<or> accepts rb seq (length payload) \<and> seq \<le> q \<and> q < seq + length payload)
     \<and> (\<forall>q. read_seq rb < q \<and> q < read_seq rb + rcap rb \<longrightarrow> byte_at rb' q =
          (if accepts rb seq (length payload) \<and> seq \<le> q \<and> q < seq + length payload
           then payload ! (q - seq) else byte_at rb q))"

lemma takes_no_segment:
  assumes "rb_ok rb h xs" and "\<not> accepts rb seq (length payload)"
  shows "takes_segment rb h seq payload rb h"
  using assms by (auto simp: takes_segment_def)

text \<open>
  The receiving half of \<open>handle_data\<close>: the segment is stored or dropped, and either way the
  socket goes on with some receive buffer and heap.
\<close>

lemma receive_if_new:
  assumes ok: "rb_ok (recv_buf (sock w)) (segs w) xs" and "payload \<noteq> []"
    and len: "unat n = length payload" "unat seq + length payload < 2 ^ 32"
  defines "rb \<equiv> recv_buf (sock w)"
  shows "\<exists>rb' h'. (if recv_buffer_can_receive rb seq n = 0
       then bindF (recv_buffer_receive rb (segs w) seq n payload) (\<lambda>(rb, h).
              Inr (upd_sock (\<lambda>s. s\<lparr>recv_buf := rb\<rparr>) (w\<lparr>segs := h\<rparr>)))
       else Inr w) = Inr (upd_sock (\<lambda>s. s\<lparr>recv_buf := rb'\<rparr>) (w\<lparr>segs := h'\<rparr>))
    \<and> takes_segment rb (segs w) (unat seq) payload rb' h'"
proof -
  have n0: "n \<noteq> 0" using assms(2) len(1) by (metis length_0_conv unat_0)
  have rok: "rb_ok rb (segs w) xs" and wf: "rb_wf rb" using ok by (simp_all add: rb_def rb_ok_def)
  have cr: "recv_buffer_can_receive rb seq n = 0 \<longleftrightarrow> accepts rb (unat seq) (length payload)"
    using can_receive_cases [OF wf n0, of seq] len assms(2) by (auto simp: accepts_def)
  show ?thesis
  proof (cases "accepts rb (unat seq) (length payload)")
    case True
    then have acc: "read_seq rb < unat seq" "expected_seq rb < unat seq + unat n"
      "unat seq + unat n \<le> read_seq rb + rcap rb" "unat seq + unat n < 2 ^ 32" "unat n \<le> length payload"
      using len by (simp_all add: accepts_def)
    obtain rb' h' where "recv_buffer_receive rb (segs w) seq n payload = Inr (rb', h')"
      "takes_segment rb (segs w) (unat seq) payload rb' h'"
      using recv_buffer_receive_ok [OF rok acc(1) n0 acc(5,2,3,4)] True len(1)
      unfolding takes_segment_def by auto
    then show ?thesis using cr True by auto
  next
    case False
    have "upd_sock (\<lambda>s. s\<lparr>recv_buf := rb\<rparr>) (w\<lparr>segs := segs w\<rparr>) = w" by (simp add: upd_sock_def rb_def)
    then show ?thesis
      using False cr takes_no_segment [OF rok False] by (intro exI [of _ rb] exI [of _ "segs w"]) simp
  qed
qed

lemma handle_data_ok:
  assumes ok: "rb_ok (recv_buf (sock w)) (segs w) xs" and ne: "payload \<noteq> []"
    and len: "length payload + 25 < 2 ^ 16" "unat seq + length payload < 2 ^ 32"
  shows "\<exists>w'. handle_data w (peer_packet src dst seq ack flags adv payload) (of_nat (length payload)) = Inr w'
    \<and> outbox w' = outbox w @ [ack_packet w'] \<and> inbox w' = inbox w \<and> conn (sock w') = conn (sock w)
    \<and> send_buf (sock w') = send_buf (sock w)
    \<and> rcvd_advertised_window (window (sock w')) = rcvd_advertised_window (window (sock w))
    \<and> last_ack_received (window (sock w')) = last_ack_received (window (sock w))
    \<and> initialized (sock w') = initialized (sock w)
    \<and> next_seq_expected (window (sock w')) = get_next_byte_expected_seqnum (recv_buf (sock w'))
    \<and> takes_segment (recv_buf (sock w)) (segs w) (unat seq) payload (recv_buf (sock w')) (segs w')"
proof -
  let ?rb = "recv_buf (sock w)"
  note f = peer_packet_fields [OF len(1)]
  let ?n = "ucast (of_nat (length payload) :: u16) :: u32"
  have n: "unat ?n = length payload" using f(8) by simp
  obtain rb' h' where r: "(if recv_buffer_can_receive ?rb seq ?n = 0
       then bindF (recv_buffer_receive ?rb (segs w) seq ?n payload) (\<lambda>(rb, h).
              Inr (upd_sock (\<lambda>s. s\<lparr>recv_buf := rb\<rparr>) (w\<lparr>segs := h\<rparr>)))
       else Inr w) = Inr (upd_sock (\<lambda>s. s\<lparr>recv_buf := rb'\<rparr>) (w\<lparr>segs := h'\<rparr>))"
    and st: "takes_segment ?rb (segs w) (unat seq) payload rb' h'"
    using receive_if_new [OF ok ne n len(2)] by blast
  define w2 where "w2 = upd_window (\<lambda>v. v\<lparr>next_seq_expected := get_next_byte_expected_seqnum rb'\<rparr>)
      (upd_sock (\<lambda>s. s\<lparr>recv_buf := rb'\<rparr>) (w\<lparr>segs := h'\<rparr>))"
  have w2: "recv_buf (sock w2) = rb'" "segs w2 = h'" "inbox w2 = inbox w" "outbox w2 = outbox w"
    "send_buf (sock w2) = send_buf (sock w)" "conn (sock w2) = conn (sock w)"
    "rcvd_advertised_window (window (sock w2)) = rcvd_advertised_window (window (sock w))"
    "last_ack_received (window (sock w2)) = last_ack_received (window (sock w))"
    "next_seq_expected (window (sock w2)) = get_next_byte_expected_seqnum (recv_buf (sock w2))"
    by (simp_all add: w2_def upd_window_def)
  have "initialized (sock w2) = initialized (sock w)" by (simp add: w2_def)
  have "handle_data w (peer_packet src dst seq ack flags adv payload) (of_nat (length payload)) = send_pure_ack w2"
    unfolding handle_data_def f(3,6) bindF.simps f(7) r by (simp add: w2_def)
  also have "\<dots> = Inr (w2\<lparr>outbox := outbox w @ [ack_packet w2]\<rparr>)"
    using send_pure_ack_ok [OF w2(9)] w2(4) by simp
  finally show ?thesis
    using \<open>initialized (sock w2) = _\<close> w2 st by (intro exI [of _ "w2\<lparr>outbox := outbox w @ [ack_packet w2]\<rparr>"]) (simp add: ack_packet_def)
qed

lemma handle_message_ok:
  assumes ok: "host_ok w"
    and flags: "flags AND ACK_FLAG_MASK \<noteq> 0" "flags AND SYN_FLAG_MASK = 0" "flags AND FIN_FLAG_MASK = 0"
    and ack: "ack_admissible (send_buf (sock w)) ack"
    and len: "length payload + 25 < 2 ^ 16" "unat seq + length payload < 2 ^ 32"
  shows "\<exists>w'. handle_message w (peer_packet src dst seq ack flags adv payload) = Inr w'
    \<and> takes_ack w ack (send_buf (sock w'))
    \<and> rcvd_advertised_window (window (sock w')) = adv
    \<and> last_ack_received (window (sock w')) = MAX_u32 (last_ack_received (window (sock w))) ack
    \<and> outbox w' = outbox w @ (if payload = [] then [] else [ack_packet w'])
    \<and> inbox w' = inbox w \<and> conn (sock w') = conn (sock w) \<and> initialized (sock w') = initialized (sock w)
    \<and> takes_segment (recv_buf (sock w)) (segs w) (unat seq) payload (recv_buf (sock w')) (segs w')
    \<and> next_seq_expected (window (sock w')) =
        (if payload = [] then next_seq_expected (window (sock w))
         else get_next_byte_expected_seqnum (recv_buf (sock w')))"
proof -
  let ?p = "peer_packet src dst seq ack flags adv payload"
  obtain xs where rok: "rb_ok (recv_buf (sock w)) (segs w) xs" using ok by (auto simp: host_ok_def)
  note f = peer_packet_fields [OF len(1)]
  obtain w1 where w1: "handle_ack w ack = Inr w1" "segs w1 = segs w" "inbox w1 = inbox w"
    "outbox w1 = outbox w" "recv_buf (sock w1) = recv_buf (sock w)" "conn (sock w1) = conn (sock w)"
    "next_seq_expected (window (sock w1)) = next_seq_expected (window (sock w))"
    "last_ack_received (window (sock w1)) = MAX_u32 (last_ack_received (window (sock w))) ack"
    "initialized (sock w1) = initialized (sock w)"
    "takes_ack w ack (send_buf (sock w1))"
    using handle_ack_ok [OF _ _ ack] ok unfolding host_ok_def by blast
  define w2 where "w2 = upd_window (\<lambda>v. v\<lparr>rcvd_advertised_window := adv\<rparr>) w1"
  have w2: "segs w2 = segs w" "inbox w2 = inbox w" "outbox w2 = outbox w"
    "recv_buf (sock w2) = recv_buf (sock w)"
    "conn (sock w2) = conn (sock w)" "send_buf (sock w2) = send_buf (sock w1)"
    "rcvd_advertised_window (window (sock w2)) = adv"
    "next_seq_expected (window (sock w2)) = next_seq_expected (window (sock w))"
    "last_ack_received (window (sock w2)) = MAX_u32 (last_ack_received (window (sock w))) ack"
    "initialized (sock w2) = initialized (sock w)"
    using w1 by (simp_all add: w2_def)
  have z: "(of_nat (length payload) :: u16) = 0 \<longleftrightarrow> payload = []"
  proof -
    have "(of_nat (length payload) :: u16) = 0 \<longleftrightarrow> unat (of_nat (length payload) :: u16) = 0"
      by (rule unat_eq_0 [symmetric])
    then show ?thesis unfolding f(8) by simp
  qed
  have hm: "handle_message w ?p =
      (if payload \<noteq> [] then handle_data w2 ?p (of_nat (length payload)) else Inr w2)"
    using flags by (simp add: handle_message_def f w1(1) Let_def w2_def z)
  show ?thesis
  proof (cases "payload = []")
    case True
    then have "takes_segment (recv_buf (sock w)) (segs w) (unat seq) payload (recv_buf (sock w)) (segs w)"
      by (intro takes_no_segment [OF rok]) (simp add: accepts_def)
    then show ?thesis using True hm w1(10) w2 by simp
  next
    case False
    have "rb_ok (recv_buf (sock w2)) (segs w2) xs" using rok w2 by simp
    from handle_data_ok [OF this False len, of src dst ack flags adv] obtain w' where
      h: "handle_data w2 ?p (of_nat (length payload)) = Inr w'" and
      "outbox w' = outbox w @ [ack_packet w']" "inbox w' = inbox w" "conn (sock w') = conn (sock w)"
      "rcvd_advertised_window (window (sock w')) = adv" "initialized (sock w') = initialized (sock w)"
      "last_ack_received (window (sock w')) = MAX_u32 (last_ack_received (window (sock w))) ack"
      "next_seq_expected (window (sock w')) = get_next_byte_expected_seqnum (recv_buf (sock w'))"
      "takes_segment (recv_buf (sock w)) (segs w) (unat seq) payload (recv_buf (sock w')) (segs w')"
      and s: "send_buf (sock w') = send_buf (sock w1)"
      unfolding w2 by blast
    moreover have "takes_ack w ack (send_buf (sock w'))"
      using w1(10) unfolding s .
    moreover have "handle_message w ?p = Inr w'" using hm h False by simp
    ultimately show ?thesis using False by (intro exI [of _ w']) simp
  qed
qed

text \<open>
  C12: A packet of a connected peer that acknowledges nothing but bytes in flight. The send
  buffer takes the acknowledgement unless it is the one already noted, the greater of the two
  is noted, the window is the packet's; without data that is all.
  With data, a segment that fits the window and is not old is received, any other is not;
  either way one acknowledgement goes out, with the next byte now expected.
\<close>

theorem handle_message_correct:
  assumes "host_ok w"
    and "flags AND ACK_FLAG_MASK \<noteq> 0" and "flags AND SYN_FLAG_MASK = 0" and "flags AND FIN_FLAG_MASK = 0"
    and "ack_admissible (send_buf (sock w)) ack"
    and "length payload + 25 < 2 ^ 16" and "unat seq + length payload < 2 ^ 32"
  defines "rb \<equiv> recv_buf (sock w)"
  defines "accepted \<equiv> payload \<noteq> [] \<and> read_seq rb < unat seq \<and> expected_seq rb < unat seq + length payload
      \<and> unat seq + length payload \<le> read_seq rb + rcap rb"
  shows "\<exists>w'. handle_message w (peer_packet src dst seq ack flags adv payload) = Inr w'
    \<and> (if ack = last_ack_received (window (sock w)) then send_buf (sock w') = send_buf (sock w)
       else send_buffer_update_ack (clock w) (send_buf (sock w)) ack = Inr (send_buf (sock w')))
    \<and> last_ack_received (window (sock w')) = MAX_u32 (last_ack_received (window (sock w))) ack
    \<and> next_seq_expected (window (sock w')) =
        (if payload = [] then next_seq_expected (window (sock w))
         else get_next_byte_expected_seqnum (recv_buf (sock w')))
    \<and> rcvd_advertised_window (window (sock w')) = adv
    \<and> outbox w' = outbox w @ (if payload = [] then [] else [ack_packet w'])
    \<and> inbox w' = inbox w \<and> conn (sock w') = conn (sock w)
    \<and> (\<exists>xs. rb_ok (recv_buf (sock w')) (segs w') xs)
    \<and> read_seq (recv_buf (sock w')) = read_seq rb
    \<and> (\<forall>q. rb_has (recv_buf (sock w')) (segs w') q \<longleftrightarrow> rb_has rb (segs w) q
          \<or> accepted \<and> unat seq \<le> q \<and> q < unat seq + length payload)
    \<and> (\<forall>q. accepted \<and> unat seq \<le> q \<and> q < unat seq + length payload \<longrightarrow>
          byte_at (recv_buf (sock w')) q = payload ! (q - unat seq))"
proof -
  have a: "accepts rb (unat seq) (length payload) \<longleftrightarrow> accepted"
    by (auto simp: accepts_def accepted_def)
  have "read_seq rb < q \<and> q < read_seq rb + rcap rb"
    if "accepted \<and> unat seq \<le> q \<and> q < unat seq + length payload" for q
    using that unfolding accepted_def by linarith
  note range = this
  from handle_message_ok [OF assms(1-7), of src dst adv] obtain w' where
    h: "handle_message w (peer_packet src dst seq ack flags adv payload) = Inr w'"
      "takes_ack w ack (send_buf (sock w'))" and
    f: "rcvd_advertised_window (window (sock w')) = adv"
      "last_ack_received (window (sock w')) = MAX_u32 (last_ack_received (window (sock w))) ack"
      "outbox w' = outbox w @ (if payload = [] then [] else [ack_packet w'])"
      "inbox w' = inbox w" "conn (sock w') = conn (sock w)" and
    s: "takes_segment rb (segs w) (unat seq) payload (recv_buf (sock w')) (segs w')" and
    n: "next_seq_expected (window (sock w')) = (if payload = [] then next_seq_expected (window (sock w))
         else get_next_byte_expected_seqnum (recv_buf (sock w')))"
    unfolding rb_def by blast
  have "byte_at (recv_buf (sock w')) q = payload ! (q - unat seq)"
    if "accepted \<and> unat seq \<le> q \<and> q < unat seq + length payload" for q
    using s range [OF that] that by (simp add: takes_segment_def a)
  then show ?thesis
    using h f n s unfolding takes_segment_def a takes_ack_def by (intro exI [of _ w'] conjI) blast+
qed

lemma host_example_ok: "host_ok host_example"
proof -
  have "sb_room sb_example" by (simp add: sb_room_def sb_example_def cap_def)
  then show ?thesis using sb_example_wf rb_example_ok(1) by (auto simp: host_ok_def)
qed

lemma ack_admissible_old: "a - 1 \<le> last_byte_acked_seqnum sb \<Longrightarrow> ack_admissible sb a"
  by (simp add: ack_admissible_def)

theorem handle_message_correct_witness:
  "\<exists>w'. handle_message host_example (peer_packet 1 2 101 101 ACK_FLAG_MASK 500 [7, 8]) = Inr w'
    \<and> outbox w' = [ack_packet w'] \<and> rb_has (recv_buf (sock w')) (segs w') 102
    \<and> byte_at (recv_buf (sock w')) 102 = 8"
proof -
  have a: "ack_admissible (send_buf (sock host_example)) 101"
    by (rule ack_admissible_old) (simp add: sb_example_def)
  have o: "outbox host_example = []" by (simp add: host_example_def)
  show ?thesis
    using handle_message_correct [OF host_example_ok _ _ _ a, of ACK_FLAG_MASK "[7, 8]" 101 1 2 500]
    by (auto simp: rb_example_ok o ACK_FLAG_MASK_def SYN_FLAG_MASK_def FIN_FLAG_MASK_def)
qed

section \<open>The next datagram\<close>

lemma recv_packet_one:
  assumes "inbox w = (from, d) # rest" and "0 < length d"
  shows "recv_packet w (length d) =
    Inr (d, upd_sock (\<lambda>s. s\<lparr>conn := from\<rparr>) (w\<lparr>inbox := rest\<rparr>))"
proof -
  have "recv_loop from rest (length d) d = Inr (d, from, rest)"
    by (cases rest) auto
  then show ?thesis using assms by (simp add: recv_packet_def)
qed

lemma recvfrom_peek_header:
  assumes "inbox w = (from, d) # rest"
  shows "recvfrom_peek w sizeof_header = Some (take 25 d, upd_sock (\<lambda>s. s\<lparr>conn := from\<rparr>) w)"
  using assms by (simp add: recvfrom_peek_def)

lemma take_header: "take 25 (wire_header src dst seq ack hlen plen flags adv ext @ rest) =
    wire_header src dst seq ack hlen plen flags adv ext @ []"
  by simp

lemma peek_then_recv:
  assumes "inbox w = (from, peer_packet src dst seq ack flags adv p) # rest" (is "_ = (_, ?d) # _")
    and "length p + 25 < 2 ^ 16"
  shows "\<exists>hdr w1 plen. recvfrom_peek w sizeof_header = Some (hdr, w1) \<and> sizeof_header \<le> length hdr
    \<and> get_plen hdr = Inr plen
    \<and> recv_packet w1 (unat plen) = Inr (?d, upd_sock (\<lambda>s. s\<lparr>conn := from\<rparr>) (w\<lparr>inbox := rest\<rparr>))"
proof -
  have pl: "unat (25 + of_nat (length p) :: u16) = length ?d"
    using assms(2) by (simp add: peer_packet_def unat_word_ariths unat_of_nat)
  have gp: "get_plen (take 25 ?d) = Inr (25 + of_nat (length p))"
    unfolding peer_packet_def take_header by (rule get_wire_header)
  have "length ?d = 25 + length p" by (simp add: peer_packet_def)
  then have d: "0 < length ?d" "sizeof_header \<le> length (take 25 ?d)" by simp_all
  let ?w = "upd_sock (\<lambda>s. s\<lparr>conn := from\<rparr>) w"
  have "recv_packet ?w (length ?d) = Inr (?d, upd_sock (\<lambda>s. s\<lparr>conn := from\<rparr>) (?w\<lparr>inbox := rest\<rparr>))"
    using recv_packet_one [of ?w "from" ?d rest] assms(1) d(1) by simp
  moreover have "upd_sock (\<lambda>s. s\<lparr>conn := from\<rparr>) (?w\<lparr>inbox := rest\<rparr>) =
      upd_sock (\<lambda>s. s\<lparr>conn := from\<rparr>) (w\<lparr>inbox := rest\<rparr>)"
    by (simp add: upd_sock_def)
  ultimately show ?thesis
    using recvfrom_peek_header [OF assms(1)] d(2) gp pl by metis
qed

lemma check_for_data_packet_ok:
  assumes "inbox w = (from, peer_packet src dst seq ack flags adv payload) # rest"
    and "length payload + 25 < 2 ^ 16"
  shows "check_for_data w mode =
    handle_message (upd_sock (\<lambda>s. s\<lparr>conn := from\<rparr>) (w\<lparr>inbox := rest\<rparr>))
      (peer_packet src dst seq ack flags adv payload)"
  using peek_then_recv [OF assms] by (auto simp: check_for_data_def)

text \<open>
  A datagram that holds one well-formed packet is taken from the socket and handled, and
  whoever sent it becomes the peer: everything sent from then on goes to its address.
\<close>

lemma check_for_data_packet:
  assumes "inbox w = (from, peer_packet src dst seq ack flags adv payload) # rest"
    and "length payload + 25 < 2 ^ 16"
  shows "check_for_data w mode =
    handle_message (upd_sock (\<lambda>s. s\<lparr>conn := from\<rparr>) (w\<lparr>inbox := rest\<rparr>))
      (peer_packet src dst seq ack flags adv payload)"
  using check_for_data_packet_ok [OF assms] .

lemma check_for_data_packet_witness:
  "check_for_data (host_example\<lparr>inbox := [(\<lparr>sin_addr = 6, sin_port = 7\<rparr>, peer_packet 1 2 101 101 ACK_FLAG_MASK 500 [7, 8])]\<rparr>) NO_WAIT =
    handle_message (upd_sock (\<lambda>s. s\<lparr>conn := \<lparr>sin_addr = 6, sin_port = 7\<rparr>\<rparr>) (host_example\<lparr>inbox := []\<rparr>))
      (peer_packet 1 2 101 101 ACK_FLAG_MASK 500 [7, 8])"
  using check_for_data_packet [of "host_example\<lparr>inbox := [(\<lparr>sin_addr = 6, sin_port = 7\<rparr>, peer_packet 1 2 101 101 ACK_FLAG_MASK 500 [7, 8])]\<rparr>"
      "\<lparr>sin_addr = 6, sin_port = 7\<rparr>" 1 2 101 101 ACK_FLAG_MASK 500 "[7, 8]" "[]" NO_WAIT]
  by simp

section \<open>Packets the code does not expect\<close>

lemma check_for_data_fails:
  assumes "inbox w = (from, peer_packet src dst seq ack flags adv payload) # rest"
    and "length payload + 25 < 2 ^ 16"
    and "flags AND ACK_FLAG_MASK = 0 \<or> flags AND SYN_FLAG_MASK \<noteq> 0"
  shows "check_for_data w mode = Inl AssertFail"
  unfolding check_for_data_packet_ok [OF assms(1,2)]
  using assms(3)
  by (cases "flags AND ACK_FLAG_MASK = 0") (auto simp: handle_message_def peer_packet_fields [OF assms(2)])

text \<open>
  A connected socket that receives a packet with the SYN flag, or without the ACK flag,
  aborts the process. A repeated SYN-ACK, which the server sends whenever it sees the
  client's SYN twice, is such a packet.
\<close>

lemma check_for_data_aborts:
  assumes "inbox w = (from, peer_packet src dst seq ack flags adv payload) # rest"
    and "length payload + 25 < 2 ^ 16"
    and "flags AND ACK_FLAG_MASK = 0 \<or> flags AND SYN_FLAG_MASK \<noteq> 0"
  shows "check_for_data w mode = Inl AssertFail"
  using check_for_data_fails [OF assms] .

lemma check_for_data_aborts_witness:
  "check_for_data (host_example\<lparr>inbox := [(\<lparr>sin_addr = 1, sin_port = 0\<rparr>,
      peer_packet 1 2 100 101 (SYN_FLAG_MASK OR ACK_FLAG_MASK) 500 [])]\<rparr>) NO_WAIT = Inl AssertFail"
proof -
  have "(SYN_FLAG_MASK OR ACK_FLAG_MASK) AND SYN_FLAG_MASK \<noteq> 0" by code_simp
  from check_for_data_aborts [where payload = "[]" and rest = "[]", OF _ _ disjI2 [OF this]]
  show ?thesis by simp
qed

text \<open>
  C39: A datagram shorter than a header is looked at and left where it is; so it is looked at
  again each time, and no datagram behind it is ever received. Its sender becomes the peer.
\<close>

theorem check_for_data_short:
  assumes "inbox w = (from, d) # rest" and "length d < sizeof_header"
  shows "check_for_data w mode = Inr (upd_sock (\<lambda>s. s\<lparr>conn := from\<rparr>) w)
    \<and> (\<exists>w'. check_for_data w mode = Inr w' \<and> inbox w' = inbox w
         \<and> check_for_data (w'\<lparr>inbox := inbox w' @ later\<rparr>) mode = Inr (w'\<lparr>inbox := inbox w' @ later\<rparr>))"
proof -
  have s: "check_for_data v mode = Inr (upd_sock (\<lambda>s. s\<lparr>conn := from\<rparr>) v)"
    if "inbox v = (from, d) # r" for v r
    using recvfrom_peek_header [OF that] assms(2) by (simp add: check_for_data_def)
  let ?w = "upd_sock (\<lambda>s. s\<lparr>conn := from\<rparr>) w"
  have "check_for_data (?w\<lparr>inbox := inbox ?w @ later\<rparr>) mode = Inr (?w\<lparr>inbox := inbox ?w @ later\<rparr>)"
    using s [of "?w\<lparr>inbox := inbox ?w @ later\<rparr>" "rest @ later"] assms(1) by (simp add: upd_sock_def)
  then show ?thesis using s [OF assms(1)] by simp
qed

theorem check_for_data_short_witness:
  "\<exists>w'. check_for_data (host_example\<lparr>inbox := [(\<lparr>sin_addr = 6, sin_port = 7\<rparr>, [0])]\<rparr>) NO_WAIT = Inr w'
    \<and> inbox w' = [(\<lparr>sin_addr = 6, sin_port = 7\<rparr>, [0])]"
  using check_for_data_short [of "host_example\<lparr>inbox := [(\<lparr>sin_addr = 6, sin_port = 7\<rparr>, [0])]\<rparr>"
      "\<lparr>sin_addr = 6, sin_port = 7\<rparr>" "[0]" "[]" NO_WAIT "[]"]
  by auto

text \<open>
  C40: The packet length in the header is believed. A header that announces more bytes than
  have arrived makes the thread wait for them in a blocking call; one that announces fewer
  than reach the flags makes it read past the block it allocated.
\<close>

theorem check_for_data_bad_length:
  assumes "inbox w = [(from, wire_header src dst seq ack hlen plen flags adv ext @ payload)]"
  shows "(25 + length payload < unat plen \<longrightarrow> check_for_data w mode = Inl Blocked)
    \<and> (unat plen \<le> 20 \<longrightarrow> check_for_data w mode = Inl OutOfBounds)"
proof -
  let ?d = "wire_header src dst seq ack hlen plen flags adv ext @ payload"
  let ?w = "upd_sock (\<lambda>s. s\<lparr>conn := from\<rparr>) w"
  have pk: "recvfrom_peek w sizeof_header = Some (take 25 ?d, ?w)" by (rule recvfrom_peek_header [OF assms])
  have gp: "get_plen (take 25 ?d) = Inr plen" unfolding take_header by (rule get_wire_header)
  have cd: "check_for_data w mode = bindF (recv_packet ?w (unat plen)) (\<lambda>(pkt, w). handle_message w pkt)"
    unfolding check_for_data_def pk using gp by simp
  have long: "check_for_data w mode = Inl Blocked" if "25 + length payload < unat plen"
    using that assms unfolding cd by (simp add: recv_packet_def)
  have short: "check_for_data w mode = Inl OutOfBounds" if l: "unat plen \<le> 20"
  proof -
    obtain pkt v where "recv_packet ?w (unat plen) = Inr (pkt, v)" "length pkt = unat plen"
      using l assms by (cases "unat plen = 0") (auto simp: recv_packet_def)
    moreover have "handle_message v pkt = Inl OutOfBounds" if "length pkt = unat plen" for v pkt
      using that l by (simp add: handle_message_def get_flags_def load8_def)
    ultimately show ?thesis unfolding cd by simp
  qed
  show ?thesis using long short by blast
qed

theorem check_for_data_bad_length_witness:
  "check_for_data (host_example\<lparr>inbox := [(\<lparr>sin_addr = 1, sin_port = 0\<rparr>,
      wire_header 1 2 100 101 25 4 ACK_FLAG_MASK 500 0 @ [])]\<rparr>) NO_WAIT = Inl OutOfBounds"
  using check_for_data_bad_length [of "host_example\<lparr>inbox := [(\<lparr>sin_addr = 1, sin_port = 0\<rparr>,
      wire_header 1 2 100 101 25 4 ACK_FLAG_MASK 500 0 @ [])]\<rparr>" "\<lparr>sin_addr = 1, sin_port = 0\<rparr>"
      1 2 100 101 25 4 ACK_FLAG_MASK 500 0 "[]" NO_WAIT]
  by simp

text \<open>
  A packet with the FIN flag is dropped: it changes nothing and is not acknowledged, so a
  peer that closes is never told and never noticed.
\<close>

lemma handle_message_ignores_fin:
  assumes "length payload + 25 < 2 ^ 16"
    and "flags AND ACK_FLAG_MASK \<noteq> 0" and "flags AND SYN_FLAG_MASK = 0" and "flags AND FIN_FLAG_MASK \<noteq> 0"
  shows "handle_message w (peer_packet src dst seq ack flags adv payload) = Inr w"
  using assms(2-4) by (simp add: handle_message_def peer_packet_fields [OF assms(1)])

lemma handle_message_ignores_fin_witness:
  "handle_message host_example (peer_packet 1 2 101 101 (ACK_FLAG_MASK OR FIN_FLAG_MASK) 500 []) =
    Inr host_example"
proof (rule handle_message_ignores_fin)
  show "(ACK_FLAG_MASK OR FIN_FLAG_MASK) AND ACK_FLAG_MASK \<noteq> 0" by code_simp
  show "(ACK_FLAG_MASK OR FIN_FLAG_MASK) AND SYN_FLAG_MASK = 0" by code_simp
  show "(ACK_FLAG_MASK OR FIN_FLAG_MASK) AND FIN_FLAG_MASK \<noteq> 0" by code_simp
qed simp

end
