(* ===== verification/Handshake.thy ===== *)
theory Handshake
  imports Backend_Receive
begin

text \<open>
  The three-way handshake: the two functions of \<open>backend.c\<close> run against each other's
  packets, with the retransmissions each of them makes, and what happens to a client whose
  SYN was answered twice.
\<close>

section \<open>The three packets\<close>

definition control_header :: "u16 \<Rightarrow> sockaddr_in \<Rightarrow> u32 \<Rightarrow> u32 \<Rightarrow> u8 \<Rightarrow> u8 list" where
  "control_header src peer seq ack flags =
     wire_header src (ntohs (sin_port peer)) seq ack 25 25 flags (of_nat CP1_WINDOW_SIZE) 0"

lemma control_header_fields [simp]:
  "get_flags (control_header src peer seq ack flags) = Inr flags"
  "get_seq (control_header src peer seq ack flags) = Inr seq"
  "get_ack (control_header src peer seq ack flags) = Inr ack"
  "get_plen (control_header src peer seq ack flags) = Inr 25"
  "get_advertised_window (control_header src peer seq ack flags) = Inr (of_nat CP1_WINDOW_SIZE)"
  "get_payload_len (control_header src peer seq ack flags) = Inr 0"
  "length (control_header src peer seq ack flags) = 25"
  using get_wire_header [where rest = "[]"] get_payload_len_wire_header [where rest = "[]"]
  by (simp_all add: control_header_def)

lemma make_control:
  "make_packet w seq ack 25 flags (of_nat CP1_WINDOW_SIZE) [] 0 =
    Inr (Some (control_header (my_port (sock w)) (conn (sock w)) seq ack flags))"
  using make_packet_ok [of 0 "[]" w seq ack flags "of_nat CP1_WINDOW_SIZE"]
  by (simp add: control_header_def)

lemma sendto_control: "length p = 25 \<Longrightarrow> sendto w (Some p) 25 = Inr (w\<lparr>outbox := outbox w @ [(conn (sock w), p)]\<rparr>)"
  by (simp add: sendto_def)

lemma flag_tests:
  "SYN_FLAG_MASK AND ACK_FLAG_MASK = 0" "SYN_FLAG_MASK AND SYN_FLAG_MASK \<noteq> 0"
  "(SYN_FLAG_MASK OR ACK_FLAG_MASK) AND SYN_FLAG_MASK \<noteq> 0"
  "(SYN_FLAG_MASK OR ACK_FLAG_MASK) AND ACK_FLAG_MASK \<noteq> 0"
  "ACK_FLAG_MASK AND ACK_FLAG_MASK \<noteq> 0" "ACK_FLAG_MASK AND SYN_FLAG_MASK = 0"
  "ACK_FLAG_MASK AND FIN_FLAG_MASK = 0" "SYN_FLAG_MASK \<noteq> 0" "ACK_FLAG_MASK \<noteq> 0"
  by code_simp+

section \<open>The client\<close>

definition client_ready :: "host \<Rightarrow> bool" where
  "client_ready w \<longleftrightarrow> sock_type (sock w) = TCP_INITIATOR
     \<and> last_byte_read_seqnum (recv_buf (sock w)) = 0 \<and> counter1 w = 0 \<and> counter2 w = 0"

definition client_syn :: "host \<Rightarrow> u8 list" where
  "client_syn w = control_header (my_port (sock w)) (conn (sock w))
     (last_ack_received (window (sock w))) 0 SYN_FLAG_MASK"

text \<open>What the client is after the server's header arrived from \<open>srv\<close> with number \<open>j\<close>.\<close>

definition client_established :: "host \<Rightarrow> sockaddr_in \<Rightarrow> u32 \<Rightarrow> cmu_socket_t" where
  "client_established w srv j =
     (sock w)\<lparr>conn := srv, state := ESTABLISHED, initialized := True,
       recv_buf := (recv_buf (sock w))\<lparr>last_byte_read_seqnum := j, last_byte_read_index := 0,
         next_byte_expected_index := 1\<rparr>,
       window := (window (sock w))\<lparr>last_ack_received := last_ack_received (window (sock w)) + 1,
         next_seq_expected := j + 1\<rparr>\<rparr>"

lemma client_resends:
  assumes "counter1 w = 0" and "state (sock w) = SYN_SENT" and "length p = 25"
  shows "client_loop w (Some p) 25 (replicate k True @ polls) =
    client_loop (w\<lparr>outbox := outbox w @ replicate k (conn (sock w), p)\<rparr>) (Some p) 25 polls"
  using assms
proof (induction k arbitrary: w)
  case 0
  then show ?case by simp
next
  case (Suc k)
  let ?w = "w\<lparr>outbox := outbox w @ [(conn (sock w), p)]\<rparr>"
  have "client_turn w (Some p) 25 True = Inr ?w"
    using Suc.prems by (simp add: client_turn_def send_syn_def counter1_lim_def sendto_control)
  then show ?case using Suc.IH [of ?w] Suc.prems by simp
qed

lemma init_handshake_client_ok:
  assumes rdy: "client_ready w"
    and inb: "inbox w = (srv, control_header src peer j (last_ack_received (window (sock w)) + 1)
        (SYN_FLAG_MASK OR ACK_FLAG_MASK)) # rest"
  shows "init_handshake_client w (replicate k True @ False # polls) =
    Inr (w\<lparr>sock := client_established w srv j, inbox := rest,
      outbox := outbox w @ replicate (Suc k) (conn (sock w), client_syn w)
        @ [(srv, control_header (my_port (sock w)) srv (last_ack_received (window (sock w)) + 1) (j + 1)
              ACK_FLAG_MASK)]\<rparr>)"
proof -
  let ?i = "last_ack_received (window (sock w))" and ?p = "client_syn w"
  have p: "make_packet w ?i 0 25 SYN_FLAG_MASK (of_nat CP1_WINDOW_SIZE) [] 0 = Inr (Some ?p)" "length ?p = 25"
    using make_control by (simp_all add: client_syn_def)
  have c: "counter1 w = 0" "counter2 w = 0" using rdy by (simp_all add: client_ready_def)
  define w1 where "w1 = upd_sock (\<lambda>s. s\<lparr>state := SYN_SENT\<rparr>) (w\<lparr>outbox := outbox w @ [(conn (sock w), ?p)]\<rparr>)"
  define w2 where "w2 = w1\<lparr>outbox := outbox w1 @ replicate k (conn (sock w1), ?p)\<rparr>"
  have "init_handshake_client w (replicate k True @ False # polls) =
      bindF (client_loop w1 (Some ?p) 25 (replicate k True @ False # polls)) (\<lambda>w.
        Inr (upd_sock (\<lambda>s. s\<lparr>initialized := True\<rparr>) w))"
    using rdy p c
    by (simp add: init_handshake_client_def client_ready_def Let_def send_syn_def counter1_lim_def
      sendto_control w1_def)
  also have "client_loop w1 (Some ?p) 25 (replicate k True @ False # polls) =
      client_loop w2 (Some ?p) 25 (False # polls)"
    unfolding w2_def using client_resends [of w1 ?p k "False # polls"] c p(2) by (simp add: w1_def)
  also have "client_loop w2 (Some ?p) 25 (False # polls) =
      bindF (client_turn w2 (Some ?p) 25 False) (\<lambda>w. client_loop w (Some ?p) 25 polls)"
    by (simp add: w2_def w1_def)
  also have "client_turn w2 (Some ?p) 25 False =
      Inr (w2\<lparr>sock := (client_established w srv j)\<lparr>initialized := initialized (sock w)\<rparr>, inbox := rest,
        outbox := outbox w2 @ [(srv, control_header (my_port (sock w)) srv (?i + 1) (j + 1) ACK_FLAG_MASK)]\<rparr>)"
    using rdy inb c
    by (simp add: client_turn_def recvfrom_peek_def recvfrom_def w2_def w1_def client_syn_ack_def
      flag_tests recv_buffer_initialize_def client_ready_def Let_def upd_window_def upd_sock_def
      make_control counter2_lim_def sendto_control client_established_def)
  finally show ?thesis
    by (cases polls) (simp_all add: client_established_def w2_def w1_def upd_sock_def)
qed

section \<open>The server\<close>

definition server_ready :: "host \<Rightarrow> bool" where
  "server_ready w \<longleftrightarrow> sock_type (sock w) = TCP_LISTENER
     \<and> last_byte_read_seqnum (recv_buf (sock w)) = 0 \<and> counter3 w = 0
     \<and> last_byte_acked_seqnum (send_buf (sock w)) = last_ack_received (window (sock w))
     \<and> last_ack_received (window (sock w)) < - 1"

definition server_syn_ack :: "host \<Rightarrow> sockaddr_in \<Rightarrow> u32 \<Rightarrow> u8 list" where
  "server_syn_ack w cl i = control_header (my_port (sock w)) cl
     (last_ack_received (window (sock w))) (i + 1) (SYN_FLAG_MASK OR ACK_FLAG_MASK)"

definition server_received :: "host \<Rightarrow> sockaddr_in \<Rightarrow> u32 \<Rightarrow> cmu_socket_t" where
  "server_received w cl i =
     (sock w)\<lparr>conn := cl, state := SYN_RCVD, initialized := True,
       recv_buf := (recv_buf (sock w))\<lparr>last_byte_read_seqnum := i, last_byte_read_index := 0,
         next_byte_expected_index := 1\<rparr>,
       window := (window (sock w))\<lparr>next_seq_expected := i + 1\<rparr>\<rparr>"

definition server_established :: "host \<Rightarrow> sockaddr_in \<Rightarrow> u32 \<Rightarrow> cmu_socket_t" where
  "server_established w cl i =
     (server_received w cl i)\<lparr>state := ESTABLISHED,
       window := (window (sock w))\<lparr>next_seq_expected := i + 1,
         last_ack_received := last_ack_received (window (sock w)) + 1,
         rcvd_advertised_window := of_nat CP1_WINDOW_SIZE\<rparr>\<rparr>"

lemma server_listen_ok:
  assumes rdy: "server_ready w" and inb: "inbox w = (cl, control_header src peer i a SYN_FLAG_MASK) # rest"
  shows "server_listen w = Inr (w\<lparr>sock := server_received w cl i, inbox := rest,
      outbox := outbox w @ [(cl, server_syn_ack w cl i)]\<rparr>, Some (server_syn_ack w cl i))"
  using rdy inb
  by (simp add: server_listen_def recvfrom_def recv_buffer_initialize_def server_ready_def Let_def
    upd_window_def upd_sock_def make_control send_syn_ack_def counter3_lim_def sendto_control
    server_received_def server_syn_ack_def)

lemma recv_packet_control:
  assumes "inbox w = (cl, control_header src peer i a f) # rest"
  shows "recvfrom_peek w sizeof_header = Some (control_header src peer i a f, upd_sock (\<lambda>s. s\<lparr>conn := cl\<rparr>) w)"
    "recv_packet (upd_sock (\<lambda>s. s\<lparr>conn := cl\<rparr>) w) 25 =
      Inr (control_header src peer i a f, upd_sock (\<lambda>s. s\<lparr>conn := cl\<rparr>) (w\<lparr>inbox := rest\<rparr>))"
  using assms recv_packet_one [of "upd_sock (\<lambda>s. s\<lparr>conn := cl\<rparr>) w" cl "control_header src peer i a f" rest]
  by (simp_all add: recvfrom_peek_def upd_sock_def)

text \<open>The client's SYN again: the SYN-ACK again.\<close>

lemma server_resends:
  assumes "counter3 w = 0" and "length p = 25"
    and "inbox w = (cl, control_header src peer i a SYN_FLAG_MASK) # rest" and "conn (sock w) = cl"
  shows "server_syn_rcvd w (Some p) = Inr (w\<lparr>inbox := rest, outbox := outbox w @ [(cl, p)]\<rparr>)"
proof -
  have "upd_sock (\<lambda>s. s\<lparr>conn := cl\<rparr>) (w\<lparr>inbox := rest\<rparr>) = w\<lparr>inbox := rest\<rparr>"
    using assms(4) by (simp add: upd_sock_def)
  then show ?thesis
    using assms recv_packet_control [OF assms(3)]
    by (simp add: server_syn_rcvd_def flag_tests send_syn_ack_def counter3_lim_def sendto_control)
qed

lemma server_resends_loop:
  assumes "counter3 w = 0" and "length p = 25" and "state (sock w) = SYN_RCVD" and "conn (sock w) = cl"
    and "inbox w = replicate m (cl, control_header src peer i a SYN_FLAG_MASK) @ rest"
  shows "server_loop (m + n) w (Some p) =
    server_loop n (w\<lparr>inbox := rest, outbox := outbox w @ replicate m (cl, p)\<rparr>) (Some p)"
  using assms
proof (induction m arbitrary: w)
  case 0
  then show ?case by (cases w) simp
next
  case (Suc m)
  let ?rest = "replicate m (cl, control_header src peer i a SYN_FLAG_MASK) @ rest"
  let ?w = "w\<lparr>inbox := ?rest, outbox := outbox w @ [(cl, p)]\<rparr>"
  have "server_syn_rcvd w (Some p) = Inr ?w"
    using server_resends [of w p cl src peer i a ?rest] Suc.prems by simp
  then show ?case using Suc.IH [of ?w] Suc.prems by simp
qed

text \<open>The acknowledgement of the SYN-ACK.\<close>

lemma server_acked:
  assumes sk: "sock w = server_received w0 cl i" and rdy: "server_ready w0"
    and inb: "inbox w = (cl, control_header src peer q (last_ack_received (window (sock w0)) + 1) ACK_FLAG_MASK) # rest"
  shows "server_syn_rcvd w packet = Inr (w\<lparr>sock := server_established w0 cl i, inbox := rest\<rparr>)"
proof -
  let ?j = "last_ack_received (window (sock w0))"
  have "unat ?j < unat (- 1 :: u32)" using rdy by (simp add: server_ready_def word_less_nat_alt)
  then have "unat (?j + 1) = unat ?j + 1" using unat_uminus32 [of 1] by (subst unat_add32) simp_all
  then have j: "MAX_u32 ?j (?j + 1) = ?j + 1" "?j + 1 \<noteq> ?j"
    by (auto simp: MAX_u32_def word_less_nat_alt)
  have s: "last_ack_received (window (sock w)) = ?j" "conn (sock w) = cl"
    "last_byte_acked_seqnum (send_buf (sock w)) = ?j"
    using sk rdy by (simp_all add: server_received_def server_ready_def)
  have u: "send_buffer_update_ack tv (send_buf (sock w)) (?j + 1) = Inr (send_buf (sock w))" for tv
    by (rule update_ack_old) (simp add: s)
  have "upd_sock (\<lambda>s. s\<lparr>conn := cl\<rparr>) (w\<lparr>inbox := rest\<rparr>) = w\<lparr>inbox := rest\<rparr>"
    using s by (simp add: upd_sock_def)
  then have "server_syn_rcvd w packet =
      handle_message (upd_sock (\<lambda>s. s\<lparr>state := ESTABLISHED\<rparr>) (w\<lparr>inbox := rest\<rparr>))
        (control_header src peer q (?j + 1) ACK_FLAG_MASK)"
    using recv_packet_control [OF inb] s(1) by (simp add: server_syn_rcvd_def flag_tests)
  also have "\<dots> = Inr (w\<lparr>sock := server_established w0 cl i, inbox := rest\<rparr>)"
    using j u s(1) sk
    by (simp add: handle_message_def flag_tests handle_ack_def Let_def upd_window_def upd_sock_def)
      (simp add: server_established_def server_received_def)
  finally show ?thesis .
qed

lemma init_handshake_server_ok:
  assumes rdy: "server_ready w"
    and inb: "inbox w = replicate (Suc m) (cl, control_header src peer i a SYN_FLAG_MASK)
      @ (cl, control_header src' peer' q (last_ack_received (window (sock w)) + 1) ACK_FLAG_MASK) # rest"
    and turns: "m + 2 < turns"
  shows "init_handshake_server w turns = Inr (w\<lparr>sock := server_established w cl i, inbox := rest,
      outbox := outbox w @ replicate (Suc m) (cl, server_syn_ack w cl i)\<rparr>)"
proof -
  let ?p = "server_syn_ack w cl i"
  let ?ack = "(cl, control_header src' peer' q (last_ack_received (window (sock w)) + 1) ACK_FLAG_MASK)"
  obtain n where n: "turns = Suc (m + Suc (Suc n))"
    using less_imp_Suc_add [OF turns] by auto
  define w0 where "w0 = upd_sock (\<lambda>s. s\<lparr>state := LISTEN\<rparr>) w"
  have w0: "server_ready w0" "server_received w0 cl i = server_received w cl i"
    "server_established w0 cl i = server_established w cl i" "server_syn_ack w0 cl i = ?p"
    "inbox w0 = inbox w" "outbox w0 = outbox w" "state (sock w0) = LISTEN"
    "last_ack_received (window (sock w0)) = last_ack_received (window (sock w))"
    using rdy by (simp_all add: w0_def server_ready_def server_received_def server_established_def
      server_syn_ack_def)
  define w1 where "w1 = w0\<lparr>sock := server_received w0 cl i,
      inbox := replicate m (cl, control_header src peer i a SYN_FLAG_MASK) @ ?ack # rest,
      outbox := outbox w0 @ [(cl, ?p)]\<rparr>"
  have l: "server_listen w0 = Inr (w1, Some ?p)"
    using server_listen_ok [OF w0(1), of cl src peer i a] inb w0(4,5) by (simp add: w1_def)
  define w2 where "w2 = w1\<lparr>inbox := ?ack # rest, outbox := outbox w1 @ replicate m (cl, ?p)\<rparr>"
  have c3: "counter3 w1 = 0" using w0(1) by (simp add: w1_def server_ready_def)
  have "length ?p = 25" by (simp add: server_syn_ack_def)
  then have r: "server_loop (m + Suc (Suc n)) w1 (Some ?p) = server_loop (Suc (Suc n)) w2 (Some ?p)"
    unfolding w2_def using c3
    by (intro server_resends_loop [where src = src and peer = peer and i = i and a = a]) (simp_all add: w1_def server_received_def)
  have a: "server_syn_rcvd w2 (Some ?p) = Inr (w2\<lparr>sock := server_established w0 cl i, inbox := rest\<rparr>)"
    by (rule server_acked [OF _ w0(1)]) (simp_all add: w2_def w1_def w0(8))
  have "init_handshake_server w turns = server_loop turns w0 None"
    using rdy by (simp add: init_handshake_server_def w0_def server_ready_def)
  also have "\<dots> = server_loop (m + Suc (Suc n)) w1 (Some ?p)"
    using l w0(7) by (simp add: n)
  also have "\<dots> = server_loop (Suc (Suc n)) w2 (Some ?p)" by (rule r)
  also have "\<dots> = server_loop (Suc n) (w2\<lparr>sock := server_established w0 cl i, inbox := rest\<rparr>) (Some ?p)"
    using a by (simp add: w2_def w1_def server_received_def)
  also have "\<dots> = Inr (w2\<lparr>sock := server_established w0 cl i, inbox := rest\<rparr>)"
    by (simp add: server_established_def server_received_def)
  finally show ?thesis
    using w0 by (simp add: w2_def w1_def) (simp add: w0_def upd_sock_def)
qed

section \<open>Properties\<close>

text \<open>
  C4: The three-way handshake with retransmissions. The client may time out any number of
  times and resend its SYN, the server may get the SYN any number of times and answer each
  time; fed with each other's packets, both end \<open>ESTABLISHED\<close> and initialised, each has the
  other's address, expects the byte after the other's initial sequence number and has its
  own SYN acknowledged, and they have sent exactly the SYNs, the SYN-ACKs and one ACK.
\<close>

theorem handshake_establishes:
  assumes "client_ready c" and "server_ready s"
    and "inbox c = (srv, server_syn_ack s cl (last_ack_received (window (sock c)))) # rest_c"
    and "inbox s = replicate (Suc m) (cl, client_syn c)
      @ (cl, control_header (my_port (sock c)) srv (last_ack_received (window (sock c)) + 1)
              (last_ack_received (window (sock s)) + 1) ACK_FLAG_MASK) # rest_s"
    and "m + 2 < turns"
  defines "i \<equiv> last_ack_received (window (sock c))" and "j \<equiv> last_ack_received (window (sock s))"
  shows "init_handshake_client c (replicate k True @ False # polls) =
      Inr (c\<lparr>sock := client_established c srv j, inbox := rest_c,
        outbox := outbox c @ replicate (Suc k) (conn (sock c), client_syn c)
          @ [(srv, control_header (my_port (sock c)) srv (i + 1) (j + 1) ACK_FLAG_MASK)]\<rparr>)
    \<and> init_handshake_server s turns =
      Inr (s\<lparr>sock := server_established s cl i, inbox := rest_s,
        outbox := outbox s @ replicate (Suc m) (cl, server_syn_ack s cl i)\<rparr>)
    \<and> read_seq (recv_buf (client_established c srv j)) = unat j
    \<and> read_seq (recv_buf (server_established s cl i)) = unat i
    \<and> last_ack_received (window (client_established c srv j)) = next_seq_expected (window (server_established s cl i))
    \<and> last_ack_received (window (server_established s cl i)) = next_seq_expected (window (client_established c srv j))"
proof -
  have "init_handshake_client c (replicate k True @ False # polls) =
      Inr (c\<lparr>sock := client_established c srv j, inbox := rest_c,
        outbox := outbox c @ replicate (Suc k) (conn (sock c), client_syn c)
          @ [(srv, control_header (my_port (sock c)) srv (i + 1) (j + 1) ACK_FLAG_MASK)]\<rparr>)"
    unfolding i_def j_def
    by (rule init_handshake_client_ok [OF assms(1)]) (simp add: assms(3) server_syn_ack_def)
  moreover have "init_handshake_server s turns =
      Inr (s\<lparr>sock := server_established s cl i, inbox := rest_s,
        outbox := outbox s @ replicate (Suc m) (cl, server_syn_ack s cl i)\<rparr>)"
    unfolding i_def j_def
    by (rule init_handshake_server_ok [OF assms(2) assms(4) [unfolded client_syn_def] assms(5)])
  ultimately show ?thesis
    by (simp add: read_seq_def client_established_def server_established_def server_received_def i_def j_def)
qed

text \<open>
  C37: A client whose SYN was answered twice, as happens whenever the answer takes longer than
  the timeout, completes the handshake and aborts: the second SYN-ACK is the first thing the
  main loop receives.
\<close>

theorem repeated_syn_ack_aborts_client:
  assumes "client_ready c" and "dying (sock c) = 0"
    and "inbox c = (srv, server_syn_ack s cl (last_ack_received (window (sock c))))
      # (srv, server_syn_ack s cl (last_ack_received (window (sock c)))) # rest"
  shows "begin_backend c (replicate k True @ False # polls) turns others = Inl AssertFail"
proof -
  let ?i = "last_ack_received (window (sock c))" and ?j = "last_ack_received (window (sock s))"
  let ?sa = "server_syn_ack s cl ?i"
  have "inbox c = (srv, control_header (my_port (sock s)) cl ?j (?i + 1) (SYN_FLAG_MASK OR ACK_FLAG_MASK)) # (srv, ?sa) # rest"
    using assms(3) by (simp add: server_syn_ack_def)
  note h = init_handshake_client_ok [OF assms(1) this, of k polls]
  let ?hs = "init_handshake_client c (replicate k True @ False # polls)"
  obtain w where w: "?hs = Inr w" "inbox w = (srv, ?sa) # rest" "dying (sock w) = 0"
    unfolding h using assms(2) by (simp add: client_established_def)
  have sa: "?sa = peer_packet (my_port (sock s)) (ntohs (sin_port cl)) ?j (?i + 1)
      (SYN_FLAG_MASK OR ACK_FLAG_MASK) (of_nat CP1_WINDOW_SIZE) []"
    by (simp add: server_syn_ack_def control_header_def peer_packet_def)
  have "check_for_data w NO_WAIT = Inl AssertFail"
    by (rule check_for_data_fails [OF w(2) [unfolded sa]]) (simp_all add: flag_tests)
  then have "backend_loop others w = Inl AssertFail"
    using w(3) by (subst backend_loop.simps) (simp add: backend_ends_def)
  then show ?thesis
    using assms(1) w(1) by (simp add: begin_backend_def client_ready_def)
qed

definition client_example :: host where
  "client_example = (upd_sock (\<lambda>s. s\<lparr>sock_type := TCP_INITIATOR, my_port := 5000,
       conn := \<lparr>sin_addr = 2, sin_port = htons 15441\<rparr>, state := CLOSED, initialized := False,
       recv_buf := rb_example\<lparr>last_byte_read_seqnum := 0\<rparr>,
       window := \<lparr>next_seq_expected = 0, last_ack_received = 100, rcvd_advertised_window = 44000\<rparr>\<rparr>) host_example)"

definition server_example :: host where
  "server_example = (upd_sock (\<lambda>s. s\<lparr>sock_type := TCP_LISTENER, my_port := 15441,
       state := CLOSED, initialized := False, recv_buf := rb_example\<lparr>last_byte_read_seqnum := 0\<rparr>,
       window := \<lparr>next_seq_expected = 0, last_ack_received = 100, rcvd_advertised_window = 44000\<rparr>\<rparr>) host_example)"

lemma examples_ready: "client_ready (client_example\<lparr>inbox := x\<rparr>)" "server_ready (server_example\<lparr>inbox := x\<rparr>)"
  by (simp_all add: client_ready_def server_ready_def client_example_def server_example_def
    host_example_def upd_sock_def sb_example_def word_less_nat_alt unat_uminus32)

theorem handshake_establishes_witness:
  "\<exists>c' s'. init_handshake_client (client_example\<lparr>inbox := [(\<lparr>sin_addr = 2, sin_port = 0\<rparr>,
        server_syn_ack server_example \<lparr>sin_addr = 1, sin_port = 0\<rparr> 100)]\<rparr>) [True, False] = Inr c'
    \<and> init_handshake_server (server_example\<lparr>inbox := [(\<lparr>sin_addr = 1, sin_port = 0\<rparr>, client_syn client_example),
        (\<lparr>sin_addr = 1, sin_port = 0\<rparr>, client_syn client_example),
        (\<lparr>sin_addr = 1, sin_port = 0\<rparr>, control_header 5000 \<lparr>sin_addr = 2, sin_port = 0\<rparr> 101 101 ACK_FLAG_MASK)]\<rparr>) 4 = Inr s'
    \<and> state (sock c') = ESTABLISHED \<and> state (sock s') = ESTABLISHED"
proof -
  let ?c = "client_example\<lparr>inbox := [(\<lparr>sin_addr = 2, sin_port = 0\<rparr>,
        server_syn_ack server_example \<lparr>sin_addr = 1, sin_port = 0\<rparr> 100)]\<rparr>"
  let ?s = "server_example\<lparr>inbox := [(\<lparr>sin_addr = 1, sin_port = 0\<rparr>, client_syn client_example),
        (\<lparr>sin_addr = 1, sin_port = 0\<rparr>, client_syn client_example),
        (\<lparr>sin_addr = 1, sin_port = 0\<rparr>, control_header 5000 \<lparr>sin_addr = 2, sin_port = 0\<rparr> 101 101 ACK_FLAG_MASK)]\<rparr>"
  have e: "last_ack_received (window (sock ?c)) = 100" "last_ack_received (window (sock ?s)) = 100"
    "my_port (sock ?c) = 5000" "client_syn ?c = client_syn client_example"
    "server_syn_ack ?s = server_syn_ack server_example"
    by (simp_all add: client_example_def server_example_def client_syn_def server_syn_ack_def fun_eq_iff upd_sock_def)
  have ib: "inbox ?c = (\<lparr>sin_addr = 2, sin_port = 0\<rparr>, server_syn_ack ?s \<lparr>sin_addr = 1, sin_port = 0\<rparr> (last_ack_received (window (sock ?c)))) # []"
    "inbox ?s = replicate (Suc 1) (\<lparr>sin_addr = 1, sin_port = 0\<rparr>, client_syn ?c)
      @ (\<lparr>sin_addr = 1, sin_port = 0\<rparr>, control_header (my_port (sock ?c)) \<lparr>sin_addr = 2, sin_port = 0\<rparr> (last_ack_received (window (sock ?c)) + 1)
              (last_ack_received (window (sock ?s)) + 1) ACK_FLAG_MASK) # []"
    unfolding e by simp_all
  from handshake_establishes [OF examples_ready ib, of 4 1 "[]"]
  show ?thesis by (simp add: client_established_def server_established_def server_received_def)
qed

theorem repeated_syn_ack_aborts_client_witness:
  "begin_backend (client_example\<lparr>inbox := [(\<lparr>sin_addr = 2, sin_port = 0\<rparr>,
        server_syn_ack server_example \<lparr>sin_addr = 1, sin_port = 0\<rparr> 100),
      (\<lparr>sin_addr = 2, sin_port = 0\<rparr>, server_syn_ack server_example \<lparr>sin_addr = 1, sin_port = 0\<rparr> 100)]\<rparr>)
    [True, False] 0 [] = Inl AssertFail"
proof -
  let ?c = "client_example\<lparr>inbox := [(\<lparr>sin_addr = 2, sin_port = 0\<rparr>,
        server_syn_ack server_example \<lparr>sin_addr = 1, sin_port = 0\<rparr> 100),
      (\<lparr>sin_addr = 2, sin_port = 0\<rparr>, server_syn_ack server_example \<lparr>sin_addr = 1, sin_port = 0\<rparr> 100)]\<rparr>"
  have "last_ack_received (window (sock ?c)) = 100" "dying (sock ?c) = 0"
    by (simp_all add: client_example_def host_example_def upd_sock_def)
  then show ?thesis
    using repeated_syn_ack_aborts_client [OF examples_ready(1), where s = server_example and k = 1 and polls = "[]"
      and srv = "\<lparr>sin_addr = 2, sin_port = 0\<rparr>" and cl = "\<lparr>sin_addr = 1, sin_port = 0\<rparr>" and rest = "[]"]
    by simp
qed

end
