(* ===== verification/Byte_Stream.thy ===== *)
theory Byte_Stream
  imports Prelude "HOL-Library.Sublist"
begin

text \<open>
  The service both backends of the repository give in one direction of a connection, as an
  interface: the bytes handed over at one end, the bytes delivered at the other, and the bytes
  the sender still holds because it does not know them to be delivered. What a client of the
  service may conclude is proved here once; \<open>Connection\<close> and \<open>Dialogues\<close> interpret it on the
  states of \<open>src/backend.c\<close>, \<open>Stop_And_Wait\<close> on those of \<open>archive/backend.c\<close>.
\<close>

locale byte_stream =
  fixes reach :: "'s \<Rightarrow> bool"
    and handed_over :: "'s \<Rightarrow> u8 list"
    and received :: "'s \<Rightarrow> u8 list"
    and held :: "'s \<Rightarrow> u8 list"
  assumes in_order: "reach s \<Longrightarrow> prefix (received s) (handed_over s)"
    and accounted: "reach s \<Longrightarrow> \<exists>acked. handed_over s = acked @ held s \<and> prefix acked (received s)"
begin

text \<open>The bytes on their way are the last ones the sender holds.\<close>

lemma outstanding:
  assumes "reach s"
  shows "\<exists>k. handed_over s = received s @ drop k (held s)"
proof -
  obtain acked rest more where "handed_over s = acked @ held s" "received s = acked @ rest"
    "handed_over s = received s @ more"
    using in_order [OF assms] accounted [OF assms] by (auto simp: prefix_def)
  then have "held s = rest @ more" by simp
  then have "handed_over s = received s @ drop (length rest) (held s)"
    using \<open>handed_over s = received s @ more\<close> by simp
  then show ?thesis ..
qed

lemma complete: "reach s \<Longrightarrow> held s = [] \<Longrightarrow> received s = handed_over s"
  using outstanding [of s] by auto

lemma received_byte:
  "reach s \<Longrightarrow> i < length (received s) \<Longrightarrow> received s ! i = handed_over s ! i"
  using in_order [of s] by (auto simp: prefix_def nth_append)

lemma nothing_lost: "reach s \<Longrightarrow> length (handed_over s) \<le> length (received s) + length (held s)"
  using outstanding [of s] by (metis length_append length_drop add_le_cancel_left diff_le_self)

end

end
