(* ===== verification/System.thy ===== *)
theory System
  imports Handshake Byte_Stream
begin

text \<open>
  Two endpoints and the network between them: the calls of the application, the steps of the
  backend and the arrival of datagrams interleave in any order. The network loses, repeats
  and reorders: whatever an endpoint ever sent may arrive at the other, once, often or never.
  The invariant of the composition gives what the two buffers, the packets and the
  acknowledgements are for: the bytes read on one side are a prefix of the bytes written on
  the other, and nothing is forgotten before the peer holds it.
\<close>

section \<open>The steps\<close>

text \<open>
  An endpoint is the state of its process and, for the specification, the bytes its
  application has handed over and the bytes it has read.
\<close>

record endpoint =
  proc :: host
  wrote :: "u8 list"
  got :: "u8 list"

abbreviation sb_of :: "endpoint \<Rightarrow> send_buffer_t" where "sb_of e \<equiv> send_buf (sock (proc e))"
abbreviation rb_of :: "endpoint \<Rightarrow> recv_buffer_t" where "rb_of e \<equiv> recv_buf (sock (proc e))"

definition datagrams :: "endpoint \<Rightarrow> u8 list set" where
  "datagrams e = snd ` set (outbox (proc e))"

definition arrived :: "endpoint \<Rightarrow> u8 list set" where
  "arrived e = snd ` set (inbox (proc e))"

text \<open>
  The steps of an established endpoint while the other one has sent the datagrams \<open>net\<close>: a
  turn of \<open>cmu_write\<close>, \<open>cmu_read\<close>, the request to close, the receiving and the sending half
  of a turn of the backend, an arrival, the passing of time.
\<close>

inductive endpoint_step :: "u8 list set \<Rightarrow> endpoint \<Rightarrow> endpoint \<Rightarrow> bool" for net where
  app_write: "cmu_write_turn (proc e) buf written len = Inr (w, written', len') \<Longrightarrow>
    0 < len \<Longrightarrow> len < 2 ^ 31 \<Longrightarrow> unat written + nat len \<le> length buf \<Longrightarrow>
    endpoint_step net e
      (e\<lparr>proc := w, wrote := wrote e @ take (nat (len - len')) (drop (unat written) buf)\<rparr>)"
| app_read: "cmu_read (proc e) buf len flags = Inr (w, buf', n) \<Longrightarrow>
    len < 2 ^ 31 \<Longrightarrow> nat len \<le> length buf \<Longrightarrow>
    endpoint_step net e (e\<lparr>proc := w, got := got e @ take (nat n) buf'\<rparr>)"
| app_close: "cmu_close_request (proc e) = Inr w \<Longrightarrow> endpoint_step net e (e\<lparr>proc := w\<rparr>)"
| receive: "check_for_data (proc e) NO_WAIT = Inr w \<Longrightarrow> endpoint_step net e (e\<lparr>proc := w\<rparr>)"
| transmit: "backend_send (proc e) = Inr w \<Longrightarrow> endpoint_step net e (e\<lparr>proc := w\<rparr>)"
| arrive: "d \<in> net \<Longrightarrow>
    endpoint_step net e (e\<lparr>proc := (proc e)\<lparr>inbox := inbox (proc e) @ [(sender, d)]\<rparr>\<rparr>)"
| tick: "endpoint_step net e (e\<lparr>proc := (proc e)\<lparr>clock := tv\<rparr>\<rparr>)"

inductive connection ::
  "endpoint \<Rightarrow> endpoint \<Rightarrow> endpoint \<Rightarrow> endpoint \<Rightarrow> bool" for l0 r0
where
  start: "connection l0 r0 l0 r0"
| left: "connection l0 r0 l r \<Longrightarrow> endpoint_step (datagrams r) l l' \<Longrightarrow> connection l0 r0 l' r"
| right: "connection l0 r0 l r \<Longrightarrow> endpoint_step (datagrams l) r r' \<Longrightarrow> connection l0 r0 l r'"

section \<open>The invariant\<close>

text \<open>The bytes that have been sent at least once, and the bytes that could be read at once.\<close>

definition sent :: "endpoint \<Rightarrow> u8 list" where
  "sent e = take (length (wrote e) - length (q_fresh (sb_abs (sb_of e)))) (wrote e)"

definition readable :: "endpoint \<Rightarrow> u8 list" where
  "readable e = map (byte_at (rb_of e)) [read_seq (rb_of e) + 1..<expected_seq (rb_of e)]"

definition acked_to :: "endpoint \<Rightarrow> nat" where
  "acked_to e = unat (last_ack_received (window (sock (proc e))))"
definition base_seq :: "endpoint \<Rightarrow> nat" where "base_seq e = unat (last_byte_acked_seqnum (sb_of e))"
definition next_seq :: "endpoint \<Rightarrow> nat" where "next_seq e = expected_seq (rb_of e)"

text \<open>
  The sending side, with initial sequence number \<open>i\<close>: what was written is what is
  acknowledged, in flight and fresh, and the window's acknowledgement number is the one of
  the send buffer. The buffer is the one of \<open>cmu_socket\<close> or smaller.
\<close>

definition sending :: "u32 \<Rightarrow> endpoint \<Rightarrow> bool" where
  "sending i e \<longleftrightarrow> sb_wf (sb_of e) \<and> cap (sb_of e) \<le> MSS \<and> acked_to e = base_seq e + 1
     \<and> (\<exists>acked. wrote e = acked @ q_inflight (sb_abs (sb_of e)) @ q_fresh (sb_abs (sb_of e))
          \<and> base_seq e = unat i + length acked)"

text \<open>
  The receiving side, when the peer with initial number \<open>j\<close> has sent \<open>t\<close>: what was read is a
  prefix of it, what is held are its bytes, and the number it acknowledges is not beyond
  what it holds in order.
\<close>

definition receiving :: "u32 \<Rightarrow> u8 list \<Rightarrow> endpoint \<Rightarrow> bool" where
  "receiving j t e \<longleftrightarrow> (\<exists>xs. rb_ok (rb_of e) (segs (proc e)) xs)
     \<and> read_seq (rb_of e) = unat j + length (got e) \<and> prefix (got e) t
     \<and> (\<forall>q. rb_has (rb_of e) (segs (proc e)) q \<longrightarrow>
          unat j < q \<and> q \<le> unat j + length t \<and> byte_at (rb_of e) q = t ! (q - unat j - 1))
     \<and> unat j < unat (next_seq_expected (window (sock (proc e))))
     \<and> unat (next_seq_expected (window (sock (proc e)))) \<le> next_seq e"

text \<open>
  A datagram of an endpoint that has sent \<open>s\<close> from number \<open>i\<close> on and holds everything below
  \<open>ex\<close> of the peer's bytes, which start at \<open>j + 1\<close>: a packet of the handshake, or data at its
  place with an acknowledgement it is entitled to.
\<close>

definition segment_of :: "u32 \<Rightarrow> u8 list \<Rightarrow> u32 \<Rightarrow> u8 list \<Rightarrow> bool" where
  "segment_of i s seq p \<longleftrightarrow> p = [] \<or> (\<exists>k. unat seq = unat i + 1 + k \<and> k + length p \<le> length s
     \<and> p = take (length p) (drop k s))"

definition valid_fields ::
  "u32 \<Rightarrow> u8 list \<Rightarrow> u32 \<Rightarrow> nat \<Rightarrow> u32 \<Rightarrow> u32 \<Rightarrow> u8 \<Rightarrow> u8 list \<Rightarrow> bool"
where
  "valid_fields i s j ex seq ack flags p \<longleftrightarrow> length p \<le> MSS
     \<and> (flags AND ACK_FLAG_MASK = 0 \<or> flags AND SYN_FLAG_MASK \<noteq> 0
        \<or> flags = ACK_FLAG_MASK \<and> segment_of i s seq p \<and> unat j < unat ack \<and> unat ack \<le> ex)"

definition valid_datagram :: "u32 \<Rightarrow> u8 list \<Rightarrow> u32 \<Rightarrow> nat \<Rightarrow> u8 list \<Rightarrow> bool" where
  "valid_datagram i s j ex d \<longleftrightarrow> (\<exists>src dst seq ack flags adv p.
     d = peer_packet src dst seq ack flags adv p \<and> valid_fields i s j ex seq ack flags p)"

text \<open>One direction of the connection, from \<open>l\<close> to \<open>r\<close>, and both.\<close>

definition linked_to :: "u32 \<Rightarrow> u32 \<Rightarrow> endpoint \<Rightarrow> endpoint \<Rightarrow> bool" where
  "linked_to i j l r \<longleftrightarrow> sending i l \<and> receiving i (sent l) r \<and> base_seq l < next_seq r
     \<and> (\<forall>d \<in> datagrams l \<union> arrived r. valid_datagram i (sent l) j (next_seq l) d)"

definition linked :: "u32 \<Rightarrow> u32 \<Rightarrow> endpoint \<Rightarrow> endpoint \<Rightarrow> bool" where
  "linked i j l r \<longleftrightarrow> linked_to i j l r \<and> linked_to j i r l"

section \<open>Facts about the parts\<close>

lemma sendingE:
  assumes "sending i e"
  obtains acked where "sb_wf (sb_of e)" "cap (sb_of e) \<le> MSS" "acked_to e = base_seq e + 1"
    "wrote e = acked @ q_inflight (sb_abs (sb_of e)) @ q_fresh (sb_abs (sb_of e))"
    "base_seq e = unat i + length acked" "sent e = acked @ q_inflight (sb_abs (sb_of e))"
  using assms by (auto simp: sending_def sent_def)

lemma sendingI:
  assumes "sb_wf (sb_of e)" "cap (sb_of e) \<le> MSS" "acked_to e = base_seq e + 1"
    "wrote e = acked @ q_inflight (sb_abs (sb_of e)) @ q_fresh (sb_abs (sb_of e))"
    "base_seq e = unat i + length acked"
  shows "sending i e" "sent e = acked @ q_inflight (sb_abs (sb_of e))"
  using assms by (auto simp: sending_def sent_def)

lemma sending_room:
  assumes "sending i e" and "unat i + length (wrote e) + MSS < 2 ^ 32"
  shows "sb_room (sb_of e)"
proof -
  obtain acked where "wrote e = acked @ q_inflight (sb_abs (sb_of e)) @ q_fresh (sb_abs (sb_of e))"
    "base_seq e = unat i + length acked" "cap (sb_of e) \<le> MSS" using assms(1) by (rule sendingE)
  then have "base_seq e + cap (sb_of e) \<le> unat i + length (wrote e) + MSS" by simp
  then show ?thesis using assms(2) by (simp add: sb_room_def base_seq_def)
qed

lemma segment_of_mono: "prefix s s' \<Longrightarrow> segment_of i s seq p \<Longrightarrow> segment_of i s' seq p"
  by (auto simp: segment_of_def prefix_def)

lemma valid_fields_mono:
  "valid_fields i s j ex seq ack flags p \<Longrightarrow> prefix s s' \<Longrightarrow> ex \<le> ex' \<Longrightarrow>
   valid_fields i s' j ex' seq ack flags p"
  using segment_of_mono [of s s'] by (auto simp: valid_fields_def)

lemma valid_datagram_mono:
  "valid_datagram i s j ex d \<Longrightarrow> prefix s s' \<Longrightarrow> ex \<le> ex' \<Longrightarrow> valid_datagram i s' j ex' d"
  unfolding valid_datagram_def using valid_fields_mono by blast

lemma receiving_mono:
  assumes "receiving j t e" and "prefix t t'"
  shows "receiving j t' e"
proof -
  have l: "length t \<le> length t'" using assms(2) by (rule prefix_length_le)
  have n: "t' ! (q - unat j - 1) = t ! (q - unat j - 1)" if "unat j < q" "q \<le> unat j + length t" for q
    using assms(2) that by (auto simp: prefix_def nth_append)
  have "prefix (got e) t'"
    using assms prefix_order.trans unfolding receiving_def by blast
  moreover have "unat j < q \<and> q \<le> unat j + length t' \<and> byte_at (rb_of e) q = t' ! (q - unat j - 1)"
    if "rb_has (rb_of e) (segs (proc e)) q" for q
  proof -
    have "unat j < q" "q \<le> unat j + length t" "byte_at (rb_of e) q = t ! (q - unat j - 1)"
      using assms(1) that unfolding receiving_def by blast+
    then show ?thesis using n l by simp
  qed
  ultimately show ?thesis using assms(1) unfolding receiving_def by blast
qed

text \<open>What a receiver holds in order is a prefix of the stream, so it acknowledges no more.\<close>

lemma readable_prefix:
  assumes "receiving j t e"
  shows "prefix (got e @ readable e) t" "next_seq e = unat j + 1 + length (got e @ readable e)"
    "next_seq e \<le> unat j + 1 + length t"
proof -
  obtain xs where ok: "rb_ok (rb_of e) (segs (proc e)) xs" and r: "read_seq (rb_of e) = unat j + length (got e)"
    and g: "prefix (got e) t"
    and h: "\<And>q. rb_has (rb_of e) (segs (proc e)) q \<Longrightarrow>
      unat j < q \<and> q \<le> unat j + length t \<and> byte_at (rb_of e) q = t ! (q - unat j - 1)"
    using assms by (auto simp: receiving_def)
  note d = rb_wfD [of "rb_of e"]
  have lt: "read_seq (rb_of e) < next_seq e" using d(10) ok by (simp add: rb_ok_def next_seq_def)
  then show n: "next_seq e = unat j + 1 + length (got e @ readable e)"
    using r by (simp add: readable_def next_seq_def)
  have has: "rb_has (rb_of e) (segs (proc e)) q" if "read_seq (rb_of e) < q" "q < next_seq e" for q
    using that by (simp add: rb_has_def next_seq_def)
  show le: "next_seq e \<le> unat j + 1 + length t"
  proof (cases "next_seq e = read_seq (rb_of e) + 1")
    case True
    then show ?thesis using r prefix_length_le [OF g] by simp
  next
    case False
    then have "read_seq (rb_of e) < next_seq e - 1" "next_seq e - 1 < next_seq e" using lt by linarith+
    then show ?thesis using h [OF has, of "next_seq e - 1"] by linarith
  qed
  have gt: "got e = take (length (got e)) t" using g by (auto simp: prefix_def)
  have "got e @ readable e = take (length (got e @ readable e)) t"
  proof (rule nth_equalityI)
    show "length (got e @ readable e) = length (take (length (got e @ readable e)) t)" using n le by simp
    fix k assume k: "k < length (got e @ readable e)"
    show "(got e @ readable e) ! k = take (length (got e @ readable e)) t ! k"
    proof (cases "k < length (got e)")
      case True
      then have "got e ! k = t ! k" using gt by (metis nth_take)
      then show ?thesis using True k by (simp add: nth_append)
    next
      case False
      let ?q = "unat j + 1 + k"
      have q: "read_seq (rb_of e) < ?q" "?q < next_seq e" using False k r n by simp_all
      have "(got e @ readable e) ! k = byte_at (rb_of e) ?q"
        using False k r by (simp add: nth_append readable_def del: upt_Suc)
      also have "\<dots> = t ! k" using h [OF has [OF q]] by simp
      finally show ?thesis using k by simp
    qed
  qed
  then show "prefix (got e @ readable e) t" by (metis take_is_prefix)
qed

section \<open>One step\<close>

text \<open>
  What every step of an endpoint keeps, when the peer has sent \<open>t\<close> and holds everything below
  \<open>ex\<close>: it goes on sending its own bytes and receiving the peer's, drops no byte the peer
  does not hold, never acknowledges less than before, and emits only valid datagrams.
\<close>

definition goes_on :: "u32 \<Rightarrow> u32 \<Rightarrow> u8 list \<Rightarrow> nat \<Rightarrow> endpoint \<Rightarrow> endpoint \<Rightarrow> bool" where
  "goes_on i j t ex e e' \<longleftrightarrow> sending i e' \<and> prefix (sent e) (sent e') \<and> base_seq e' < ex
     \<and> receiving j t e' \<and> next_seq e \<le> next_seq e'
     \<and> (\<forall>d \<in> datagrams e'. d \<in> datagrams e \<or> valid_datagram i (sent e') j (next_seq e') d)"

lemma goes_on_frame:
  assumes "sending i e" "receiving j t e" "base_seq e < ex"
    and "sb_of e' = sb_of e" "rb_of e' = rb_of e" "segs (proc e') = segs (proc e)"
    "window (sock (proc e')) = window (sock (proc e))"
    "outbox (proc e') = outbox (proc e)" "wrote e' = wrote e" "got e' = got e"
  shows "goes_on i j t ex e e'"
  using assms
  by (simp add: goes_on_def acked_to_def sending_def receiving_def sent_def base_seq_def next_seq_def datagrams_def)

lemma receiving_frame:
  assumes "receiving j t e" and "rb_of e' = rb_of e" "segs (proc e') = segs (proc e)"
    "next_seq_expected (window (sock (proc e'))) = next_seq_expected (window (sock (proc e)))"
    "got e' = got e"
  shows "receiving j t e'" "next_seq e' = next_seq e"
  using assms by (simp_all add: receiving_def next_seq_def)

lemma goes_on_write:
  assumes s: "sending i e" and r: "receiving j t e" and b: "base_seq e < ex"
    and w: "cmu_write_turn (proc e) buf written len = Inr (w, written', len')"
    and len: "0 < len" "len < 2 ^ 31" "unat written + nat len \<le> length buf"
  shows "goes_on i j t ex e
    (e\<lparr>proc := w, wrote := wrote e @ take (nat (len - len')) (drop (unat written) buf)\<rparr>)"
proof -
  let ?q = "sb_abs (sb_of e)"
  define n where "n = min (nat len) (cap (sb_of e) - 1 - length (q_inflight ?q) - length (q_fresh ?q))"
  define e' where "e' = e\<lparr>proc := w, wrote := wrote e @ take (nat (len - len')) (drop (unat written) buf)\<rparr>"
  obtain acked where a: "sb_wf (sb_of e)" "cap (sb_of e) \<le> MSS" "wrote e = acked @ q_inflight ?q @ q_fresh ?q"
    "base_seq e = unat i + length acked" "sent e = acked @ q_inflight ?q" "acked_to e = base_seq e + 1"
    using s by (rule sendingE)
  obtain sb' where sb': "w = upd_sock (\<lambda>s. s\<lparr>send_buf := sb'\<rparr>) (proc e)" "len' = len - int n"
    "sb_wf sb'" "cap sb' = cap (sb_of e)"
    "sb_abs sb' = ?q\<lparr>q_fresh := q_fresh ?q @ take n (drop (unat written) buf)\<rparr>"
    using cmu_write_turn_ok [OF a(1) len] w unfolding n_def [symmetric] by auto
  have q: "sb_abs (sb_of e') = ?q\<lparr>q_fresh := q_fresh ?q @ take n (drop (unat written) buf)\<rparr>"
    using sb' by (simp add: e'_def)
  moreover have "last_byte_acked_seqnum sb' = last_byte_acked_seqnum (sb_of e)"
    using sb'(5) by (metis byte_queue.select_convs(1) byte_queue.simps(5) byte_queue.surjective
        byte_queue.update_convs(3) sb_abs_def)
  then have be: "base_seq e' = base_seq e" using sb'(1) by (simp add: base_seq_def e'_def)
  have "wrote e' = acked @ q_inflight (sb_abs (sb_of e')) @ q_fresh (sb_abs (sb_of e'))"
    unfolding q using a(3) sb'(2) by (simp add: e'_def)
  moreover have "sb_wf (sb_of e')" "cap (sb_of e') \<le> MSS" "acked_to e' = acked_to e"
    using sb' a(2) by (simp_all add: e'_def acked_to_def)
  ultimately have "sending i e'" "sent e' = sent e"
    using sendingI [of e' acked i] be a(4,5,6) by simp_all
  moreover have "receiving j t e'" "next_seq e' = next_seq e"
    using receiving_frame [OF r, of e'] sb'(1) by (simp_all add: e'_def upd_sock_def)
  moreover have "datagrams e' = datagrams e" using sb'(1) by (simp add: datagrams_def e'_def)
  ultimately show ?thesis using b be unfolding e'_def [symmetric] by (simp add: goes_on_def)
qed

lemma cmu_read_cases:
  assumes "cmu_read w buf len flags = Inr (w', buf', n)" and "rb_wf (recv_buf (sock w))"
  obtains "w' = w" "n \<le> 0"
  | "initialized (sock w)" "flags \<noteq> TIMEOUT" "0 \<le> len"
    "0 < expected_seq (recv_buf (sock w)) - read_seq (recv_buf (sock w)) - 1"
proof -
  have "0 < recv_buffer_max_read (recv_buf (sock w)) \<Longrightarrow>
      0 < expected_seq (recv_buf (sock w)) - read_seq (recv_buf (sock w)) - 1"
    by (simp add: word_less_nat_alt max_read [OF assms(2)])
  then show ?thesis
    using assms(1) that unfolding cmu_read_def
    by (auto simp: EXIT_ERROR_def split: if_splits simp del: One_nat_def)
qed

lemma goes_on_read:
  assumes s: "sending i e" and r: "receiving j t e" and b: "base_seq e < ex"
    and w: "cmu_read (proc e) buf len flags = Inr (w, buf', n)"
    and len: "len < 2 ^ 31" "nat len \<le> length buf"
  shows "goes_on i j t ex e (e\<lparr>proc := w, got := got e @ take (nat n) buf'\<rparr>)"
proof -
  define e' where "e' = e\<lparr>proc := w, got := got e @ take (nat n) buf'\<rparr>"
  obtain xs where ok: "rb_ok (rb_of e) (segs (proc e)) xs" using r by (auto simp: receiving_def)
  then have "rb_wf (rb_of e)" by (simp add: rb_ok_def)
  with w show ?thesis
  proof (cases rule: cmu_read_cases)
    case 1
    then show ?thesis using s r b by (intro goes_on_frame) simp_all
  next
    case 2
    let ?m = "min (nat len) (expected_seq (rb_of e) - read_seq (rb_of e) - 1)"
    obtain rb' where rb': "w = upd_sock (\<lambda>s. s\<lparr>recv_buf := rb'\<rparr>) (proc e)" "n = int ?m"
      "buf' = map (\<lambda>k. byte_at (rb_of e) (read_seq (rb_of e) + 1 + k)) [0..<?m] @ drop ?m buf"
      "rb_ok rb' (segs (proc e)) xs" "read_seq rb' = read_seq (rb_of e) + ?m"
      "expected_seq rb' = expected_seq (rb_of e)" "\<forall>q. read_seq rb' < q \<longrightarrow> byte_at rb' q = byte_at (rb_of e) q"
      using cmu_read_ok [OF 2(1,2) ok 2(3) len 2(4)] w by auto
    have fr: "sb_of e' = sb_of e" "outbox (proc e') = outbox (proc e)" "wrote e' = wrote e" "rb_of e' = rb'"
      "segs (proc e') = segs (proc e)" "window (sock (proc e')) = window (sock (proc e))"
      using rb'(1) by (simp_all add: e'_def)
    have "take (nat n) buf' = map (\<lambda>k. byte_at (rb_of e) (read_seq (rb_of e) + 1 + k)) [0..<?m]"
      unfolding rb'(2,3) by simp
    also have "\<dots> = take ?m (readable e)"
      by (rule nth_equalityI) (auto simp: readable_def less_diff_conv simp del: upt_Suc)
    finally have g: "got e' = got e @ take ?m (readable e)" by (simp add: e'_def)
    have "prefix (got e @ take ?m (readable e)) (got e @ readable e)" by (simp add: take_is_prefix)
    then have gt: "prefix (got e') t" using readable_prefix(1) [OF r] prefix_order.trans unfolding g by blast
    have lg: "length (got e') = length (got e) + ?m"
      unfolding g by (simp add: readable_def)
    have h: "unat j < q \<and> q \<le> unat j + length t \<and> byte_at rb' q = t ! (q - unat j - 1)"
      if "rb_has rb' (segs (proc e)) q" for q
    proof -
      have q: "read_seq rb' < q" using rb_ok_in_window [OF rb'(4) that] by simp
      then have "rb_has (rb_of e) (segs (proc e)) q"
        using that rb'(5,6) by (auto simp: rb_has_def)
      then show ?thesis using r rb'(7) q unfolding receiving_def by metis
    qed
    have "receiving j t e'"
      using r rb'(4,5,6) gt lg h unfolding receiving_def next_seq_def fr by auto
    moreover have "sending i e'" "sent e' = sent e" "base_seq e' = base_seq e" "next_seq e' = next_seq e"
      "datagrams e' = datagrams e"
      using s rb'(6) by (simp_all add: sending_def acked_to_def sent_def base_seq_def next_seq_def datagrams_def fr)
    ultimately show ?thesis using b unfolding e'_def [symmetric] by (simp add: goes_on_def)
  qed
qed

text \<open>An acknowledgement the peer was entitled to.\<close>

lemma ack_is_admissible:
  assumes s: "sending i e" and "unat i < unat ack" and "unat ack \<le> unat i + 1 + length (sent e)"
    and bd: "unat i + length (wrote e) + MSS < 2 ^ 32"
  shows "ack_admissible (sb_of e) ack"
proof -
  obtain acked where a: "base_seq e = unat i + length acked"
    "sent e = acked @ q_inflight (sb_abs (sb_of e))" using s by (rule sendingE)
  have u: "unat (ack - 1) = unat ack - 1" using assms(2) by (subst unat_sub32) simp_all
  show ?thesis
  proof (cases "unat ack - 1 \<le> base_seq e")
    case True
    then show ?thesis using u by (simp add: ack_admissible_def base_seq_def word_le_nat_alt)
  next
    case False
    then have "unat (ack - 1 - last_byte_acked_seqnum (sb_of e)) = unat ack - 1 - base_seq e"
      using u by (subst unat_sub32) (simp_all add: base_seq_def)
    then show ?thesis using a assms(3) by (simp add: ack_admissible_def) linarith
  qed
qed

lemma update_ack_base: "send_buffer_update_ack tv sb ack = Inr sb' \<Longrightarrow>
    last_byte_acked_seqnum sb' =
      (if ack - 1 > last_byte_acked_seqnum sb then ack - 1 else last_byte_acked_seqnum sb)"
  by (auto simp: send_buffer_update_ack_def Let_def split: if_splits)

lemma sending_acked:
  assumes s: "sending i e" and "unat i < unat ack" and "unat ack \<le> unat i + 1 + length (sent e)"
    and bd: "unat i + length (wrote e) + MSS < 2 ^ 32"
    and upd: "send_buffer_update_ack tv (sb_of e) ack = Inr (sb_of e')" and w: "wrote e' = wrote e"
    and la: "acked_to e' = max (acked_to e) (unat ack)"
  shows "sending i e'" "sent e' = sent e" "base_seq e' = max (base_seq e) (unat ack - 1)"
proof -
  obtain acked where a: "sb_wf (sb_of e)" "cap (sb_of e) \<le> MSS"
    "wrote e = acked @ q_inflight (sb_abs (sb_of e)) @ q_fresh (sb_abs (sb_of e))"
    "base_seq e = unat i + length acked"
    "sent e = acked @ q_inflight (sb_abs (sb_of e))" "acked_to e = base_seq e + 1" using s by (rule sendingE)
  have adm: "ack - 1 \<le> last_byte_acked_seqnum (sb_of e)
      \<or> unat (ack - 1 - last_byte_acked_seqnum (sb_of e)) \<le> length (q_inflight (sb_abs (sb_of e)))"
    using ack_is_admissible [OF assms(1-4)] by (simp add: ack_admissible_def)
  obtain n where l: "sb_wf (sb_of e')" "cap (sb_of e') = cap (sb_of e)"
    "q_fresh (sb_abs (sb_of e')) = q_fresh (sb_abs (sb_of e))"
    "n \<le> length (q_inflight (sb_abs (sb_of e)))"
    "last_byte_acked_seqnum (sb_of e') = last_byte_acked_seqnum (sb_of e) + of_nat n"
    "q_inflight (sb_abs (sb_of e')) = drop n (q_inflight (sb_abs (sb_of e)))"
    using sb_ack_law [OF a(1) sending_room [OF s bd] adm upd] by blast
  let ?a = "acked @ take n (q_inflight (sb_abs (sb_of e)))"
  have "base_seq e + n < 2 ^ 32" using a(3,4) l(4) bd by simp
  then have b: "base_seq e' = base_seq e + n"
    unfolding base_seq_def l(5) by (subst unat_add32) (simp_all add: unat_of_nat32)
  have "unat (ack - 1) = unat ack - 1" using assms(2) by (subst unat_sub32) simp_all
  then show m: "base_seq e' = max (base_seq e) (unat ack - 1)"
    using update_ack_base [OF upd] by (auto simp: base_seq_def word_less_nat_alt)
  then have "acked_to e' = base_seq e' + 1" using la a(6) assms(2) by simp
  then show "sending i e'" "sent e' = sent e"
    using sendingI [of e' ?a i] l a b w by simp_all
qed

lemma sending_after_ack:
  assumes s: "sending i e" and b: "base_seq e < ex" and exb: "ex \<le> unat i + 1 + length (sent e)"
    and ack: "unat i < unat ack" "unat ack \<le> ex" and bd: "unat i + length (wrote e) + MSS < 2 ^ 32"
    and upd: "ack = last_ack_received (window (sock (proc e))) \<and> sb_of e' = sb_of e
      \<or> send_buffer_update_ack tv (sb_of e) ack = Inr (sb_of e')"
    and la: "last_ack_received (window (sock (proc e'))) = MAX_u32 (last_ack_received (window (sock (proc e)))) ack"
    and w: "wrote e' = wrote e"
  shows "sending i e' \<and> sent e' = sent e \<and> base_seq e' < ex"
proof -
  have la': "acked_to e' = max (acked_to e) (unat ack)"
    using la by (simp add: acked_to_def MAX_u32_def max_def word_less_nat_alt)
  show ?thesis
    using upd
  proof
    assume "ack = last_ack_received (window (sock (proc e))) \<and> sb_of e' = sb_of e"
    then have "acked_to e' = acked_to e" "sb_of e' = sb_of e"
      using la' by (simp_all add: acked_to_def)
    then show ?thesis using s b w by (simp add: sending_def sent_def base_seq_def)
  next
    assume "send_buffer_update_ack tv (sb_of e) ack = Inr (sb_of e')"
    from sending_acked [OF s ack(1) _ bd this w la'] show ?thesis using b ack exb by auto
  qed
qed

text \<open>A segment of the peer's stream, taken or not.\<close>

lemma receiving_segment:
  assumes r: "receiving j t e" and sg: "segment_of j t seq p"
    and tk: "takes_segment (rb_of e) (segs (proc e)) (unat seq) p (rb_of e') (segs (proc e'))"
    and g: "got e' = got e"
    and n: "next_seq_expected (window (sock (proc e'))) = next_seq_expected (window (sock (proc e)))
      \<or> next_seq_expected (window (sock (proc e'))) = get_next_byte_expected_seqnum (rb_of e')"
  shows "receiving j t e'" "next_seq e \<le> next_seq e'"
proof -
  let ?n = "next_seq_expected (window (sock (proc e')))"
  obtain xs where ok: "rb_ok (rb_of e') (segs (proc e')) xs" using tk by (auto simp: takes_segment_def)
  have rs: "read_seq (rb_of e') = unat j + length (got e')" and c: "rcap (rb_of e') = rcap (rb_of e)"
    and rr: "read_seq (rb_of e') = read_seq (rb_of e)"
    using tk r g by (auto simp: takes_segment_def receiving_def)
  show ex: "next_seq e \<le> next_seq e'" using tk by (simp add: takes_segment_def next_seq_def)
  have h: "unat j < q \<and> q \<le> unat j + length t \<and> byte_at (rb_of e') q = t ! (q - unat j - 1)"
    if q: "rb_has (rb_of e') (segs (proc e')) q" for q
  proof -
    have w: "read_seq (rb_of e) < q \<and> q < read_seq (rb_of e) + rcap (rb_of e)"
      using rb_ok_in_window [OF ok q] unfolding rr c by simp
    show ?thesis
    proof (cases "accepts (rb_of e) (unat seq) (length p) \<and> unat seq \<le> q \<and> q < unat seq + length p")
      case True
      then have "p \<noteq> []" by (auto simp: accepts_def)
      then obtain k where k: "unat seq = unat j + 1 + k" "k + length p \<le> length t"
        "p = take (length p) (drop k t)" using sg by (auto simp: segment_of_def)
      have "byte_at (rb_of e') q = p ! (q - unat seq)" using tk True w by (simp add: takes_segment_def)
      also have "\<dots> = take (length p) (drop k t) ! (q - unat seq)" using k(3) by simp
      also have "\<dots> = t ! (k + (q - unat seq))" using True k(2) by (subst nth_take) auto
      finally show ?thesis using True k(1,2) by simp
    next
      case False
      then have "rb_has (rb_of e) (segs (proc e)) q" "byte_at (rb_of e') q = byte_at (rb_of e) q"
        using tk q w unfolding takes_segment_def by (blast, metis)
      then show ?thesis using r unfolding receiving_def by simp
    qed
  qed
  have "unat j < unat ?n \<and> unat ?n \<le> next_seq e'"
    using n
  proof
    assume "?n = next_seq_expected (window (sock (proc e)))"
    then show ?thesis using r ex by (auto simp: receiving_def)
  next
    assume "?n = get_next_byte_expected_seqnum (rb_of e')"
    moreover have "rb_wf (rb_of e')" using ok by (simp add: rb_ok_def)
    ultimately show ?thesis
      using next_expected(2) rb_wfD(10) rs by (fastforce simp: next_seq_def)
  qed
  then show "receiving j t e'"
    using ok rs h r g unfolding receiving_def by auto
qed

text \<open>The acknowledgement that answers data.\<close>

lemma ack_packet_valid:
  assumes r: "receiving j t e"
  shows "valid_datagram i s j (next_seq e) (snd (ack_packet (proc e)))"
proof -
  obtain xs where "rb_ok (rb_of e) (segs (proc e)) xs" using r by (auto simp: receiving_def)
  then have "unat (get_next_byte_expected_seqnum (rb_of e)) = next_seq e" "unat j < next_seq e"
    using r next_expected(2) [of "rb_of e"] rb_wfD(10) [of "rb_of e"]
    by (auto simp: rb_ok_def next_seq_def receiving_def)
  then show ?thesis
    unfolding valid_datagram_def ack_packet_def snd_conv
    by (intro exI conjI) (rule trans [OF _ peer_packet_def [where payload = "[]", symmetric]],
        simp, simp add: valid_fields_def segment_of_def)
qed

text \<open>
  A turn of the receiving half that finds a valid packet: it does not fail, and it is an
  acknowledgement for the send buffer and a segment for the receive buffer.
\<close>

lemma check_for_data_valid:
  assumes s: "sending i e" and r: "receiving j t e" and exb: "ex \<le> unat i + 1 + length (sent e)"
    and bi: "unat i + length (wrote e) + MSS < 2 ^ 32" and bj: "unat j + length t + MSS < 2 ^ 32"
    and ib: "inbox (proc e) = (from, peer_packet src dst seq ack ACK_FLAG_MASK adv p) # rest"
    and v: "valid_fields j t i ex seq ack ACK_FLAG_MASK p"
  shows "\<exists>w. check_for_data (proc e) mode = Inr w \<and> inbox w = rest
    \<and> (ack = last_ack_received (window (sock (proc e))) \<and> send_buf (sock w) = sb_of e
       \<or> send_buffer_update_ack (clock (proc e)) (sb_of e) ack = Inr (send_buf (sock w)))
    \<and> last_ack_received (window (sock w)) = MAX_u32 (last_ack_received (window (sock (proc e)))) ack
    \<and> outbox w = outbox (proc e) @ (if p = [] then [] else [ack_packet w])
    \<and> takes_segment (rb_of e) (segs (proc e)) (unat seq) p (recv_buf (sock w)) (segs w)
    \<and> next_seq_expected (window (sock w)) = (if p = [] then next_seq_expected (window (sock (proc e)))
         else get_next_byte_expected_seqnum (recv_buf (sock w)))
    \<and> initialized (sock w) = initialized (sock (proc e))
    \<and> rcvd_advertised_window (window (sock w)) = adv"
proof -
  define w0 where "w0 = upd_sock (\<lambda>s. s\<lparr>conn := from\<rparr>) ((proc e)\<lparr>inbox := rest\<rparr>)"
  have w0: "send_buf (sock w0) = sb_of e" "recv_buf (sock w0) = rb_of e" "segs w0 = segs (proc e)"
    "window (sock w0) = window (sock (proc e))" "outbox w0 = outbox (proc e)" "inbox w0 = rest"
    "clock w0 = clock (proc e)" "initialized (sock w0) = initialized (sock (proc e))"
    by (simp_all add: w0_def)
  have sg: "segment_of j t seq p" and lp: "length p + 25 < 2 ^ 16"
    and ack: "unat i < unat ack" "unat ack \<le> ex"
    using v by (auto simp: valid_fields_def flag_tests)
  have sq: "unat seq + length p < 2 ^ 32"
    using sg bj unat_u32_less [of seq] by (auto simp: segment_of_def)
  have adm: "ack_admissible (send_buf (sock w0)) ack"
    using ack_is_admissible [OF s ack(1) _ bi] ack(2) exb w0(1) by simp
  have "host_ok w0"
    using s r sending_room [OF s bi] by (auto simp: host_ok_def w0 sending_def receiving_def)
  from handle_message_ok [OF this flag_tests(5-7) adm lp sq, of src dst adv] obtain w' where
    h: "handle_message w0 (peer_packet src dst seq ack ACK_FLAG_MASK adv p) = Inr w'" and
    a: "takes_ack w0 ack (send_buf (sock w'))" and
    f: "rcvd_advertised_window (window (sock w')) = adv"
      "last_ack_received (window (sock w')) = MAX_u32 (last_ack_received (window (sock w0))) ack"
      "outbox w' = outbox w0 @ (if p = [] then [] else [ack_packet w'])"
      "inbox w' = inbox w0" "initialized (sock w') = initialized (sock w0)"
      "takes_segment (recv_buf (sock w0)) (segs w0) (unat seq) p (recv_buf (sock w')) (segs w')"
      "next_seq_expected (window (sock w')) = (if p = [] then next_seq_expected (window (sock w0))
         else get_next_byte_expected_seqnum (recv_buf (sock w')))"
    by blast
  from check_for_data_packet_ok [OF ib lp, of mode] h have "check_for_data (proc e) mode = Inr w'"
    unfolding w0_def by simp
  with f takes_ackD [OF a] show ?thesis unfolding w0 by blast
qed

lemma goes_on_receive:
  assumes s: "sending i e" and r: "receiving j t e" and b: "base_seq e < ex"
    and exb: "ex \<le> unat i + 1 + length (sent e)"
    and bi: "unat i + length (wrote e) + MSS < 2 ^ 32" and bj: "unat j + length t + MSS < 2 ^ 32"
    and inb: "\<forall>d \<in> arrived e. valid_datagram j t i ex d"
    and w: "check_for_data (proc e) NO_WAIT = Inr w"
  shows "goes_on i j t ex e (e\<lparr>proc := w\<rparr>) \<and> arrived (e\<lparr>proc := w\<rparr>) \<subseteq> arrived e"
proof (cases "inbox (proc e)")
  case Nil
  then have "w = proc e" using w by (simp add: check_for_data_def recvfrom_peek_def)
  then show ?thesis using s r b by (auto intro!: goes_on_frame)
next
  case (Cons x rest)
  obtain "from" d where x: "x = (from, d)" by (cases x)
  then have "d \<in> arrived e" using Cons by (simp add: arrived_def)
  then obtain src dst seq ack flags adv p where d: "d = peer_packet src dst seq ack flags adv p"
    and v: "valid_fields j t i ex seq ack flags p" using inb unfolding valid_datagram_def by blast
  have lp: "length p + 25 < 2 ^ 16" using v by (simp add: valid_fields_def)
  have ib: "inbox (proc e) = (from, peer_packet src dst seq ack flags adv p) # rest"
    using Cons x d by simp
  have "\<not> (flags AND ACK_FLAG_MASK = 0 \<or> flags AND SYN_FLAG_MASK \<noteq> 0)"
    using check_for_data_fails [OF ib lp, of NO_WAIT] w by (metis Inl_Inr_False)
  then have flags: "flags = ACK_FLAG_MASK" and sg: "segment_of j t seq p"
    and ack: "unat i < unat ack" "unat ack \<le> ex" using v unfolding valid_fields_def by blast+
  define e' where "e' = e\<lparr>proc := w\<rparr>"
  have e': "proc e' = w" "wrote e' = wrote e" "got e' = got e" by (simp_all add: e'_def)
  from check_for_data_valid [OF s r exb bi bj ib [unfolded flags] v [unfolded flags], of NO_WAIT] w
  have m: "ack = last_ack_received (window (sock (proc e))) \<and> sb_of e' = sb_of e
      \<or> send_buffer_update_ack (clock (proc e)) (sb_of e) ack = Inr (sb_of e')"
    "outbox w = outbox (proc e) @ (if p = [] then [] else [ack_packet w])" "inbox w = rest"
    "takes_segment (rb_of e) (segs (proc e)) (unat seq) p (rb_of e') (segs (proc e'))"
    "next_seq_expected (window (sock (proc e'))) = (if p = [] then next_seq_expected (window (sock (proc e)))
         else get_next_byte_expected_seqnum (rb_of e'))"
    "last_ack_received (window (sock (proc e'))) = MAX_u32 (last_ack_received (window (sock (proc e)))) ack"
    unfolding e' by auto
  have se: "sending i e' \<and> sent e' = sent e \<and> base_seq e' < ex"
    by (rule sending_after_ack [OF s b exb ack bi m(1,6) e'(2)])
  have re: "receiving j t e'" "next_seq e \<le> next_seq e'"
    using receiving_segment [OF r sg m(4) e'(3)] m(5) by (auto split: if_splits)
  have "valid_datagram i (sent e') j (next_seq e') d"
    if "d \<in> datagrams e'" "d \<notin> datagrams e" for d
  proof -
    have "d = snd (ack_packet w)" using that m(2) by (auto simp: datagrams_def e' split: if_splits)
    then show ?thesis using ack_packet_valid [OF re(1)] e'(1) by simp
  qed
  moreover have "arrived e' \<subseteq> arrived e" using Cons m(3) by (auto simp: arrived_def e')
  ultimately show ?thesis using se re unfolding e'_def [symmetric] goes_on_def by auto
qed

text \<open>What the sending half puts on the wire.\<close>

lemma data_packet_valid:
  assumes "receiving j t e" and "length p \<le> MSS" and "segment_of i s seq p"
  shows "valid_datagram i s j (next_seq e) (snd (data_packet (proc e) adv (seq, p)))"
  unfolding valid_datagram_def data_packet_def snd_conv fst_conv
  by (intro exI conjI) (rule peer_packet_def [symmetric], use assms in \<open>simp add: valid_fields_def receiving_def\<close>)

lemma fresh_segment:
  assumes s: "sending i e" and bd: "unat i + length (wrote e) + MSS < 2 ^ 32"
    and c: "(seq, p) \<in> set (cut_segments (get_last_byte_sent_seqnum (sb_of e) + 1)
        (take n (q_fresh (sb_abs (sb_of e)))))"
  shows "length p \<le> MSS \<and> segment_of i (sent e @ take n (q_fresh (sb_abs (sb_of e)))) seq p"
proof -
  let ?q = "sb_abs (sb_of e)"
  obtain acked where a: "sb_wf (sb_of e)" "wrote e = acked @ q_inflight ?q @ q_fresh ?q"
    "base_seq e = unat i + length acked" "sent e = acked @ q_inflight ?q" using s by (rule sendingE)
  obtain k where k: "seq = get_last_byte_sent_seqnum (sb_of e) + 1 + of_nat k"
    "k + length p \<le> length (take n (q_fresh ?q))" "p = take (length p) (drop k (take n (q_fresh ?q)))"
    using cut_segments_at [OF c] by blast
  have sq: "seq = last_byte_acked_seqnum (sb_of e) + of_nat (length (q_inflight ?q) + 1 + k)"
    using k(1) by (simp add: last_sent_seq [OF a(1)] length_abs [OF a(1)])
  have "base_seq e + (length (q_inflight ?q) + 1 + k) < 2 ^ 32" using a(2,3) k(2) bd by simp
  then have "unat seq = base_seq e + (length (q_inflight ?q) + 1 + k)"
    unfolding base_seq_def sq by (subst unat_add32) (simp_all only: unat_of_nat32)
  then have "unat seq = unat i + 1 + (length (sent e) + k)" using a(3,4) by simp
  moreover have "p = take (length p) (drop (length (sent e) + k) (sent e @ take n (q_fresh ?q)))"
    using k(3) by simp
  ultimately have "segment_of i (sent e @ take n (q_fresh ?q)) seq p"
    using k(2) unfolding segment_of_def by (intro disjI2 exI [of _ "length (sent e) + k"]) simp
  then show ?thesis using cut_segments_MSS [OF c] by simp
qed

lemma goes_on_multiple_send:
  assumes s: "sending i e" and r: "receiving j t e" and b: "base_seq e < ex"
    and bi: "unat i + length (wrote e) + MSS < 2 ^ 32"
    and w: "multiple_send (proc e) = Inr w"
  shows "goes_on i j t ex e (e\<lparr>proc := w\<rparr>) \<and> inbox w = inbox (proc e)"
proof -
  let ?q = "sb_abs (sb_of e)" and ?adv = "ucast (recv_buffer_max_receive (rb_of e)) :: u16"
  obtain acked where a: "sb_wf (sb_of e)" "cap (sb_of e) \<le> MSS" "wrote e = acked @ q_inflight ?q @ q_fresh ?q"
    "base_seq e = unat i + length acked" "sent e = acked @ q_inflight ?q" "acked_to e = base_seq e + 1"
    using s by (rule sendingE)
  define n where "n = min (length (q_fresh ?q))
      (unat (rcvd_advertised_window (window (sock (proc e)))) - length (q_inflight ?q))"
  obtain sb' where m: "w = (proc e)\<lparr>sock := (sock (proc e))\<lparr>send_buf := sb'\<rparr>,
        outbox := outbox (proc e) @ map (data_packet (proc e) ?adv)
          (cut_segments (get_last_byte_sent_seqnum (sb_of e) + 1) (take n (q_fresh ?q)))\<rparr>"
    "sb_wf sb'" "s_capacity sb' = s_capacity (sb_of e)"
    "sb_abs sb' = ?q\<lparr>q_inflight := q_inflight ?q @ take n (q_fresh ?q), q_fresh := drop n (q_fresh ?q)\<rparr>"
    using multiple_send_ok [OF a(1) sending_room [OF s bi]] w unfolding n_def [symmetric]
    by (auto split: if_splits)
  define e' where "e' = e\<lparr>proc := w\<rparr>"
  have q: "sb_abs (sb_of e') = ?q\<lparr>q_inflight := q_inflight ?q @ take n (q_fresh ?q), q_fresh := drop n (q_fresh ?q)\<rparr>"
    using m(1,4) by (simp add: e'_def)
  have "q_base (sb_abs (sb_of e')) = q_base ?q" unfolding q by simp
  then have be: "base_seq e' = base_seq e" by (simp add: sb_abs_def base_seq_def)
  have "sb_wf (sb_of e')" "cap (sb_of e') \<le> MSS" "wrote e' = wrote e" "acked_to e' = acked_to e"
    using m(1-3) a(2) by (simp_all add: e'_def cap_def acked_to_def)
  then have se: "sending i e'" "sent e' = sent e @ take n (q_fresh ?q)"
    using sendingI [of e' acked i] a be unfolding q by simp_all
  have re: "receiving j t e'" "next_seq e' = next_seq e"
    using receiving_frame [OF r, of e'] m(1) by (simp_all add: e'_def)
  have "valid_datagram i (sent e') j (next_seq e') d" if "d \<in> datagrams e'" "d \<notin> datagrams e" for d
  proof -
    from that obtain seq p where c: "(seq, p) \<in> set (cut_segments (get_last_byte_sent_seqnum (sb_of e) + 1)
        (take n (q_fresh ?q)))" and d: "d = snd (data_packet (proc e) ?adv (seq, p))"
      using m(1) by (auto simp: datagrams_def e'_def)
    show ?thesis
      using data_packet_valid [OF r, of p i "sent e'" seq ?adv] fresh_segment [OF s bi c] re(2) se(2) d by simp
  qed
  then show ?thesis
    using se re be b m(1) unfolding e'_def [symmetric] goes_on_def by (auto simp: e'_def)
qed

lemma goes_on_resend:
  assumes s: "sending i e" and r: "receiving j t e" and b: "base_seq e < ex"
    and bi: "unat i + length (wrote e) + MSS < 2 ^ 32"
    and ne: "q_inflight (sb_abs (sb_of e)) \<noteq> []"
    and w: "resend_unacknowledged (proc e) = Inr w"
  shows "goes_on i j t ex e (e\<lparr>proc := w\<rparr>) \<and> inbox w = inbox (proc e)"
proof -
  let ?q = "sb_abs (sb_of e)" and ?adv = "ucast (recv_buffer_max_receive (rb_of e)) :: u16"
  obtain acked where a: "sb_wf (sb_of e)" "cap (sb_of e) \<le> MSS" "wrote e = acked @ q_inflight ?q @ q_fresh ?q"
    "base_seq e = unat i + length acked" "sent e = acked @ q_inflight ?q" using s by (rule sendingE)
  obtain n where n: "w = (proc e)\<lparr>outbox := outbox (proc e) @ [data_packet (proc e) ?adv
      (q_base ?q + 1, take n (q_inflight ?q))]\<rparr>"
    using resend_unacknowledged_ok [OF a(1,2) ne] w by (auto split: if_splits)
  define e' where "e' = e\<lparr>proc := w\<rparr>"
  let ?p = "take n (q_inflight ?q)"
  have "unat (q_base ?q + 1) = base_seq e + 1"
    using a(3,4) bi by (simp add: sb_abs_def base_seq_def) (subst unat_add32; simp add: base_seq_def)
  then have "unat (q_base ?q + 1) = unat i + 1 + length acked" using a(4) by simp
  moreover have "?p = take (length ?p) (drop (length acked) (sent e))" unfolding a(5) by (simp add: min_def)
  moreover have "length acked + length ?p \<le> length (sent e)" unfolding a(5) by simp
  ultimately have "segment_of i (sent e) (q_base ?q + 1) ?p" unfolding segment_of_def by blast
  moreover have "length ?p \<le> MSS"
    using sb_wfD(7,8) [OF a(1)] a(2) by (simp add: length_abs [OF a(1)])
  ultimately have v: "valid_datagram i (sent e) j (next_seq e)
      (snd (data_packet (proc e) ?adv (q_base ?q + 1, ?p)))"
    by (intro data_packet_valid [OF r])
  have "datagrams e' = insert (snd (data_packet (proc e) ?adv (q_base ?q + 1, ?p))) (datagrams e)"
    unfolding e'_def n by (simp add: datagrams_def)
  moreover have "sending i e'" "sent e' = sent e" "base_seq e' = base_seq e" "receiving j t e'" "next_seq e' = next_seq e"
    using s r unfolding e'_def n by (simp_all add: sending_def acked_to_def receiving_def sent_def base_seq_def next_seq_def)
  ultimately show ?thesis using v b unfolding e'_def [symmetric] goes_on_def by (auto simp: n)
qed

lemma goes_on_transmit:
  assumes "sending i e" and "receiving j t e" and "base_seq e < ex"
    and "unat i + length (wrote e) + MSS < 2 ^ 32"
    and "backend_send (proc e) = Inr w"
  shows "goes_on i j t ex e (e\<lparr>proc := w\<rparr>) \<and> inbox w = inbox (proc e)"
proof (cases "get_unacknowledged_count (sb_of e) > 0 \<and> backend_send (proc e) = resend_unacknowledged (proc e)")
  case True
  have "sb_wf (sb_of e)" using assms(1) by (simp add: sending_def)
  then have "q_inflight (sb_abs (sb_of e)) \<noteq> []"
    using True length_abs(1) [of "sb_of e"] unacked_count [of "sb_of e"]
    by (auto simp: word_less_nat_alt)
  then show ?thesis using goes_on_resend [OF assms(1-4)] True assms(5) by simp
next
  case False
  then have "backend_send (proc e) = multiple_send (proc e)" by (auto simp: backend_send_def)
  then show ?thesis using goes_on_multiple_send [OF assms(1-4)] assms(5) by simp
qed

lemma step_wrote: "endpoint_step net e e' \<Longrightarrow> prefix (wrote e) (wrote e')"
  by (induction rule: endpoint_step.induct) auto

lemma endpoint_step_goes_on:
  assumes "endpoint_step net e e'" and s: "sending i e" and r: "receiving j t e" and b: "base_seq e < ex"
    and exb: "ex \<le> unat i + 1 + length (sent e)"
    and bi: "unat i + length (wrote e') + MSS < 2 ^ 32" and bj: "unat j + length t + MSS < 2 ^ 32"
    and inb: "\<forall>d \<in> net \<union> arrived e. valid_datagram j t i ex d"
  shows "goes_on i j t ex e e' \<and> arrived e' \<subseteq> arrived e \<union> net"
proof -
  have bi': "unat i + length (wrote e) + MSS < 2 ^ 32"
    using prefix_length_le [OF step_wrote [OF assms(1)]] bi by simp
  note frame = goes_on_frame [OF s r b]
  show ?thesis
    using assms(1)
  proof cases
    case (app_write buf written len w written' len')
    then have "inbox w = inbox (proc e)"
      by (auto simp: cmu_write_turn_def Let_def split: if_splits)
    then show ?thesis using goes_on_write [OF s r b app_write(2-5)] app_write(1) by (simp add: arrived_def)
  next
    case (app_read buf len flags w buf' n)
    then have "inbox w = inbox (proc e)"
      by (auto simp: cmu_read_def Let_def split: if_splits)
    then show ?thesis using goes_on_read [OF s r b app_read(2-4)] app_read(1) by (simp add: arrived_def)
  next
    case (app_close w)
    then have w: "w = upd_sock (\<lambda>s. s\<lparr>dying := 1\<rparr>) (proc e)"
      by (auto simp: cmu_close_request_def split: if_splits)
    show ?thesis unfolding app_close(1) w by (intro conjI frame) (simp_all add: arrived_def)
  next
    case (receive w)
    then show ?thesis using goes_on_receive [OF s r b exb bi' bj _ receive(2)] inb by auto
  next
    case (transmit w)
    then show ?thesis using goes_on_transmit [OF s r b bi' transmit(2)] by (simp add: arrived_def)
  next
    case (arrive d sender)
    show ?thesis unfolding arrive(1) using arrive(2)
      by (intro conjI frame) (auto simp: arrived_def)
  next
    case (tick tv)
    show ?thesis unfolding tick by (intro conjI frame) (simp_all add: arrived_def)
  qed
qed

section \<open>All steps\<close>

lemma linked_sym: "linked i j l r \<longleftrightarrow> linked j i r l"
  by (auto simp: linked_def)

lemma linked_goes_on:
  assumes lk: "linked i j l r" and g: "goes_on i j (sent r) (next_seq r) l l'"
    and a: "arrived l' \<subseteq> arrived l \<union> datagrams r"
  shows "linked i j l' r"
proof -
  have lr: "receiving i (sent l) r" "\<And>d. d \<in> datagrams l \<union> arrived r \<Longrightarrow> valid_datagram i (sent l) j (next_seq l) d"
    and rl: "sending j r" "base_seq r < next_seq l"
    "\<And>d. d \<in> datagrams r \<union> arrived l \<Longrightarrow> valid_datagram j (sent r) i (next_seq r) d"
    using lk by (auto simp: linked_def linked_to_def)
  have g': "sending i l'" "prefix (sent l) (sent l')" "base_seq l' < next_seq r"
    "receiving j (sent r) l'" "next_seq l \<le> next_seq l'"
    "\<And>d. d \<in> datagrams l' \<Longrightarrow> d \<in> datagrams l \<or> valid_datagram i (sent l') j (next_seq l') d"
    using g by (auto simp: goes_on_def)
  have "valid_datagram i (sent l') j (next_seq l') d" if "d \<in> datagrams l' \<union> arrived r" for d
    using that g'(6) valid_datagram_mono [OF lr(2) g'(2,5)] by blast
  then have "linked_to i j l' r"
    using g'(1,3) receiving_mono [OF lr(1) g'(2)] by (simp add: linked_to_def)
  moreover have "linked_to j i r l'"
    using rl g' a unfolding linked_to_def by (meson Un_iff order_less_le_trans subsetD)
  ultimately show ?thesis by (simp add: linked_def)
qed

lemma linked_step:
  assumes lk: "linked i j l r" and step: "endpoint_step (datagrams r) l l'"
    and bi: "unat i + length (wrote l') + MSS < 2 ^ 32" and bj: "unat j + length (wrote r) + MSS < 2 ^ 32"
  shows "linked i j l' r"
proof -
  have lr: "sending i l" "receiving i (sent l) r" "base_seq l < next_seq r"
    and rl: "receiving j (sent r) l" "\<And>d. d \<in> datagrams r \<union> arrived l \<Longrightarrow> valid_datagram j (sent r) i (next_seq r) d"
    using lk by (auto simp: linked_def linked_to_def)
  have "length (sent r) \<le> length (wrote r)" by (simp add: sent_def)
  then have "unat j + length (sent r) + MSS < 2 ^ 32" using bj by simp
  from endpoint_step_goes_on [OF step lr(1) rl(1) lr(3) readable_prefix(3) [OF lr(2)] bi this] rl(2)
  have g: "goes_on i j (sent r) (next_seq r) l l'" and a: "arrived l' \<subseteq> arrived l \<union> datagrams r" by auto
  show ?thesis by (rule linked_goes_on [OF lk g a])
qed

lemma connection_linked:
  assumes "connection l0 r0 l r" and "linked i j l0 r0"
    and "unat i + length (wrote l) + MSS < 2 ^ 32" and "unat j + length (wrote r) + MSS < 2 ^ 32"
  shows "linked i j l r"
  using assms
proof (induction rule: connection.induct)
  case start
  then show ?case by simp
next
  case (left l r l')
  have "length (wrote l) \<le> length (wrote l')" using left.hyps(2) by (intro prefix_length_le step_wrote)
  then show ?case using left by (intro linked_step [OF _ left.hyps(2)]) simp_all
next
  case (right l r r')
  have "length (wrote r) \<le> length (wrote r')" using right.hyps(2) by (intro prefix_length_le step_wrote)
  then have "linked j i r l" using right linked_sym by simp
  from linked_step [OF this right.hyps(2)] right.prems show ?case by (simp add: linked_sym)
qed

end
