(* ===== verification/Connection.thy ===== *)
theory Connection
  imports System
begin

text \<open>
  From fresh sockets to a connection: what a socket as \<open>cmu_socket\<close> leaves it means for the
  invariant of \<open>System\<close>; and what the invariant says of the two streams.
\<close>

section \<open>From the handshake to the connection\<close>

text \<open>A socket as \<open>cmu_socket\<close> leaves it, with initial sequence number \<open>i\<close>.\<close>

definition fresh_socket :: "u32 \<Rightarrow> host \<Rightarrow> bool" where
  "fresh_socket i w \<longleftrightarrow> sb_wf (send_buf (sock w)) \<and> cap (send_buf (sock w)) \<le> MSS
     \<and> sb_abs (send_buf (sock w)) = \<lparr>q_base = i, q_inflight = [], q_fresh = []\<rparr>
     \<and> last_ack_received (window (sock w)) = i \<and> i < - 1
     \<and> 1 < rcap (recv_buf (sock w)) \<and> rcap (recv_buf (sock w)) \<le> 2 ^ 31
     \<and> length (r_buffer (recv_buf (sock w))) = rcap (recv_buf (sock w))
     \<and> last_byte_read_seqnum (recv_buf (sock w)) = 0
     \<and> r_start (recv_buf (sock w)) = Null \<and> r_end (recv_buf (sock w)) = Null
     \<and> heap_ok (segs w) [] \<and> outbox w = []
     \<and> counter1 w = 0 \<and> counter2 w = 0 \<and> counter3 w = 0"

definition established :: "host \<Rightarrow> endpoint" where
  "established w = \<lparr>proc = w, wrote = [], got = []\<rparr>"

lemma established_simps [simp]:
  "proc (established w) = w" "wrote (established w) = []" "got (established w) = []"
  "sent (established w) = []"
  by (simp_all add: established_def sent_def)

lemma fresh_socket_base: "fresh_socket i w \<Longrightarrow> last_byte_acked_seqnum (send_buf (sock w)) = i"
  by (metis byte_queue.select_convs(1) fresh_socket_def sb_abs_def)

lemma fresh_socket_ready:
  assumes "fresh_socket i w"
  shows "sock_type (sock w) = TCP_INITIATOR \<Longrightarrow> client_ready w"
    and "sock_type (sock w) = TCP_LISTENER \<Longrightarrow> server_ready w"
  using assms fresh_socket_base [OF assms]
  by (simp_all add: fresh_socket_def client_ready_def server_ready_def)

lemma below_minus1: "i < - 1 \<Longrightarrow> unat (i + 1) = unat i + 1" for i :: u32
  using unat_uminus32 [of 1] by (intro trans [OF unat_add32]) (simp_all add: word_less_nat_alt)

text \<open>A receive buffer right after the other side's number arrived.\<close>

lemma initial_receiver:
  assumes f: "fresh_socket i w" and j: "j < - 1"
    and e: "rb_of e = (recv_buf (sock w))\<lparr>last_byte_read_seqnum := j, last_byte_read_index := 0,
        next_byte_expected_index := 1\<rparr>" "segs (proc e) = segs w" "got e = []"
      "next_seq_expected (window (sock (proc e))) = j + 1"
  shows "receiving j [] e" "next_seq e = unat j + 1"
proof -
  have s: "read_seq (rb_of e) = unat j" "rcap (rb_of e) = rcap (recv_buf (sock w))" "read_idx (rb_of e) = 0"
    by (simp_all add: e rb_nat)
  have n: "unat (j + 1) = unat j + 1" by (rule below_minus1 [OF j])
  have d: "expected_seq (rb_of e) = unat j + 1"
    using s by (simp add: expected_seq_def expected_dist_def dist1_def e(1))
  then show x: "next_seq e = unat j + 1" by (simp add: next_seq_def)
  have "rb_wf (rb_of e)"
    using f s d n unat_u32_less [of "j + 1"] by (simp add: rb_wf_def fresh_socket_def) (simp add: e(1))
  then have ok: "rb_ok (rb_of e) (segs (proc e)) []"
    using f by (simp add: rb_ok_def segs_sorted_def fresh_socket_def e)
  moreover have "heap_ok (segs (proc e)) []" using f by (simp add: fresh_socket_def e)
  ultimately have "\<not> rb_has (rb_of e) (segs (proc e)) q" for q
    using s d by (simp add: rb_has_list)
  then show "receiving j [] e"
    using ok s n x e(3,4) by (auto simp: receiving_def)
qed

lemma initial_sender:
  assumes f: "fresh_socket i w" and "sb_of e = send_buf (sock w)" "wrote e = []"
    "last_ack_received (window (sock (proc e))) = i + 1"
  shows "sending i e" "base_seq e = unat i" "sent e = []"
proof -
  show b: "base_seq e = unat i" using fresh_socket_base [OF f] assms(2) by (simp add: base_seq_def)
  have "acked_to e = unat i + 1"
    using f assms(4) below_minus1 by (simp add: acked_to_def fresh_socket_def)
  then show "sending i e" "sent e = []"
    using f assms(2,3) b by (auto simp: sending_def sent_def fresh_socket_def)
qed

lemma control_valid:
  assumes "flags AND ACK_FLAG_MASK = 0 \<or> flags AND SYN_FLAG_MASK \<noteq> 0
    \<or> flags = ACK_FLAG_MASK \<and> unat j < unat ack \<and> unat ack \<le> ex"
  shows "valid_datagram i s j ex (control_header src peer seq ack flags)"
  unfolding valid_datagram_def control_header_def
  by (intro exI conjI) (rule trans [OF _ peer_packet_def [where payload = "[]", symmetric]],
      simp, use assms in \<open>simp add: valid_fields_def segment_of_def\<close>)

section \<open>What the invariant says\<close>

lemma linked_prefix:
  assumes "linked i j l r"
  shows "prefix (got r @ readable r) (wrote l)"
proof -
  have "prefix (got r @ readable r) (sent l)"
    using assms readable_prefix(1) by (auto simp: linked_def linked_to_def)
  then show ?thesis unfolding sent_def by (metis prefix_order.trans take_is_prefix)
qed

lemma linked_no_loss:
  assumes "linked i j l r"
  shows "\<exists>acked. wrote l = acked @ q_inflight (sb_abs (sb_of l)) @ q_fresh (sb_abs (sb_of l))
    \<and> base_seq l = unat i + length acked \<and> prefix acked (got r @ readable r)"
proof -
  have lk: "sending i l" "receiving i (sent l) r" "base_seq l < next_seq r"
    using assms by (auto simp: linked_def linked_to_def)
  obtain acked where a: "wrote l = acked @ q_inflight (sb_abs (sb_of l)) @ q_fresh (sb_abs (sb_of l))"
    "base_seq l = unat i + length acked" using lk(1) by (rule sendingE)
  have "prefix acked (wrote l)" unfolding a(1) by simp
  moreover have "length acked \<le> length (got r @ readable r)"
    using a(2) lk(3) readable_prefix(2) [OF lk(2)] by simp
  ultimately have "prefix acked (got r @ readable r)"
    using linked_prefix [OF assms] prefix_length_prefix by blast
  then show ?thesis using a by blast
qed

text \<open>One direction of a connection as a byte stream: the sender holds what is in its buffer.\<close>

interpretation sliding_window: byte_stream "\<lambda>(l, r). linked i j l r" "\<lambda>(l, r). wrote l"
  "\<lambda>(l, r). got r @ readable r"
  "\<lambda>(l, r). q_inflight (sb_abs (sb_of l)) @ q_fresh (sb_abs (sb_of l))"
  for i j
proof (unfold_locales, goal_cases)
  case (1 s)
  then show ?case using linked_prefix by (auto split: prod.splits)
next
  case (2 s)
  then obtain l r where "s = (l, r)" "linked i j l r" by (auto split: prod.splits)
  with linked_no_loss [of i j l r] show ?case by auto
qed

lemma linked_receives:
  assumes lk: "linked i j l r"
    and bi: "unat i + length (wrote l) + MSS < 2 ^ 32" and bj: "unat j + length (wrote r) + MSS < 2 ^ 32"
    and fl: "\<And>d. d \<in> arrived l \<Longrightarrow> get_flags d = Inr ACK_FLAG_MASK"
  shows "\<exists>w. check_for_data (proc l) NO_WAIT = Inr w"
proof (cases "inbox (proc l)")
  case Nil
  then show ?thesis by (simp add: check_for_data_def recvfrom_peek_def)
next
  case (Cons x rest)
  obtain "from" d where x: "x = (from, d)" by (cases x)
  have d: "d \<in> arrived l" using Cons x by (simp add: arrived_def)
  have l: "sending i l" "receiving j (sent r) l" "next_seq r \<le> unat i + 1 + length (sent l)"
    "valid_datagram j (sent r) i (next_seq r) d"
    using lk d readable_prefix(3) by (auto simp: linked_def linked_to_def)
  obtain src dst seq ack flags adv p where p: "d = peer_packet src dst seq ack flags adv p"
    and v: "valid_fields j (sent r) i (next_seq r) seq ack flags p"
    using l(4) unfolding valid_datagram_def by blast
  have "get_flags d = Inr flags" using v peer_packet_fields(1) [of p] by (simp add: p valid_fields_def)
  then have f: "flags = ACK_FLAG_MASK" using fl [OF d] by simp
  have "length (sent r) \<le> length (wrote r)" by (simp add: sent_def)
  then have "unat j + length (sent r) + MSS < 2 ^ 32" using bj by simp
  from check_for_data_valid [OF l(1-3) bi this _ v [unfolded f], of "from" src dst adv rest NO_WAIT]
  show ?thesis using Cons x p f by auto
qed

lemma linked_invariant:
  assumes lk: "linked i j l r" and bi: "unat i + length (wrote l) + MSS < 2 ^ 32"
  shows "host_ok (proc l) \<and> last_ack_received (window (sock (proc l))) = last_byte_acked_seqnum (sb_of l) + 1
    \<and> ack_admissible (sb_of l) (next_seq_expected (window (sock (proc r))))"
proof -
  have l: "sending i l" "receiving j (sent r) l" and r: "receiving i (sent l) r"
    using lk by (auto simp: linked_def linked_to_def)
  obtain acked where a: "acked_to l = base_seq l + 1" "base_seq l = unat i + length acked"
    "wrote l = acked @ q_inflight (sb_abs (sb_of l)) @ q_fresh (sb_abs (sb_of l))"
    using l(1) by (rule sendingE)
  have "unat (last_byte_acked_seqnum (sb_of l) + 1) = base_seq l + 1"
    using a(2,3) bi unfolding base_seq_def by (subst unat_add32) simp_all
  then have "last_ack_received (window (sock (proc l))) = last_byte_acked_seqnum (sb_of l) + 1"
    using a(1) by (intro u32_eqI) (simp add: acked_to_def)
  moreover have "host_ok (proc l)"
    using l sending_room [OF l(1) bi] by (auto simp: host_ok_def sending_def receiving_def)
  moreover have "unat i < unat (next_seq_expected (window (sock (proc r))))"
    "unat (next_seq_expected (window (sock (proc r)))) \<le> unat i + 1 + length (sent l)"
    using r readable_prefix(3) [OF r] by (auto simp: receiving_def)
  ultimately show ?thesis using ack_is_admissible [OF l(1) _ _ bi] by blast
qed

end
