(* ===== verification/Progress.thy ===== *)
theory Progress
  imports Connection
begin

text \<open>
  What a connection can do and what ends: data goes through a quiet connection, a
  retransmission that arrives is acknowledged, \<open>cmu_write\<close> returns when the backend keeps
  making room, the backend's thread ends when everything is acknowledged.
\<close>

section \<open>Single steps that succeed\<close>

text \<open>With nothing in flight, the sending half puts the next fresh bytes on the wire.\<close>

lemma send_quiet:
  assumes s: "sending i l" and r: "receiving j t l" and bi: "unat i + length (wrote l) + MSS < 2 ^ 32"
    and q: "q_inflight (sb_abs (sb_of l)) = []"
    and n: "n = min (length (q_fresh (sb_abs (sb_of l)))) (unat (rcvd_advertised_window (window (sock (proc l)))))"
      "0 < n" "dump_safe (sb_of l) (of_nat n)"
  shows "\<exists>w src dst seq ack adv. endpoint_step net l (l\<lparr>proc := w\<rparr>) \<and> backend_send (proc l) = Inr w
    \<and> sent (l\<lparr>proc := w\<rparr>) = sent l @ take n (q_fresh (sb_abs (sb_of l)))
    \<and> next_seq (l\<lparr>proc := w\<rparr>) = next_seq l
    \<and> peer_packet src dst seq ack ACK_FLAG_MASK adv (take n (q_fresh (sb_abs (sb_of l)))) \<in> datagrams (l\<lparr>proc := w\<rparr>)
    \<and> unat seq = base_seq l + 1
    \<and> valid_fields i (sent l @ take n (q_fresh (sb_abs (sb_of l)))) j (next_seq l) seq ack ACK_FLAG_MASK
        (take n (q_fresh (sb_abs (sb_of l))))
    \<and> inbox w = inbox (proc l) \<and> initialized (sock w) = initialized (sock (proc l))"
proof -
  let ?q = "sb_abs (sb_of l)" and ?adv = "ucast (recv_buffer_max_receive (rb_of l)) :: u16"
  let ?bs = "take n (q_fresh ?q)" and ?seq = "get_last_byte_sent_seqnum (sb_of l) + 1"
  obtain acked where a: "sb_wf (sb_of l)" "cap (sb_of l) \<le> MSS" "wrote l = acked @ q_inflight ?q @ q_fresh ?q"
    "base_seq l = unat i + length acked" "sent l = acked @ q_inflight ?q" using s by (rule sendingE)
  note d = sb_wfD [OF a(1)]
  have un: "get_unacknowledged_count (sb_of l) = 0"
    using q unacked_count [OF a(1)] length_abs(1) [OF a(1)] by (simp add: unat_eq_0)
  then have bs: "backend_send (proc l) = multiple_send (proc l)" by (simp add: backend_send_def)
  have le: "n \<le> length (q_fresh ?q)" using n(1) by simp
  have ln: "length ?bs = n" "n \<le> 1375"
    using le d(7,8) a(2) length_abs(2) [OF a(1)] by simp_all
  then have "?bs \<noteq> []" using n(2) by force
  then have cut: "cut_segments ?seq ?bs = [(?seq, ?bs)]"
    using ln by (simp add: cut_segments_more)
  obtain sb' where m: "multiple_send (proc l) = Inr ((proc l)\<lparr>sock := (sock (proc l))\<lparr>send_buf := sb'\<rparr>,
        outbox := outbox (proc l) @ map (data_packet (proc l) ?adv) [(?seq, ?bs)]\<rparr>)"
    "sb_abs sb' = ?q\<lparr>q_inflight := q_inflight ?q @ ?bs, q_fresh := drop n (q_fresh ?q)\<rparr>"
    using multiple_send_ok [OF a(1) sending_room [OF s bi]] n cut q by (auto simp: Let_def)
  define w where "w = (proc l)\<lparr>sock := (sock (proc l))\<lparr>send_buf := sb'\<rparr>,
        outbox := outbox (proc l) @ [data_packet (proc l) ?adv (?seq, ?bs)]\<rparr>"
  have out: "backend_send (proc l) = Inr w" using bs m(1) by (simp add: w_def)
  then have st: "endpoint_step net l (l\<lparr>proc := w\<rparr>)" by (rule endpoint_step.transmit)
  have se: "sent (l\<lparr>proc := w\<rparr>) = sent l @ ?bs"
    using m(2) a(3,5) le by (simp add: sent_def w_def)
  let ?ack = "next_seq_expected (window (sock (proc l)))"
  have dp: "snd (data_packet (proc l) ?adv (?seq, ?bs)) = peer_packet (my_port (sock (proc l)))
      (ntohs (sin_port (conn (sock (proc l))))) ?seq ?ack ACK_FLAG_MASK ?adv ?bs"
    by (simp add: data_packet_def peer_packet_def)
  then have "peer_packet (my_port (sock (proc l))) (ntohs (sin_port (conn (sock (proc l))))) ?seq ?ack
      ACK_FLAG_MASK ?adv ?bs \<in> datagrams (l\<lparr>proc := w\<rparr>)"
    by (simp add: datagrams_def w_def)
  moreover have sq: "unat ?seq = base_seq l + 1"
  proof -
    have "?seq = last_byte_acked_seqnum (sb_of l) + 1"
      using q length_abs(1) [OF a(1)] by (simp add: last_sent_seq [OF a(1)])
    moreover have "unat (last_byte_acked_seqnum (sb_of l) + 1) = base_seq l + 1"
      using a(3,4) bi unfolding base_seq_def by (subst unat_add32) simp_all
    ultimately show ?thesis by simp
  qed
  moreover have "(?seq, ?bs) \<in> set (cut_segments ?seq (take n (q_fresh ?q)))" unfolding cut by simp
  from fresh_segment [OF s bi this] r
  have "valid_fields i (sent l @ ?bs) j (next_seq l) ?seq ?ack ACK_FLAG_MASK ?bs"
    by (simp add: valid_fields_def receiving_def)
  moreover have "next_seq (l\<lparr>proc := w\<rparr>) = next_seq l" by (simp add: next_seq_def w_def)
  moreover have "inbox w = inbox (proc l)" "initialized (sock w) = initialized (sock (proc l))"
    by (simp_all add: w_def)
  ultimately show ?thesis using out st se by blast
qed

text \<open>An arrival at an endpoint with nothing pending, and its receipt.\<close>

definition receipt :: "host \<Rightarrow> u8 list \<Rightarrow> host \<Rightarrow> bool" where
  "receipt w d w' \<longleftrightarrow> (\<exists>from. inbox w = [] \<and> check_for_data (w\<lparr>inbox := inbox w @ [(from, d)]\<rparr>) NO_WAIT = Inr w')"

lemma receive_arrival:
  assumes s: "sending j e" and r: "receiving i t e" and exb: "ex \<le> unat j + 1 + length (sent e)"
    and bj: "unat j + length (wrote e) + MSS < 2 ^ 32" and bi: "unat i + length t + MSS < 2 ^ 32"
    and ib: "inbox (proc e) = []" and up: "initialized (sock (proc e))"
    and d: "d = peer_packet src dst seq ack ACK_FLAG_MASK adv p" "d \<in> net"
    and v: "valid_fields i t j ex seq ack ACK_FLAG_MASK p"
  shows "\<exists>e1 w. endpoint_step net e e1 \<and> endpoint_step net e1 (e1\<lparr>proc := w\<rparr>)
    \<and> e1\<lparr>proc := w\<rparr> = e\<lparr>proc := w\<rparr> \<and> initialized (sock w) \<and> inbox w = []
    \<and> takes_segment (rb_of e) (segs (proc e)) (unat seq) p (recv_buf (sock w)) (segs w)
    \<and> (ack = last_ack_received (window (sock (proc e))) \<and> send_buf (sock w) = sb_of e
       \<or> send_buffer_update_ack (clock (proc e)) (sb_of e) ack = Inr (send_buf (sock w)))
    \<and> outbox w = outbox (proc e) @ (if p = [] then [] else [ack_packet w])
    \<and> rcvd_advertised_window (window (sock w)) = adv \<and> receipt (proc e) d w"
proof -
  let ?addr = "\<lparr>sin_addr = 0, sin_port = 0\<rparr>"
  define e1 where "e1 = e\<lparr>proc := (proc e)\<lparr>inbox := inbox (proc e) @ [(?addr, d)]\<rparr>\<rparr>"
  have step: "endpoint_step net e e1" unfolding e1_def by (rule endpoint_step.arrive [OF d(2)])
  have s1: "sending j e1" "sent e1 = sent e" and r1: "receiving i t e1"
    using s r by (simp_all add: e1_def sending_def acked_to_def sent_def base_seq_def receiving_def next_seq_def)
  have ib1: "inbox (proc e1) = (?addr, peer_packet src dst seq ack ACK_FLAG_MASK adv p) # []"
    using ib d(1) by (simp add: e1_def)
  have w1: "wrote e1 = wrote e" by (simp add: e1_def)
  from check_for_data_valid [OF s1(1) r1 exb [folded s1(2)] bj [folded w1] bi ib1 v, of NO_WAIT]
  obtain w where w: "check_for_data (proc e1) NO_WAIT = Inr w" "inbox w = []" "initialized (sock w)"
    "takes_segment (rb_of e) (segs (proc e)) (unat seq) p (recv_buf (sock w)) (segs w)"
    "ack = last_ack_received (window (sock (proc e))) \<and> send_buf (sock w) = sb_of e
       \<or> send_buffer_update_ack (clock (proc e)) (sb_of e) ack = Inr (send_buf (sock w))"
    "outbox w = outbox (proc e) @ (if p = [] then [] else [ack_packet w])"
    "rcvd_advertised_window (window (sock w)) = adv"
    using up by (auto simp: e1_def)
  have "endpoint_step net e1 (e1\<lparr>proc := w\<rparr>)" by (rule endpoint_step.receive [OF w(1)])
  moreover have "receipt (proc e) d w"
    unfolding receipt_def using ib w(1) by (intro exI [of _ ?addr]) (simp add: e1_def)
  ultimately show ?thesis using step w by (intro exI [of _ e1] exI [of _ w]) (simp add: e1_def)
qed

text \<open>Reading everything there is, up to a given byte.\<close>

definition takes_out :: "host \<Rightarrow> u8 list \<Rightarrow> u8 list \<Rightarrow> bool" where
  "takes_out w bs bs' \<longleftrightarrow> (\<exists>k w' b. cmu_read w (replicate k 0) (int k) NO_WAIT = Inr (w', b, int k)
     \<and> int k < 2 ^ 31 \<and> bs @ take k b = bs')"

lemma read_up_to:
  assumes r: "receiving i t e" and up: "initialized (sock (proc e))"
    and m: "length (got e) < m" "unat i + m < next_seq e"
  shows "\<exists>e'. endpoint_step net e e' \<and> got e' = take m t \<and> wrote e' = wrote e \<and> sent e' = sent e
    \<and> takes_out (proc e) (got e) (take m t)"
proof -
  obtain xs where ok: "rb_ok (rb_of e) (segs (proc e)) xs" and g: "read_seq (rb_of e) = unat i + length (got e)"
    using r by (auto simp: receiving_def)
  then have wf: "rb_wf (rb_of e)" by (simp add: rb_ok_def)
  let ?k = "m - length (got e)"
  let ?n = "min (nat (int ?k)) (expected_seq (rb_of e) - read_seq (rb_of e) - 1)"
  have k: "?n = ?k" "0 < ?k" "?k \<le> length (readable e)"
    using m g by (auto simp: next_seq_def readable_def)
  have "?k < rcap (rb_of e)" using m g rb_wfD(11) [OF wf] by (simp add: next_seq_def)
  then have lt: "int ?k < 2 ^ 31" using rb_wfD(2) [OF wf] by simp
  obtain rb' where rb': "cmu_read (proc e) (replicate ?k 0) (int ?k) NO_WAIT =
      Inr (upd_sock (\<lambda>s. s\<lparr>recv_buf := rb'\<rparr>) (proc e),
        map (\<lambda>k. byte_at (rb_of e) (read_seq (rb_of e) + 1 + k)) [0..<?k], int ?k)"
    using cmu_read_ok [OF up _ ok _ lt, of NO_WAIT "replicate ?k 0"] k m g
    by (auto simp: next_seq_def)
  define e' where "e' = e\<lparr>proc := upd_sock (\<lambda>s. s\<lparr>recv_buf := rb'\<rparr>) (proc e),
      got := got e @ take (nat (int ?k)) (map (\<lambda>k. byte_at (rb_of e) (read_seq (rb_of e) + 1 + k)) [0..<?k])\<rparr>"
  have st: "endpoint_step net e e'"
    unfolding e'_def by (rule endpoint_step.app_read [OF rb' lt]) simp
  have "got e' = got e @ take ?k (readable e)"
  proof -
    have "map (\<lambda>k. byte_at (rb_of e) (read_seq (rb_of e) + 1 + k)) [0..<?k] = take ?k (readable e)"
      using k(3) by (intro nth_equalityI) (auto simp: readable_def less_diff_conv simp del: upt_Suc)
    then show ?thesis by (simp add: e'_def)
  qed
  also have "\<dots> = take m (got e @ readable e)" using m(1) by simp
  also have "\<dots> = take m t"
  proof -
    obtain u where "t = (got e @ readable e) @ u" using readable_prefix(1) [OF r] by (rule prefixE)
    then show ?thesis using k(3) m(1) by simp
  qed
  finally have g': "got e' = take m t" .
  have "takes_out (proc e) (got e) (take m t)"
    unfolding takes_out_def by (intro exI conjI, rule rb', rule lt) (use g' in \<open>simp add: e'_def\<close>)
  then show ?thesis using st g' by (intro exI [of _ e']) (simp add: e'_def sent_def)
qed

section \<open>Data goes through\<close>

text \<open>The calls by which it does so: sending, receipt, reading.\<close>

definition delivery :: "endpoint \<Rightarrow> endpoint \<Rightarrow> u8 list \<Rightarrow> bool" where
  "delivery l r bs \<longleftrightarrow> (\<exists>w d w'. backend_send (proc l) = Inr w \<and> d \<in> datagrams (l\<lparr>proc := w\<rparr>)
     \<and> receipt (proc r) d w' \<and> takes_out w' (got r) bs)"

lemma deliver:
  assumes lk: "linked i j l r"
    and bi: "unat i + length (wrote l) + MSS < 2 ^ 32" and bj: "unat j + length (wrote r) + MSS < 2 ^ 32"
    and q: "q_inflight (sb_abs (sb_of l)) = []"
    and n: "n = min (length (q_fresh (sb_abs (sb_of l)))) (unat (rcvd_advertised_window (window (sock (proc l)))))"
      "0 < n" "dump_safe (sb_of l) (of_nat n)"
    and ib: "inbox (proc r) = []" and up: "initialized (sock (proc r))"
    and room: "base_seq l + n < read_seq (rb_of r) + rcap (rb_of r)"
  shows "\<exists>l' r'. connection l r l' r' \<and> wrote l' = wrote l \<and> wrote r' = wrote r
    \<and> got r' = sent l @ take n (q_fresh (sb_abs (sb_of l)))
    \<and> delivery l r (sent l @ take n (q_fresh (sb_abs (sb_of l))))"
proof -
  let ?bs = "take n (q_fresh (sb_abs (sb_of l)))"
  have l: "sending i l" "receiving j (sent r) l" and r: "sending j r" "receiving i (sent l) r"
    and b: "base_seq l < next_seq r"
    using lk by (auto simp: linked_def linked_to_def)
  obtain acked where a: "base_seq l = unat i + length acked" "sent l = acked"
    using l(1) q by (metis sendingE append_Nil2)
  have ln: "length ?bs = n" using n(1) by simp
  obtain w src dst seq ack adv where out: "backend_send (proc l) = Inr w" and w: "endpoint_step (datagrams r) l (l\<lparr>proc := w\<rparr>)"
    "sent (l\<lparr>proc := w\<rparr>) = sent l @ ?bs" "next_seq (l\<lparr>proc := w\<rparr>) = next_seq l"
    "peer_packet src dst seq ack ACK_FLAG_MASK adv ?bs \<in> datagrams (l\<lparr>proc := w\<rparr>)"
    "unat seq = base_seq l + 1"
    "valid_fields i (sent l @ ?bs) j (next_seq l) seq ack ACK_FLAG_MASK ?bs"
    using send_quiet [OF l bi q n, of "datagrams r"] by blast
  define l1 where "l1 = l\<lparr>proc := w\<rparr>"
  have wl1: "wrote l1 = wrote l" by (simp add: l1_def)
  have lk1: "linked i j l1 r" using linked_step [OF lk w(1)] bi bj by (simp add: l1_def)
  then have r1: "receiving i (sent l1) r" and exb: "next_seq l1 \<le> unat j + 1 + length (sent r)"
    using readable_prefix(3) by (auto simp: linked_def linked_to_def)
  have "length (sent l1) \<le> length (wrote l1)" by (simp add: sent_def)
  then have bt: "unat i + length (sent l1) + MSS < 2 ^ 32" using bi wl1 by simp
  have v: "valid_fields i (sent l1) j (next_seq l1) seq ack ACK_FLAG_MASK ?bs"
    using w(2,3,6) by (simp add: l1_def)
  obtain e1 w2 where s: "endpoint_step (datagrams l1) r e1" "endpoint_step (datagrams l1) e1 (e1\<lparr>proc := w2\<rparr>)"
    "e1\<lparr>proc := w2\<rparr> = r\<lparr>proc := w2\<rparr>" "initialized (sock w2)"
    "takes_segment (rb_of r) (segs (proc r)) (unat seq) ?bs (recv_buf (sock w2)) (segs w2)"
    and rc: "receipt (proc r) (peer_packet src dst seq ack ACK_FLAG_MASK adv ?bs) w2"
    using receive_arrival [OF r(1) r1 exb bj bt ib up refl w(4) [folded l1_def] v] by blast
  define r2 where "r2 = r\<lparr>proc := w2\<rparr>"
  have c: "connection l r l1 r2"
    using connection.right [OF connection.right [OF connection.left [OF connection.start w(1)] s(1) [unfolded l1_def]] s(2) [unfolded l1_def]]
    by (simp add: l1_def r2_def s(3))
  have wr: "wrote r2 = wrote r" "got r2 = got r" by (simp_all add: r2_def)
  have "linked i j l1 r2" using connection_linked [OF c lk] bi bj wl1 wr(1) by simp
  then have r2: "receiving i (sent l1) r2" by (simp add: linked_def linked_to_def)
  obtain xs where "rb_ok (rb_of r) (segs (proc r)) xs" using r(2) by (auto simp: receiving_def)
  then have d: "read_seq (rb_of r) < next_seq r" using rb_wfD(10) by (auto simp: rb_ok_def next_seq_def)
  have nx: "next_seq r = base_seq l + 1" using b readable_prefix(3) [OF r(2)] a by simp
  then have "accepts (rb_of r) (unat seq) (length ?bs)"
    using d room n(2) w(5) ln by (simp add: accepts_def next_seq_def)
  then have nx2: "unat seq + n \<le> next_seq r2"
    using s(5) nx w(5) ln by (simp add: takes_segment_def next_seq_def r2_def)
  have "length (got r2) \<le> length (sent l)"
    using r(2) wr(2) prefix_length_le by (auto simp: receiving_def)
  then have m: "length (got r2) < length (sent l) + n" "unat i + (length (sent l) + n) < next_seq r2"
    using n(2) nx2 w(5) a by simp_all
  obtain r3 where r3: "endpoint_step (datagrams l1) r2 r3" "got r3 = take (length (sent l) + n) (sent l1)"
    "wrote r3 = wrote r2"
    and tk: "takes_out (proc r2) (got r2) (take (length (sent l) + n) (sent l1))"
    using read_up_to [OF r2 _ m, of "datagrams l1"] s(4) by (auto simp: r2_def)
  have "connection l r l1 r3" by (rule connection.right [OF c r3(1)])
  moreover have "got r3 = sent l @ ?bs" using r3(2) w(2) ln by (simp add: l1_def)
  moreover have "wrote r3 = wrote r" using r3(3) wr(1) by simp
  moreover have "delivery l r (sent l @ ?bs)"
    unfolding delivery_def using out w(4) rc tk calculation(2) r3(2) wr(2)
    by (intro exI [of _ w] exI [of _ w2]) (auto simp: r2_def)
  ultimately show ?thesis using wl1 by blast
qed

section \<open>Loss is repaired\<close>

text \<open>Enough time passes; then the sending half resends the oldest bytes in flight.\<close>

lemma resend_step:
  assumes s: "sending i l" and r: "receiving j t l" and bi: "unat i + length (wrote l) + MSS < 2 ^ 32"
    and q: "q_inflight (sb_abs (sb_of l)) \<noteq> []"
    and n: "n = max 1 (min (length (q_inflight (sb_abs (sb_of l))))
        (unat (rcvd_advertised_window (window (sock (proc l))))))"
      "(acked_idx (sb_of l) + 1) mod cap (sb_of l) + n \<le> cap (sb_of l)"
  shows "\<exists>l1 l2 src dst seq ack adv. endpoint_step net l l1 \<and> endpoint_step net l1 l2
    \<and> sock (proc l2) = sock (proc l) \<and> inbox (proc l2) = inbox (proc l) \<and> segs (proc l2) = segs (proc l)
    \<and> wrote l2 = wrote l \<and> got l2 = got l
    \<and> (\<exists>tv. backend_send ((proc l)\<lparr>clock := tv\<rparr>) = Inr (proc l2))
    \<and> peer_packet src dst seq ack ACK_FLAG_MASK adv (take n (q_inflight (sb_abs (sb_of l)))) \<in> datagrams l2
    \<and> unat seq = base_seq l + 1 \<and> n \<le> length (q_inflight (sb_abs (sb_of l)))
    \<and> valid_fields i (sent l) j (next_seq l) seq ack ACK_FLAG_MASK (take n (q_inflight (sb_abs (sb_of l))))"
proof -
  let ?q = "sb_abs (sb_of l)" and ?adv = "ucast (recv_buffer_max_receive (rb_of l)) :: u16"
  let ?bs = "take n (q_inflight ?q)" and ?seq = "q_base ?q + 1"
  let ?ack = "next_seq_expected (window (sock (proc l)))"
  obtain acked where a: "sb_wf (sb_of l)" "cap (sb_of l) \<le> MSS" "wrote l = acked @ q_inflight ?q @ q_fresh ?q"
    "base_seq l = unat i + length acked" "sent l = acked @ q_inflight ?q" using s by (rule sendingE)
  define tv where "tv = (\<bar>last_byte_acked_ts (sb_of l)\<bar> + DEFAULT_TIMEOUT + 1, 0 :: int)"
  define w1 where "w1 = (proc l)\<lparr>clock := tv\<rparr>"
  define w2 where "w2 = w1\<lparr>outbox := outbox w1 @ [data_packet w1 ?adv (?seq, ?bs)]\<rparr>"
  have "0 < get_unacknowledged_count (sb_of l)"
    using q by (simp add: word_less_nat_alt unacked_count [OF a(1)] length_abs(1) [OF a(1), symmetric])
  moreover have "DEFAULT_TIMEOUT < get_time_ms tv - last_byte_acked_ts (sb_of l)"
    by (simp add: tv_def get_time_ms_def DEFAULT_TIMEOUT_def)
  ultimately have "backend_send w1 = resend_unacknowledged w1"
    by (simp add: backend_send_def w1_def)
  also have "\<dots> = Inr w2"
    using resend_unacknowledged_ok [of w1] a(1,2) q n by (simp add: w1_def w2_def)
  finally have out: "backend_send w1 = Inr w2" .
  then have "endpoint_step net (l\<lparr>proc := w1\<rparr>) ((l\<lparr>proc := w1\<rparr>)\<lparr>proc := w2\<rparr>)"
    by (intro endpoint_step.transmit) simp
  moreover have "endpoint_step net l (l\<lparr>proc := w1\<rparr>)"
    unfolding w1_def by (rule endpoint_step.tick)
  moreover have "snd (data_packet w1 ?adv (?seq, ?bs)) = peer_packet (my_port (sock (proc l)))
      (ntohs (sin_port (conn (sock (proc l))))) ?seq ?ack ACK_FLAG_MASK ?adv ?bs"
    by (simp add: data_packet_def peer_packet_def w1_def)
  then have "peer_packet (my_port (sock (proc l))) (ntohs (sin_port (conn (sock (proc l))))) ?seq ?ack
      ACK_FLAG_MASK ?adv ?bs \<in> datagrams (l\<lparr>proc := w2\<rparr>)"
    by (simp add: datagrams_def w2_def)
  moreover have sq: "unat ?seq = base_seq l + 1"
    using a(3,4) bi by (simp add: sb_abs_def base_seq_def) (subst unat_add32; simp add: base_seq_def)
  moreover have n1: "n \<le> length (q_inflight ?q)" using n(1) q by (auto simp: Suc_le_eq)
  moreover have "?bs = take (length ?bs) (drop (length acked) (sent l))" unfolding a(5) using n1 by simp
  then have "segment_of i (sent l) ?seq ?bs"
    using sq a(4,5) n1 unfolding segment_of_def by (intro disjI2 exI [of _ "length acked"]) simp
  moreover have "length ?bs \<le> MSS"
    using sb_wfD(7,8) [OF a(1)] a(2) by (simp add: length_abs [OF a(1)])
  ultimately have "endpoint_step net l (l\<lparr>proc := w1\<rparr>) \<and> endpoint_step net (l\<lparr>proc := w1\<rparr>) (l\<lparr>proc := w2\<rparr>)
    \<and> peer_packet (my_port (sock (proc l))) (ntohs (sin_port (conn (sock (proc l))))) ?seq ?ack
        ACK_FLAG_MASK ?adv ?bs \<in> datagrams (l\<lparr>proc := w2\<rparr>)
    \<and> valid_fields i (sent l) j (next_seq l) ?seq ?ack ACK_FLAG_MASK ?bs"
    using r by (simp add: valid_fields_def receiving_def)
  moreover have "\<exists>tv. backend_send ((proc l)\<lparr>clock := tv\<rparr>) = Inr (proc (l\<lparr>proc := w2\<rparr>))"
    using out by (intro exI [of _ tv]) (simp add: w1_def)
  moreover have "sock (proc (l\<lparr>proc := w2\<rparr>)) = sock (proc l) \<and> inbox (proc (l\<lparr>proc := w2\<rparr>)) = inbox (proc l)
    \<and> segs (proc (l\<lparr>proc := w2\<rparr>)) = segs (proc l) \<and> wrote (l\<lparr>proc := w2\<rparr>) = wrote l
    \<and> got (l\<lparr>proc := w2\<rparr>) = got l"
    by (simp add: w1_def w2_def)
  ultimately show ?thesis using sq n1 by blast
qed

text \<open>
  The receiver's answer to such a packet acknowledges more: it takes the bytes, or it had them
  before, or its application has read some of them already.
\<close>

lemma covered:
  assumes r: "receiving i t e" and tk: "takes_segment (rb_of e) (segs (proc e)) sq p rb' h'"
    and p: "p \<noteq> []" and sq: "sq \<le> next_seq e"
    and room: "sq + length p \<le> read_seq (rb_of e) + rcap (rb_of e)"
  shows "sq < expected_seq rb'"
proof -
  obtain xs where "rb_ok (rb_of e) (segs (proc e)) xs" using r by (auto simp: receiving_def)
  then have d: "read_seq (rb_of e) < next_seq e" using rb_wfD(10) by (auto simp: rb_ok_def next_seq_def)
  have m: "next_seq e \<le> expected_seq rb'" using tk by (simp add: takes_segment_def next_seq_def)
  have lp: "0 < length p" using p by simp
  consider "sq < next_seq e" | "read_seq (rb_of e) < sq" "next_seq e < sq + length p"
    using d sq lp by linarith
  then show ?thesis
  proof cases
    case 1
    then show ?thesis using m by simp
  next
    case 2
    then have "accepts (rb_of e) sq (length p)" using p room by (simp add: accepts_def next_seq_def)
    then have "sq + length p \<le> expected_seq rb'" using tk sq by (simp add: takes_segment_def next_seq_def)
    then show ?thesis using lp by linarith
  qed
qed

text \<open>The calls: resending, after some time, receipt on one side and then on the other.\<close>

definition recovery :: "endpoint \<Rightarrow> endpoint \<Rightarrow> bool" where
  "recovery l r \<longleftrightarrow> (\<exists>tv w d w' d' w''. backend_send ((proc l)\<lparr>clock := tv\<rparr>) = Inr w
     \<and> sock w = sock (proc l) \<and> d \<in> datagrams (l\<lparr>proc := w\<rparr>) \<and> receipt (proc r) d w'
     \<and> d' \<in> datagrams (r\<lparr>proc := w'\<rparr>) \<and> receipt w d' w'' \<and> base_seq l < base_seq (l\<lparr>proc := w''\<rparr>))"

lemma recover:
  assumes lk: "linked i j l r"
    and bi: "unat i + length (wrote l) + MSS < 2 ^ 32" and bj: "unat j + length (wrote r) + MSS < 2 ^ 32"
    and q: "q_inflight (sb_abs (sb_of l)) \<noteq> []"
    and n: "n = max 1 (min (length (q_inflight (sb_abs (sb_of l))))
        (unat (rcvd_advertised_window (window (sock (proc l))))))"
      "(acked_idx (sb_of l) + 1) mod cap (sb_of l) + n \<le> cap (sb_of l)"
    and ib: "inbox (proc l) = []" "inbox (proc r) = []"
    and up: "initialized (sock (proc l))" "initialized (sock (proc r))"
    and room: "base_seq l + n < read_seq (rb_of r) + rcap (rb_of r)"
  shows "\<exists>l' r'. connection l r l' r' \<and> wrote l' = wrote l \<and> wrote r' = wrote r
    \<and> base_seq l < base_seq l' \<and> recovery l r"
proof -
  let ?bs = "take n (q_inflight (sb_abs (sb_of l)))"
  have l: "sending i l" "receiving j (sent r) l" and r: "sending j r" "receiving i (sent l) r"
    and b: "base_seq l < next_seq r"
    using lk by (auto simp: linked_def linked_to_def)
  obtain l1 l2 src dst seq ack adv where s1: "endpoint_step (datagrams r) l l1" "endpoint_step (datagrams r) l1 l2"
    and l2: "sock (proc l2) = sock (proc l)" "inbox (proc l2) = inbox (proc l)" "segs (proc l2) = segs (proc l)"
      "wrote l2 = wrote l" "got l2 = got l"
    and out: "\<exists>tv. backend_send ((proc l)\<lparr>clock := tv\<rparr>) = Inr (proc l2)"
    and d: "peer_packet src dst seq ack ACK_FLAG_MASK adv ?bs \<in> datagrams l2"
    and sq: "unat seq = base_seq l + 1" and n1: "n \<le> length (q_inflight (sb_abs (sb_of l)))"
    and v: "valid_fields i (sent l) j (next_seq l) seq ack ACK_FLAG_MASK ?bs"
    using resend_step [OF l bi q n, of "datagrams r"] by blast
  have c2: "connection l r l2 r"
    by (rule connection.left [OF connection.left [OF connection.start s1(1)] s1(2)])
  have e2: "sent l2 = sent l" "next_seq l2 = next_seq l" "base_seq l2 = base_seq l" "acked_to l2 = acked_to l"
    using l2 by (simp_all add: sent_def next_seq_def base_seq_def acked_to_def)
  have ls: "length (sent l) \<le> length (wrote l)" "length (sent r) \<le> length (wrote r)" by (simp_all add: sent_def)
  then have bt: "unat i + length (sent l) + MSS < 2 ^ 32" "unat j + length (sent r) + MSS < 2 ^ 32"
    using bi bj by simp_all
  obtain e1 w2 where s2: "endpoint_step (datagrams l2) r e1" "endpoint_step (datagrams l2) e1 (e1\<lparr>proc := w2\<rparr>)"
    "e1\<lparr>proc := w2\<rparr> = r\<lparr>proc := w2\<rparr>"
    "takes_segment (rb_of r) (segs (proc r)) (unat seq) ?bs (recv_buf (sock w2)) (segs w2)"
    "outbox w2 = outbox (proc r) @ (if ?bs = [] then [] else [ack_packet w2])"
    and rc: "receipt (proc r) (peer_packet src dst seq ack ACK_FLAG_MASK adv ?bs) w2"
    using receive_arrival [OF r(1,2) readable_prefix(3) [OF l(2)] bj bt(1) ib(2) up(2) refl d v] by blast
  define r2 where "r2 = r\<lparr>proc := w2\<rparr>"
  have c3: "connection l r l2 r2"
    using connection.right [OF connection.right [OF c2 s2(1)] s2(2)] by (simp add: s2(3) r2_def)
  have "linked i j l2 r2" using connection_linked [OF c3 lk] bi bj by (simp add: l2 r2_def)
  then have k2: "sending i l2" "receiving j (sent r2) l2" "receiving i (sent l2) r2"
    by (auto simp: linked_def linked_to_def)
  have ne: "?bs \<noteq> []" "length ?bs = n" using n1 n(1) q by auto
  have "unat seq < next_seq r2"
    using covered [OF r(2) s2(4) ne(1)] b sq room ne(2) by (simp add: next_seq_def r2_def)
  then have nx: "base_seq l + 1 < next_seq r2" using sq by simp
  obtain ys where ok2: "rb_ok (rb_of r2) (segs (proc r2)) ys" using k2(3) by (auto simp: receiving_def)
  define a where "a = get_next_byte_expected_seqnum (rb_of r2)"
  have a: "unat a = next_seq r2" "unat i < unat a" "next_seq r2 \<le> unat i + 1 + length (sent l2)"
    using ok2 next_expected(2) [of "rb_of r2"] rb_wfD(10) [of "rb_of r2"] k2(3) readable_prefix(3) [OF k2(3)]
    by (auto simp: rb_ok_def next_seq_def a_def receiving_def)
  have "snd (ack_packet w2) \<in> datagrams r2" using s2(5) ne(1) by (simp add: datagrams_def r2_def)
  then have d2: "peer_packet (my_port (sock w2)) (ntohs (sin_port (conn (sock w2))))
      (last_ack_received (window (sock w2))) a ACK_FLAG_MASK
      (ucast (recv_buffer_max_receive (recv_buf (sock w2)))) [] \<in> datagrams r2"
    by (simp add: ack_packet_def peer_packet_def a_def r2_def)
  have v2: "valid_fields j (sent r2) i (next_seq r2) (last_ack_received (window (sock w2))) a ACK_FLAG_MASK []"
    using a by (simp add: valid_fields_def segment_of_def)
  have bt2: "unat i + length (wrote l2) + MSS < 2 ^ 32" "unat j + length (sent r2) + MSS < 2 ^ 32"
    using bi bj by (simp_all add: l2 sent_def r2_def)
  obtain e3 w3 where s3: "endpoint_step (datagrams r2) l2 e3" "endpoint_step (datagrams r2) e3 (e3\<lparr>proc := w3\<rparr>)"
    "e3\<lparr>proc := w3\<rparr> = l2\<lparr>proc := w3\<rparr>"
    "a = last_ack_received (window (sock (proc l2))) \<and> send_buf (sock w3) = sb_of l2
       \<or> send_buffer_update_ack (clock (proc l2)) (sb_of l2) a = Inr (send_buf (sock w3))"
    and rc2: "receipt (proc l2) (peer_packet (my_port (sock w2)) (ntohs (sin_port (conn (sock w2))))
      (last_ack_received (window (sock w2))) a ACK_FLAG_MASK
      (ucast (recv_buffer_max_receive (recv_buf (sock w2)))) []) w3"
    using receive_arrival [OF k2(1,2) a(3) bt2 _ _ refl d2 v2] ib(1) up(1) by (auto simp: l2)
  define l3 where "l3 = l2\<lparr>proc := w3\<rparr>"
  have c4: "connection l r l3 r2"
    using connection.left [OF connection.left [OF c3 s3(1)] s3(2)] by (simp add: s3(3) l3_def)
  have "base_seq l < base_seq l3"
    using s3(4)
  proof
    assume "a = last_ack_received (window (sock (proc l2))) \<and> send_buf (sock w3) = sb_of l2"
    then have "base_seq l3 = base_seq l" "next_seq r2 = acked_to l"
      using a(1) e2 by (simp_all add: acked_to_def base_seq_def l3_def l2)
    then show ?thesis using nx l(1) n(1) by (simp add: sending_def)
  next
    assume "send_buffer_update_ack (clock (proc l2)) (sb_of l2) a = Inr (send_buf (sock w3))"
    from update_ack_base [OF this] have "unat (a - 1) \<le> base_seq l3"
      by (auto simp: base_seq_def l3_def word_le_nat_alt word_less_nat_alt)
    moreover have "unat (a - 1) = unat a - 1" using a(2) by (subst unat_sub32) simp_all
    ultimately show ?thesis using nx a(1) by simp
  qed
  moreover have "recovery l r"
  proof -
    obtain tv where "backend_send ((proc l)\<lparr>clock := tv\<rparr>) = Inr (proc l2)" using out by blast
    moreover have "datagrams (l\<lparr>proc := proc l2\<rparr>) = datagrams l2" "datagrams (r\<lparr>proc := w2\<rparr>) = datagrams r2"
      "base_seq (l\<lparr>proc := w3\<rparr>) = base_seq l3"
      by (simp_all add: datagrams_def r2_def l3_def base_seq_def)
    ultimately show ?thesis
      unfolding recovery_def using l2(1) d rc d2 rc2 \<open>base_seq l < base_seq l3\<close> by metis
  qed
  ultimately show ?thesis using c4 by (intro exI [of _ l3] exI [of _ r2]) (simp add: l3_def l2 r2_def)
qed

section \<open>The backend's thread ends\<close>

lemma backend_loop_ends:
  assumes "sb_wf (send_buf (sock w))"
    and "dying (sock w) \<noteq> 0" and "q_inflight (sb_abs (send_buf (sock w))) = []"
    and "q_fresh (sb_abs (send_buf (sock w))) = []"
  shows "backend_loop others w = Inr w"
  using assms backend_ends_iff by (subst backend_loop.simps) simp

section \<open>The loop of \<open>cmu_write\<close>\<close>

definition queued :: "host \<Rightarrow> nat" where
  "queued w = length (q_inflight (sb_abs (send_buf (sock w)))) + length (q_fresh (sb_abs (send_buf (sock w))))"

text \<open>How many bytes the send buffer still takes.\<close>

definition room :: "host \<Rightarrow> nat" where
  "room w = cap (send_buf (sock w)) - 1 - queued w"

lemma cmu_write_turn_full:
  assumes "sb_wf (send_buf (sock w))" and "room w = 0"
  shows "cmu_write_turn w buf written len = Inr (w, written, len)"
proof -
  have "unat (send_buffer_max_write (send_buf (sock w))) = 0"
    using assms sb_wfD(7,8) [OF assms(1)]
    by (simp add: max_write [OF assms(1)] room_def queued_def length_abs [OF assms(1)])
  then have "send_buffer_max_write (send_buf (sock w)) = 0" by (simp add: unat_eq_0)
  then show ?thesis by (simp add: cmu_write_turn_def Let_def word_neq_0_conv)
qed

lemma cmu_write_loop_full:
  assumes "sb_wf (send_buf (sock w))" and "room w = 0" and "0 < len"
  shows "cmu_write_loop (replicate n Inr) w buf written len = Inl Blocked"
proof (induction n)
  case 0
  then show ?case using assms cmu_write_turn_full [OF assms(1,2)] by (simp add: cmu_write_loop.simps)
next
  case (Suc n)
  have "cmu_write_loop (replicate (Suc n) Inr) w buf written len = cmu_write_loop (replicate n Inr) w buf written len"
    using assms cmu_write_turn_full [OF assms(1,2)] by (subst cmu_write_loop.simps) simp
  then show ?case using Suc by simp
qed

lemma cmu_write_turn_room:
  assumes "sb_wf (send_buf (sock w))" and "0 < len" and "len < 2 ^ 31" and "unat written + nat len \<le> length buf"
  shows "\<exists>w'. cmu_write_turn w buf written len = Inr (w', written + of_nat (min (nat len) (room w)), len - int (min (nat len) (room w)))
    \<and> sb_wf (send_buf (sock w')) \<and> cap (send_buf (sock w')) = cap (send_buf (sock w))
    \<and> q_inflight (sb_abs (send_buf (sock w'))) = q_inflight (sb_abs (send_buf (sock w)))
    \<and> q_fresh (sb_abs (send_buf (sock w'))) = q_fresh (sb_abs (send_buf (sock w)))
        @ take (min (nat len) (room w)) (drop (unat written) buf)"
proof -
  have "room w = cap (send_buf (sock w)) - 1 - length (q_inflight (sb_abs (send_buf (sock w))))
      - length (q_fresh (sb_abs (send_buf (sock w))))"
    by (simp add: room_def queued_def)
  then show ?thesis using cmu_write_turn_ok [OF assms] by auto
qed

lemma cmu_write_alone_ok:
  assumes wf: "sb_wf (send_buf (sock w))" and up: "initialized (sock w)"
    and len: "0 \<le> len" "len < 2 ^ 31" "nat len \<le> length buf"
  shows "if nat len \<le> room w
    then \<exists>w'. cmu_write (replicate n Inr) w buf len = Inr (w', EXIT_SUCCESS)
      \<and> sb_wf (send_buf (sock w'))
      \<and> q_inflight (sb_abs (send_buf (sock w'))) = q_inflight (sb_abs (send_buf (sock w)))
      \<and> q_fresh (sb_abs (send_buf (sock w'))) = q_fresh (sb_abs (send_buf (sock w))) @ take (nat len) buf
    else cmu_write (replicate n Inr) w buf len = Inl Blocked"
proof (cases "len = 0")
  case True
  then show ?thesis using wf up by (simp add: cmu_write_def cmu_write_loop.simps)
next
  case False
  let ?m = "min (nat len) (room w)"
  obtain w' where t: "cmu_write_turn w buf 0 len = Inr (w', of_nat ?m, len - int ?m)"
    and w': "sb_wf (send_buf (sock w'))" "cap (send_buf (sock w')) = cap (send_buf (sock w))"
    "q_inflight (sb_abs (send_buf (sock w'))) = q_inflight (sb_abs (send_buf (sock w)))"
    "q_fresh (sb_abs (send_buf (sock w'))) = q_fresh (sb_abs (send_buf (sock w))) @ take ?m buf"
    using cmu_write_turn_room [OF wf _ len(2), of 0 buf] len False by auto
  show ?thesis
  proof (cases "nat len \<le> room w")
    case True
    then have "len - int ?m = 0" using len(1) by (simp add: min_def)
    then have "cmu_write (replicate n Inr) w buf len = Inr (w', EXIT_SUCCESS)"
      using t up False len(1) by (simp add: cmu_write_def cmu_write_loop.simps)
    then show ?thesis using True w' by (simp add: min_def)
  next
    case more: False
    then have m: "?m = room w" "0 < len - int (room w)" by auto
    have "queued w' = queued w + room w" using w' more len(3) by (simp add: queued_def)
    then have r: "room w' = 0" using w'(2) by (simp add: room_def)
    note full = cmu_write_loop_full [OF w'(1) r m(2)]
    have "cmu_write (replicate n Inr) w buf len = Inl Blocked"
    proof (cases n)
      case 0
      then show ?thesis using t m up False len(1) by (simp add: cmu_write_def cmu_write_loop.simps)
    next
      case (Suc k)
      then show ?thesis using t m up False len(1) full by (simp add: cmu_write_def) (subst cmu_write_loop.simps, simp)
    qed
    then show ?thesis using more by simp
  qed
qed

text \<open>The bytes in the send buffer: in flight, then fresh.\<close>

definition in_queue :: "host \<Rightarrow> u8 list" where
  "in_queue w = q_inflight (sb_abs (send_buf (sock w))) @ q_fresh (sb_abs (send_buf (sock w)))"

lemma room_in_queue: "room w = cap (send_buf (sock w)) - 1 - length (in_queue w)"
  by (simp add: room_def queued_def in_queue_def)

text \<open>
  What happens between the turns of \<open>cmu_write\<close>, in the states this call meets: each time it
  turns with bytes left, the backend's turn \<open>f\<close> succeeds, and of the bytes in the send buffer
  the \<open>k\<close> oldest are acknowledged.
\<close>

fun frees_along :: "(nat \<times> (host \<Rightarrow> host res)) list \<Rightarrow> host \<Rightarrow> u8 list \<Rightarrow> u32 \<Rightarrow> int \<Rightarrow> bool" where
  "frees_along [] w buf written len \<longleftrightarrow> True"
| "frees_along ((k, f) # turns) w buf written len \<longleftrightarrow>
     (case cmu_write_turn w buf written len of Inl e \<Rightarrow> True
      | Inr (w1, written', len') \<Rightarrow> 0 < len' \<longrightarrow>
          (case f w1 of Inl e \<Rightarrow> False
           | Inr w2 \<Rightarrow> sb_wf (send_buf (sock w2)) \<and> cap (send_buf (sock w2)) = cap (send_buf (sock w1))
               \<and> k \<le> length (in_queue w1) \<and> in_queue w2 = drop k (in_queue w1)
               \<and> frees_along turns w2 buf written' len'))"

text \<open>Such a turn, of the modelled backend: an acknowledgement for \<open>k\<close> bytes in flight is received.\<close>

lemma acknowledgement_frees:
  assumes "host_ok w" and "inbox w = []" and "a \<noteq> last_ack_received (window (sock w))"
    and "last_byte_acked_seqnum (send_buf (sock w)) < a - 1"
    and "k = unat (a - 1 - last_byte_acked_seqnum (send_buf (sock w)))"
    and "k \<le> length (q_inflight (sb_abs (send_buf (sock w))))"
  shows "\<exists>w'. check_for_data (w\<lparr>inbox := inbox w @ [(c, peer_packet src dst 0 a ACK_FLAG_MASK adv [])]\<rparr>) NO_WAIT = Inr w'
    \<and> sb_wf (send_buf (sock w')) \<and> cap (send_buf (sock w')) = cap (send_buf (sock w))
    \<and> in_queue w' = drop k (in_queue w)"
proof -
  let ?w = "upd_sock (\<lambda>s. s\<lparr>conn := c\<rparr>) (w\<lparr>inbox := []\<rparr>)"
  let ?d = "peer_packet src dst 0 a ACK_FLAG_MASK adv []"
  have ok: "host_ok ?w" using assms(1) by (simp add: host_ok_def)
  have adm: "ack_admissible (send_buf (sock ?w)) a" using assms(5,6) by (simp add: ack_admissible_def)
  from handle_message_ok [OF ok flag_tests(5-7) adm, of "[]" 0 src dst adv] obtain w' where
    h: "handle_message ?w ?d = Inr w'" and t: "takes_ack ?w a (send_buf (sock w'))"
    by auto
  have c: "check_for_data (w\<lparr>inbox := inbox w @ [(c, ?d)]\<rparr>) NO_WAIT = Inr w'"
    using check_for_data_packet_ok [of "w\<lparr>inbox := inbox w @ [(c, ?d)]\<rparr>" c src dst 0 a ACK_FLAG_MASK adv "[]" "[]" NO_WAIT]
      h assms(2) by simp
  have "send_buffer_update_ack (clock w) (send_buf (sock w)) a = Inr (send_buf (sock w'))"
    using t assms(3) by (simp add: takes_ack_def)
  moreover obtain sb' where "send_buffer_update_ack (clock w) (send_buf (sock w)) a = Inr sb'" "sb_wf sb'"
    "s_capacity sb' = s_capacity (send_buf (sock w))"
    "sb_abs sb' = (sb_abs (send_buf (sock w)))\<lparr>q_base := a - 1,
       q_inflight := drop k (q_inflight (sb_abs (send_buf (sock w))))\<rparr>"
    using send_buffer_update_ack_abs [OF _ _ assms(4,5), of "clock w"] assms(1,6)
    by (auto simp: host_ok_def length_abs)
  ultimately show ?thesis
    using c assms(6) by (intro exI [of _ w']) (simp add: in_queue_def cap_def)
qed

lemma cmu_write_turn_queue:
  assumes "sb_wf (send_buf (sock w))" and "0 < len" and "len < 2 ^ 31"
    and "unat written + nat len \<le> length buf" and "length buf < 2 ^ 32"
  defines "m \<equiv> min (nat len) (room w)"
  obtains w' written' where "cmu_write_turn w buf written len = Inr (w', written', len - int m)"
    "unat written' = unat written + m" "sb_wf (send_buf (sock w'))"
    "cap (send_buf (sock w')) = cap (send_buf (sock w))"
    "in_queue w' = in_queue w @ take m (drop (unat written) buf)" "room w' = room w - m"
proof -
  from cmu_write_turn_room [OF assms(1-4)] obtain w' where w': "cmu_write_turn w buf written len =
      Inr (w', written + of_nat m, len - int m)" "sb_wf (send_buf (sock w'))"
    "cap (send_buf (sock w')) = cap (send_buf (sock w))"
    "q_inflight (sb_abs (send_buf (sock w'))) = q_inflight (sb_abs (send_buf (sock w)))"
    "q_fresh (sb_abs (send_buf (sock w'))) = q_fresh (sb_abs (send_buf (sock w))) @ take m (drop (unat written) buf)"
    unfolding m_def by blast
  have "m \<le> nat len" by (simp add: m_def)
  then have "unat (written + of_nat m) = unat written + m" "length (take m (drop (unat written) buf)) = m"
    using assms(4,5) by (subst unat_add32, simp_all add: unat_of_nat32)
  then show ?thesis
    using w' by (intro that [of w' "written + of_nat m"]) (simp_all add: in_queue_def room_def queued_def)
qed

lemma cmu_write_loop_returns:
  assumes "sb_wf (send_buf (sock w))" and "len < 2 ^ 31" and "unat written + nat len \<le> length buf"
    and "length buf < 2 ^ 32" and "frees_along turns w buf written len"
    and "nat len \<le> room w + sum_list (map fst turns)"
  shows "\<exists>w' j. cmu_write_loop (map snd turns) w buf written len = Inr (w', EXIT_SUCCESS)
    \<and> sb_wf (send_buf (sock w'))
    \<and> in_queue w' = drop (sum_list (take j (map fst turns))) (in_queue w @ take (nat len) (drop (unat written) buf))"
  using assms
proof (induction turns arbitrary: w written len)
  case Nil
  show ?case
  proof (cases "0 < len")
    case True
    from cmu_write_turn_queue [OF Nil.prems(1) True Nil.prems(2-4)] obtain w' written' where t:
      "cmu_write_turn w buf written len = Inr (w', written', len - int (min (nat len) (room w)))"
      "sb_wf (send_buf (sock w'))"
      "in_queue w' = in_queue w @ take (min (nat len) (room w)) (drop (unat written) buf)"
      by metis
    have "min (nat len) (room w) = nat len" using Nil.prems(6) by simp
    then show ?thesis using t True by (simp add: cmu_write_loop.simps)
  qed (use Nil.prems(1) in \<open>simp add: cmu_write_loop.simps\<close>)
next
  case (Cons t turns)
  obtain k f where t: "t = (k, f)" by (cases t)
  show ?case
  proof (cases "0 < len")
    case False
    then show ?thesis
      using Cons.prems(1) by (intro exI [of _ w] exI [of _ 0]) (simp add: cmu_write_loop.simps)
  next
    case True
    let ?m = "min (nat len) (room w)"
    from cmu_write_turn_queue [OF Cons.prems(1) True Cons.prems(2-4)] obtain w1 written' where t1:
      "cmu_write_turn w buf written len = Inr (w1, written', len - int ?m)"
      "unat written' = unat written + ?m" "sb_wf (send_buf (sock w1))"
      "cap (send_buf (sock w1)) = cap (send_buf (sock w))"
      "in_queue w1 = in_queue w @ take ?m (drop (unat written) buf)" "room w1 = room w - ?m"
      by metis
    show ?thesis
    proof (cases "0 < len - int ?m")
      case False
      then have "?m = nat len" using True by simp
      then show ?thesis
        using True t1(1,3,5) by (intro exI [of _ w1] exI [of _ 0]) (simp add: cmu_write_loop.simps t)
    next
      case more: True
      then have m: "?m = room w" by auto
      have "case f w1 of Inl e \<Rightarrow> False
        | Inr w2 \<Rightarrow> sb_wf (send_buf (sock w2)) \<and> cap (send_buf (sock w2)) = cap (send_buf (sock w1))
            \<and> k \<le> length (in_queue w1) \<and> in_queue w2 = drop k (in_queue w1)
            \<and> frees_along turns w2 buf written' (len - int ?m)"
        using Cons.prems(5) more unfolding t frees_along.simps t1(1) sum.case prod.case by (rule mp)
      then obtain w2 where f: "f w1 = Inr w2" "sb_wf (send_buf (sock w2))"
        "cap (send_buf (sock w2)) = cap (send_buf (sock w1))" "k \<le> length (in_queue w1)"
        "in_queue w2 = drop k (in_queue w1)" "frees_along turns w2 buf written' (len - int ?m)"
        by (cases "f w1") auto
      have "length (in_queue w1) = cap (send_buf (sock w1)) - 1"
        using t1(6) m sb_wfD(7,8) [OF t1(3)] length_abs [OF t1(3)]
        by (auto simp: room_def queued_def in_queue_def)
      then have r2: "room w2 = k" using f(3-5) by (simp add: room_in_queue)
      have p: "unat written' + nat (len - int ?m) \<le> length buf"
        using Cons.prems(3) t1(2) more by simp
      have "nat (len - int ?m) \<le> room w2 + sum_list (map fst turns)"
        using Cons.prems(6) m r2 by (simp add: t)
      from Cons.IH [OF f(2) _ p Cons.prems(4) f(6) this] Cons.prems(2) obtain w' j where
        w': "cmu_write_loop (map snd turns) w2 buf written' (len - int ?m) = Inr (w', EXIT_SUCCESS)"
        "sb_wf (send_buf (sock w'))" "in_queue w' = drop (sum_list (take j (map fst turns)))
          (in_queue w2 @ take (nat (len - int ?m)) (drop (unat written') buf))"
        by auto
      have "nat (len - int ?m) = nat len - ?m" by simp
      then have "take ?m (drop (unat written) buf) @ take (nat (len - int ?m)) (drop (unat written') buf) =
          take (nat len) (drop (unat written) buf)"
        using take_add [of ?m "nat len - ?m" "drop (unat written) buf"] t1(2)
        by (simp add: add.commute)
      then have q: "in_queue w1 @ take (nat (len - int ?m)) (drop (unat written') buf) =
          in_queue w @ take (nat len) (drop (unat written) buf)"
        using t1(5) by simp
      have "in_queue w2 @ xs = drop k (in_queue w1 @ xs)" for xs
        using f(4,5) by (simp only: drop_append) simp
      then have "in_queue w' = drop (sum_list (take (Suc j) (map fst (t # turns))))
          (in_queue w @ take (nat len) (drop (unat written) buf))"
        unfolding w'(3) by (simp only: q drop_drop t) (simp add: add.commute)
      moreover have "cmu_write_loop (map snd (t # turns)) w buf written len = Inr (w', EXIT_SUCCESS)"
        using True more t1(1) f(1) w'(1) by (subst cmu_write_loop.simps) (simp add: t)
      ultimately show ?thesis using w'(2) by blast
    qed
  qed
qed

end
