(* ===== verification/Connection_Theorems.thy ===== *)
theory Connection_Theorems
  imports Progress
begin

text \<open>
  The properties of a connection whose steps are whole calls: whatever the network does, the
  state the threads share stays well-formed, ordinary packets never stop the backend, a socket
  that closed cleanly has delivered everything, and the code makes progress when the network
  does.
\<close>

section \<open>Properties\<close>

text \<open>
  C16: The state both threads share stays well-formed: in every state of a connection both
  buffers of both sides satisfy their invariants, the window's acknowledgement number is the
  one after the send buffer's base, and the number sent to the peer is one it will accept.
\<close>

theorem connection_invariant:
  assumes "linked i j l0 r0" and "connection l0 r0 l r"
    and "unat i + length (wrote l) + MSS < 2 ^ 32" and "unat j + length (wrote r) + MSS < 2 ^ 32"
  shows "host_ok (proc l) \<and> last_ack_received (window (sock (proc l))) = last_byte_acked_seqnum (sb_of l) + 1
    \<and> ack_admissible (sb_of l) (next_seq_expected (window (sock (proc r))))"
  by (rule linked_invariant [OF connection_linked [OF assms(2,1,3,4)] assms(3)])

text \<open>
  Ordinary packets are harmless. In a connection whose pending datagrams are packets with
  just the ACK flag, as everything after the handshake is, receiving the next one neither
  aborts the process nor leaves an array nor blocks.
\<close>

lemma connection_receives:
  assumes "linked i j l0 r0" and "connection l0 r0 l r"
    and "unat i + length (wrote l) + MSS < 2 ^ 32" and "unat j + length (wrote r) + MSS < 2 ^ 32"
    and "\<forall>d \<in> arrived l. get_flags d = Inr ACK_FLAG_MASK"
  shows "\<exists>w. check_for_data (proc l) NO_WAIT = Inr w"
  by (rule linked_receives [OF connection_linked [OF assms(2,1,3,4)] assms(3,4)]) (use assms(5) in blast)

text \<open>
  A clean end. When the thread of a closing socket ends, everything its application ever
  wrote has been read by the peer's application or is there for it to read.
\<close>

lemma connection_close_complete:
  assumes "linked i j l0 r0" and "connection l0 r0 l r"
    and "unat i + length (wrote l) + MSS < 2 ^ 32" and "unat j + length (wrote r) + MSS < 2 ^ 32"
    and "backend_ends (proc l)"
  shows "dying (sock (proc l)) \<noteq> 0 \<and> got r @ readable r = wrote l"
proof -
  have lk: "linked i j l r" by (rule connection_linked [OF assms(2,1,3,4)])
  then have "sb_wf (sb_of l)" by (simp add: linked_def linked_to_def sending_def)
  then have e: "dying (sock (proc l)) \<noteq> 0" "q_inflight (sb_abs (sb_of l)) = []" "q_fresh (sb_abs (sb_of l)) = []"
    using assms(5) queue_empty by (simp_all add: backend_ends_def)
  then show ?thesis using sliding_window.complete [of i j "(l, r)"] lk by simp
qed


text \<open>
  Data goes through. In a connection where the sender has nothing in flight and fresh
  bytes that lie in one run, the peer's window is open and its buffer has room, there is a
  continuation without loss after which the peer's application has read everything sent
  before and those bytes.
\<close>

lemma connection_delivers:
  assumes "linked i j l r"
    and "unat i + length (wrote l) + MSS < 2 ^ 32" and "unat j + length (wrote r) + MSS < 2 ^ 32"
    and "q_inflight (sb_abs (sb_of l)) = []"
    and "n = min (length (q_fresh (sb_abs (sb_of l)))) (unat (rcvd_advertised_window (window (sock (proc l)))))"
    and "0 < n" and "dump_safe (sb_of l) (of_nat n)"
    and "inbox (proc r) = []" and "initialized (sock (proc r))"
    and "base_seq l + n < read_seq (rb_of r) + rcap (rb_of r)"
  shows "\<exists>l' r'. connection l r l' r' \<and> got r' = sent l @ take n (q_fresh (sb_abs (sb_of l)))"
  using deliver [OF assms] by blast

text \<open>
  Loss is repaired. In a connection with bytes in flight that lie in one run and fit the
  peer's buffer, whatever happened to their packets, there is a continuation (time passes,
  the bytes are resent, received and acknowledged) after which the sender has an
  acknowledgement for more than before.
\<close>

lemma connection_recovers:
  assumes "linked i j l r"
    and "unat i + length (wrote l) + MSS < 2 ^ 32" and "unat j + length (wrote r) + MSS < 2 ^ 32"
    and "q_inflight (sb_abs (sb_of l)) \<noteq> []"
    and "n = max 1 (min (length (q_inflight (sb_abs (sb_of l))))
        (unat (rcvd_advertised_window (window (sock (proc l))))))"
    and "(acked_idx (sb_of l) + 1) mod cap (sb_of l) + n \<le> cap (sb_of l)"
    and "inbox (proc l) = []" and "inbox (proc r) = []"
    and "initialized (sock (proc l))" and "initialized (sock (proc r))"
    and "base_seq l + n < read_seq (rb_of r) + rcap (rb_of r)"
  shows "\<exists>l' r'. connection l r l' r' \<and> base_seq l < base_seq l'"
  using recover [OF assms] by blast

text \<open>
  The thread behind a socket ends exactly when the application has asked for it and the
  send buffer is empty, nothing in flight and nothing fresh; then it does nothing more.
\<close>

lemma backend_ends_exactly:
  assumes "sb_wf (send_buf (sock w))"
  shows "(backend_ends w \<longleftrightarrow> dying (sock w) \<noteq> 0 \<and> q_inflight (sb_abs (send_buf (sock w))) = []
        \<and> q_fresh (sb_abs (send_buf (sock w))) = [])
    \<and> (backend_ends w \<longrightarrow> backend_loop others w = Inr w)"
  using backend_ends_iff [OF assms] backend_loop_ends [OF assms] by blast

text \<open>
  C30: \<open>cmu_write\<close> while the backend stands still, for any number of turns: a call whose bytes
  fit queues them all, in one piece behind what was queued, and returns; a call with more
  never returns.
\<close>

theorem cmu_write_alone:
  assumes "sb_wf (send_buf (sock w))" and "initialized (sock w)"
    and "0 \<le> len" and "len < 2 ^ 31" and "nat len \<le> length buf"
  shows "if nat len + length (q_inflight (sb_abs (send_buf (sock w))))
        + length (q_fresh (sb_abs (send_buf (sock w)))) < cap (send_buf (sock w))
    then \<exists>w'. cmu_write (replicate n Inr) w buf len = Inr (w', EXIT_SUCCESS)
      \<and> sb_wf (send_buf (sock w'))
      \<and> q_inflight (sb_abs (send_buf (sock w'))) = q_inflight (sb_abs (send_buf (sock w)))
      \<and> q_fresh (sb_abs (send_buf (sock w'))) = q_fresh (sb_abs (send_buf (sock w))) @ take (nat len) buf
    else cmu_write (replicate n Inr) w buf len = Inl Blocked"
proof -
  have "nat len + length (q_inflight (sb_abs (send_buf (sock w))))
        + length (q_fresh (sb_abs (send_buf (sock w)))) < cap (send_buf (sock w)) \<longleftrightarrow> nat len \<le> room w"
    using sb_wfD(7,8) [OF assms(1)] length_abs [OF assms(1)] by (auto simp: room_def queued_def)
  then show ?thesis using cmu_write_alone_ok [OF assms] by simp
qed

text \<open>
  C26: \<open>cmu_write\<close> returns, and returns success, when the acknowledgements that come while it
  turns free enough bytes: together with the room there is, as many as are to be written. Then
  all of them are in the send buffer, in order behind the bytes that were there, less those
  acknowledged meanwhile: none is lost or stored twice.
\<close>

theorem cmu_write_returns:
  assumes "sb_wf (send_buf (sock w))" and "initialized (sock w)"
    and "len < 2 ^ 31" and "nat len \<le> length buf" and "length buf < 2 ^ 32"
    and "frees_along turns w buf 0 len" and "nat len \<le> room w + sum_list (map fst turns)"
  shows "\<exists>w' j. cmu_write (map snd turns) w buf len = Inr (w', EXIT_SUCCESS)
    \<and> sb_wf (send_buf (sock w'))
    \<and> in_queue w' = drop (sum_list (take j (map fst turns))) (in_queue w @ take (nat len) buf)"
  using cmu_write_loop_returns [OF assms(1,3) _ assms(5,6,7)] assms(2,4)
  by (simp add: cmu_write_def)

section \<open>Witnesses\<close>

text \<open>
  Two endpoints with the example buffers, one of them with three bytes written: fresh in one
  state, two of them in flight in the other.
\<close>

definition quiet_end :: endpoint where "quiet_end = established host_example"

definition writing_end :: "send_buffer_t \<Rightarrow> endpoint" where
  "writing_end sb = \<lparr>proc = sending_host sb, wrote = [1, 2, 3], got = []\<rparr>"

lemma host_example_parts:
  "outbox host_example = []" "inbox host_example = []"
  "window (sock host_example) = \<lparr>next_seq_expected = 101, last_ack_received = 101, rcvd_advertised_window = 1000\<rparr>"
  by (simp_all add: host_example_def)

lemma example_receives:
  assumes "rb_of e = rb_example" "segs (proc e) = empty_heap" "got e = []"
    "window (sock (proc e)) = \<lparr>next_seq_expected = 101, last_ack_received = 101, rcvd_advertised_window = 1000\<rparr>"
  shows "receiving 100 t e" "next_seq e = 101"
proof -
  have "\<not> rb_has rb_example empty_heap q" for q
    using empty_heap_ok rb_example_ok by (simp add: rb_has_list)
  then show "receiving 100 t e" "next_seq e = 101"
    using assms rb_example_ok by (auto simp: receiving_def next_seq_def)
qed

lemma example_linked:
  assumes "sending 100 (writing_end sb)" and "base_seq (writing_end sb) = 100"
  shows "linked 100 100 (writing_end sb) quiet_end"
proof -
  have w: "receiving 100 t (writing_end sb)" "next_seq (writing_end sb) = 101" for t
    by (rule example_receives; simp add: writing_end_def sending_host_def host_example_parts)+
  have q: "receiving 100 t quiet_end" "next_seq quiet_end = 101" for t
    by (rule example_receives; simp add: quiet_end_def host_example_parts)+
  have "q_inflight (sb_abs sb_example) = []" "q_fresh (sb_abs sb_example) = []"
    "cap sb_example = 8" "last_byte_acked_seqnum sb_example = 100"
    by (simp_all add: sb_abs_def pending_def ring_get_def sb_example_def cap_def acked_idx_def
      sent_dist_def written_dist_def dist0_def dist1_def)
  then have "sending 100 quiet_end" "base_seq quiet_end = 100"
    using sb_example_wf by (auto simp: sending_def quiet_end_def base_seq_def acked_to_def host_example_parts)
  then show ?thesis
    using assms w q by (auto simp: linked_def linked_to_def datagrams_def arrived_def writing_end_def
        quiet_end_def sending_host_def host_example_parts)
qed

lemma fresh_example:
  "sending 100 (writing_end sb_example2)" "base_seq (writing_end sb_example2) = 100"
  "sent (writing_end sb_example2) = []"
proof -
  have b: "cap sb_example2 = 8" "last_byte_acked_seqnum sb_example2 = 100"
    by (simp_all add: sb_example2_def sb_example_def cap_def)
  then show "base_seq (writing_end sb_example2) = 100" by (simp add: base_seq_def writing_end_def)
  then show "sending 100 (writing_end sb_example2)" "sent (writing_end sb_example2) = []"
    using sb_example2_facts b
    by (auto simp: sending_def sent_def writing_end_def acked_to_def sending_host_def host_example_parts)
qed

lemma sent_example:
  "sending 100 (writing_end sb_sent)" "base_seq (writing_end sb_sent) = 100"
proof -
  have b: "last_byte_acked_seqnum sb_sent = 100" "q_fresh (sb_abs sb_sent) = [3]"
    using sb_sent_facts(4) by (simp_all add: sb_sent_def sb_example2_def sb_example_def cap_def acked_idx_def
      sent_dist_def written_dist_def dist0_def dist1_def sb_abs_def pending_def ring_get_def upt_rec)
  then show "base_seq (writing_end sb_sent) = 100" by (simp add: base_seq_def writing_end_def)
  then show "sending 100 (writing_end sb_sent)"
    using sb_sent_facts b
    by (auto simp: sending_def writing_end_def acked_to_def sending_host_def host_example_parts)
qed

lemma quiet_end_simps [simp]:
  "proc quiet_end = host_example" "wrote quiet_end = []" "got quiet_end = []"
  by (simp_all add: quiet_end_def)

lemma writing_end_simps [simp]:
  "proc (writing_end sb) = sending_host sb" "wrote (writing_end sb) = [1, 2, 3]" "got (writing_end sb) = []"
  by (simp_all add: writing_end_def)

lemma connection_delivers_witness:
  "\<exists>l' r'. connection (writing_end sb_example2) quiet_end l' r' \<and> got r' = [1, 2, 3]"
  using connection_delivers [OF example_linked [OF fresh_example(1,2)], where n = 3]
  by (simp add: fresh_example sb_example2_facts host_example_parts rb_example_ok)

lemma connection_recovers_witness:
  "\<exists>l' r'. connection (writing_end sb_sent) quiet_end l' r' \<and> 100 < base_seq l'"
proof -
  have "inbox (sending_host sb_sent) = []" "initialized (sock (sending_host sb_sent))"
    by (simp_all add: sending_host_def host_example_parts)
  then have "\<exists>l' r'. connection (writing_end sb_sent) quiet_end l' r'
      \<and> base_seq (writing_end sb_sent) < base_seq l'"
    by (intro connection_recovers [OF example_linked [OF sent_example], where n = 2])
      (simp_all add: sent_example sb_sent_facts host_example_parts rb_example_ok)
  then show ?thesis by (simp only: sent_example)
qed

text \<open>The bytes of the first example on their way, and where that leads.\<close>

lemma delivered_example:
  obtains l r where "connection (writing_end sb_example2) quiet_end l r"
    "wrote l = [1, 2, 3]" "wrote r = []" "got r = [1, 2, 3]"
proof -
  have "\<exists>l r. connection (writing_end sb_example2) quiet_end l r
      \<and> wrote l = wrote (writing_end sb_example2) \<and> wrote r = wrote quiet_end
      \<and> got r = sent (writing_end sb_example2) @ take 3 (q_fresh (sb_abs (sb_of (writing_end sb_example2))))
      \<and> delivery (writing_end sb_example2) quiet_end
          (sent (writing_end sb_example2) @ take 3 (q_fresh (sb_abs (sb_of (writing_end sb_example2)))))"
    by (rule deliver [OF example_linked [OF fresh_example(1,2)]])
      (simp_all add: fresh_example sb_example2_facts host_example_parts rb_example_ok)
  then show ?thesis using that by (auto simp: fresh_example sb_example2_facts)
qed

theorem connection_invariant_witness:
  "\<exists>l r. connection (writing_end sb_example2) quiet_end l r \<and> got r = [1, 2, 3] \<and> host_ok (proc l)"
proof -
  obtain l r where c: "connection (writing_end sb_example2) quiet_end l r"
    "wrote l = [1, 2, 3]" "wrote r = []" "got r = [1, 2, 3]" by (rule delivered_example)
  from connection_invariant [OF example_linked [OF fresh_example(1,2)] c(1)] c
  show ?thesis by auto
qed

text \<open>A receiver with a packet of the second example pending.\<close>

definition pending_end :: endpoint where
  "pending_end = established (host_example\<lparr>inbox := [(\<lparr>sin_addr = 1, sin_port = 0\<rparr>,
     peer_packet 5000 1 101 101 ACK_FLAG_MASK 500 [1, 2])]\<rparr>)"

lemma linked_with_inbox:
  assumes "linked i j l r" and "\<And>d. d \<in> snd ` set ib \<Longrightarrow> valid_datagram j (sent r) i (next_seq r) d"
  shows "linked i j (l\<lparr>proc := (proc l)\<lparr>inbox := ib\<rparr>\<rparr>) r"
proof -
  let ?l = "l\<lparr>proc := (proc l)\<lparr>inbox := ib\<rparr>\<rparr>"
  have "sending i ?l = sending i l" "receiving j (sent r) ?l = receiving j (sent r) l" "sent ?l = sent l"
    "base_seq ?l = base_seq l" "next_seq ?l = next_seq l" "datagrams ?l = datagrams l" "arrived ?l = snd ` set ib"
    by (simp_all add: sending_def receiving_def acked_to_def sent_def base_seq_def next_seq_def
        datagrams_def arrived_def)
  then show ?thesis using assms by (auto simp: linked_def linked_to_def)
qed

lemma pending_linked: "linked 100 100 pending_end (writing_end sb_sent)"
proof -
  have "segment_of 100 [1, 2] 101 [1, 2]" unfolding segment_of_def by (intro disjI2 exI [of _ 0]) simp
  then have "valid_fields 100 [1, 2] 100 101 101 101 ACK_FLAG_MASK [1, 2]"
    by (simp add: valid_fields_def)
  then have v: "valid_datagram 100 [1, 2] 100 101 (peer_packet 5000 1 101 101 ACK_FLAG_MASK 500 [1, 2])"
    unfolding valid_datagram_def by blast
  have "q_fresh (sb_abs sb_sent) = [3]"
    by (simp add: sb_sent_def sb_example2_def sb_example_def cap_def acked_idx_def
      sent_dist_def written_dist_def dist0_def dist1_def sb_abs_def pending_def ring_get_def upt_rec)
  then have st: "sent (writing_end sb_sent) = [1, 2]" by (simp add: sent_def)
  have n: "next_seq (writing_end sb_sent) = 101"
    by (rule example_receives; simp add: sending_host_def host_example_parts)
  have "linked 100 100 quiet_end (writing_end sb_sent)"
    using example_linked [OF sent_example] by (simp add: linked_sym)
  then have "linked 100 100 (quiet_end\<lparr>proc := (proc quiet_end)\<lparr>inbox := [(\<lparr>sin_addr = 1, sin_port = 0\<rparr>,
     peer_packet 5000 1 101 101 ACK_FLAG_MASK 500 [1, 2])]\<rparr>\<rparr>) (writing_end sb_sent)"
    by (rule linked_with_inbox) (use v st n in simp)
  then show ?thesis by (simp add: pending_end_def quiet_end_def established_def)
qed

lemma connection_receives_witness:
  "\<exists>w. check_for_data (proc pending_end) NO_WAIT = Inr w"
proof (rule connection_receives [OF pending_linked connection.start])
  show "\<forall>d \<in> arrived pending_end. get_flags d = Inr ACK_FLAG_MASK"
    using peer_packet_fields(1) [of "[1, 2]"] by (simp add: arrived_def pending_end_def)
qed (simp_all add: pending_end_def)

text \<open>
  A socket that is closing, everything it wrote acknowledged, and its peer, where the three
  bytes have arrived and were not read yet.
\<close>

definition closing_end :: endpoint where
  "closing_end = \<lparr>proc = upd_sock (\<lambda>s. s\<lparr>dying := 1, send_buf := sb_example\<lparr>last_byte_acked_seqnum := 103,
       last_byte_acked_index := 3, last_byte_sent_index := 3, next_byte_written_index := 4\<rparr>,
       window := \<lparr>next_seq_expected = 101, last_ack_received = 104, rcvd_advertised_window = 1000\<rparr>\<rparr>) host_example,
     wrote = [1, 2, 3], got = []\<rparr>"

definition unread_end :: endpoint where
  "unread_end = established (upd_sock (\<lambda>s. s\<lparr>recv_buf := rb_example\<lparr>next_byte_expected_index := 4,
     r_buffer := [0, 1, 2, 3, 0, 0, 0, 0, 0, 0, 0, 0, 0, 0, 0, 0]\<rparr>\<rparr>) host_example)"

lemma closing_facts:
  "sending 100 closing_end" "base_seq closing_end = 103" "sent closing_end = [1, 2, 3]"
  "backend_ends (proc closing_end)" "receiving 100 [] closing_end" "next_seq closing_end = 101"
proof -
  let ?sb = "sb_example\<lparr>last_byte_acked_seqnum := 103, last_byte_acked_index := 3, last_byte_sent_index := 3,
      next_byte_written_index := 4\<rparr>"
  have sb: "sb_wf ?sb" "cap ?sb = 8" "q_inflight (sb_abs ?sb) = []" "q_fresh (sb_abs ?sb) = []"
    by (simp_all add: sb_wf_def sb_example_def cap_def acked_idx_def sent_dist_def written_dist_def
      dist0_def dist1_def sb_abs_def pending_def ring_get_def)
  have p: "sb_of closing_end = ?sb" "wrote closing_end = [1, 2, 3]" "acked_to closing_end = 104"
    by (simp_all add: closing_end_def acked_to_def)
  show b: "base_seq closing_end = 103" by (simp add: base_seq_def closing_end_def)
  show "sent closing_end = [1, 2, 3]" using p sb by (simp add: sent_def)
  show "sending 100 closing_end" using sb b unfolding sending_def p by simp
  show "backend_ends (proc closing_end)"
    using backend_ends_iff [of "proc closing_end"] p sb by (simp add: closing_end_def)
  have "\<not> rb_has rb_example empty_heap q" for q
    using empty_heap_ok rb_example_ok by (simp add: rb_has_list)
  then show "receiving 100 [] closing_end" "next_seq closing_end = 101"
    using rb_example_ok by (auto simp: receiving_def next_seq_def closing_end_def)
qed

lemma closing_linked: "linked 100 100 closing_end unread_end"
proof -
  let ?rb = "rb_example\<lparr>next_byte_expected_index := 4,
      r_buffer := [0, 1, 2, 3, 0, 0, 0, 0, 0, 0, 0, 0, 0, 0, 0, 0]\<rparr>"
  have rb: "rb_ok ?rb empty_heap []" "read_seq ?rb = 100" "expected_seq ?rb = 104"
    using empty_heap_ok
    by (simp_all add: rb_ok_def rb_wf_def rb_nat expected_seq_def expected_dist_def dist1_def
      segs_sorted_def rb_example_def)
  have has: "100 < q \<and> q \<le> 103 \<and> byte_at ?rb q = [1, 2, 3] ! (q - 101)" if "rb_has ?rb empty_heap q" for q
  proof -
    have "100 < q" "q < 104" using that empty_heap_ok rb by (simp_all add: rb_has_list)
    then have "q = 101 \<or> q = 102 \<or> q = 103" by linarith
    then show ?thesis
      by (auto simp: byte_at_def ring_slot_def rb_nat rb_example_def)
  qed
  have r: "receiving 100 [1, 2, 3] unread_end" "next_seq unread_end = 104"
    using rb has by (auto simp: receiving_def next_seq_def unread_end_def host_example_parts)
  have "q_inflight (sb_abs sb_example) = []" "q_fresh (sb_abs sb_example) = []"
    "cap sb_example = 8" "last_byte_acked_seqnum sb_example = 100"
    by (simp_all add: sb_abs_def pending_def ring_get_def sb_example_def cap_def acked_idx_def
      sent_dist_def written_dist_def dist0_def dist1_def)
  then have "sending 100 unread_end" "base_seq unread_end = 100" "sent unread_end = []"
    using sb_example_wf by (auto simp: sending_def unread_end_def base_seq_def acked_to_def host_example_parts)
  then show ?thesis
    using closing_facts r by (auto simp: linked_def linked_to_def datagrams_def arrived_def closing_end_def
        unread_end_def host_example_parts)
qed

lemma connection_close_complete_witness:
  "got unread_end @ readable unread_end = [1, 2, 3]"
proof -
  have w: "wrote closing_end = [1, 2, 3]" "wrote unread_end = []"
    by (simp_all add: closing_end_def unread_end_def)
  have "dying (sock (proc closing_end)) \<noteq> 0 \<and> got unread_end @ readable unread_end = wrote closing_end"
    by (rule connection_close_complete [OF closing_linked connection.start]) (simp_all add: w closing_facts)
  then show ?thesis by (simp add: w)
qed

lemma backend_ends_exactly_witness:
  "backend_loop [] (proc closing_end) = Inr (proc closing_end)"
proof -
  have "sb_wf (send_buf (sock (proc closing_end)))" using closing_facts(1) by (simp add: sending_def)
  from backend_ends_exactly [OF this, of "[]"] show ?thesis using closing_facts(4) by blast
qed

theorem cmu_write_alone_witness:
  "(\<exists>w. cmu_write [Inr, Inr] host_example [1, 2, 3] 3 = Inr (w, EXIT_SUCCESS)
      \<and> q_fresh (sb_abs (send_buf (sock w))) = [1, 2, 3])
    \<and> cmu_write [Inr, Inr] host_example [1, 2, 3, 4, 5, 6, 7, 8] 8 = Inl Blocked"
proof -
  have "q_inflight (sb_abs sb_example) = []" "q_fresh (sb_abs sb_example) = []" "cap sb_example = 8"
    by (simp_all add: sb_abs_def pending_def ring_get_def sb_example_def cap_def acked_idx_def
      sent_dist_def written_dist_def dist0_def dist1_def)
  then show ?thesis
    using cmu_write_alone [of host_example 3 "[1, 2, 3]" 2] cmu_write_alone [of host_example 8 "[1, 2, 3, 4, 5, 6, 7, 8]" 2]
      sb_example_wf by (auto simp: numeral_2_eq_2)
qed

text \<open>
  A turn of the backend: it sends what is fresh, the peer's acknowledgement of the first seven
  bytes arrives and is handled.
\<close>

definition seven_acknowledged :: "host \<Rightarrow> host res" where
  "seven_acknowledged w = bindF (backend_send w) (\<lambda>w.
     check_for_data (w\<lparr>inbox := inbox w @
       [(conn (sock w), peer_packet 15441 5000 0 108 ACK_FLAG_MASK 1000 [])]\<rparr>) NO_WAIT)"

definition sb_seven :: send_buffer_t where
  "sb_seven = sb_example\<lparr>next_byte_written_index := 0, s_buffer := [0, 1, 2, 3, 4, 5, 6, 7]\<rparr>"

lemma sb_seven_facts:
  "sb_wf sb_seven" "sb_room sb_seven" "cap sb_seven = 8" "last_byte_acked_seqnum sb_seven = 100"
  "sb_abs sb_seven = \<lparr>q_base = 100, q_inflight = [], q_fresh = [1, 2, 3, 4, 5, 6, 7]\<rparr>" "dump_safe sb_seven 7"
  by (simp_all add: sb_seven_def sb_example_def sb_wf_def sb_room_def cap_def acked_idx_def
    sent_dist_def written_dist_def dist0_def dist1_def sb_abs_def pending_def ring_get_def upt_rec dump_safe_def)

lemma seven_freed: "frees_along [(7, seven_acknowledged)] host_example [1, 2, 3, 4, 5, 6, 7, 8, 9] 0 9"
proof -
  define w1 where "w1 = upd_sock (\<lambda>s. s\<lparr>send_buf := sb_seven\<rparr>) host_example"
  have t: "cmu_write_turn host_example [1, 2, 3, 4, 5, 6, 7, 8, 9] 0 9 = Inr (w1, 7, 2)"
    by (simp add: w1_def cmu_write_turn_def send_buffer_write_def sb_example_def sb_seven_def
      send_buffer_max_write_def get_next_byte_written_seqnum_def safe_memcpy_to_sendbuf_def memcpy_def)
  have w1: "send_buf (sock w1) = sb_seven" "inbox w1 = []" "clock w1 = (0, 0)" "recv_buf (sock w1) = rb_example"
    "segs w1 = empty_heap" "last_ack_received (window (sock w1)) = 101" "rcvd_advertised_window (window (sock w1)) = 1000"
    by (simp_all add: w1_def) (simp_all add: host_example_def)
  have "backend_send w1 = multiple_send w1"
    using sb_seven_facts by (simp add: backend_send_def w1 DEFAULT_TIMEOUT_def get_time_ms_def sb_seven_def sb_example_def)
  moreover from multiple_send_ok [of w1] obtain sb' ms where "multiple_send w1 = Inr (w1\<lparr>sock := (sock w1)\<lparr>send_buf := sb'\<rparr>, outbox := ms\<rparr>)"
    and sb': "sb_wf sb'" "s_capacity sb' = s_capacity sb_seven"
      "sb_abs sb' = \<lparr>q_base = 100, q_inflight = [1, 2, 3, 4, 5, 6, 7], q_fresh = []\<rparr>"
    by (auto simp: w1 sb_seven_facts)
  ultimately obtain w2 where s: "backend_send w1 = Inr w2" and
    w2: "send_buf (sock w2) = sb'" "inbox w2 = []" "recv_buf (sock w2) = rb_example" "segs w2 = empty_heap"
      "last_ack_received (window (sock w2)) = 101"
    using w1 by auto
  have b: "last_byte_acked_seqnum sb' = 100" "cap sb' = 8"
    using sb'(2,3) sb_seven_facts(3) by (simp_all add: sb_abs_def cap_def)
  have "host_ok w2" using sb'(1) b rb_example_ok(1) by (auto simp: host_ok_def w2 sb_room_def)
  from acknowledgement_frees [OF this w2(2), of 108 7] obtain w3 where
    "seven_acknowledged w1 = Inr w3" "sb_wf (send_buf (sock w3))" "cap (send_buf (sock w3)) = 8"
    "in_queue w3 = drop 7 (in_queue w2)"
    unfolding seven_acknowledged_def s by (simp add: w2 b sb'(3)) blast
  moreover have "in_queue w2 = in_queue w1" "length (in_queue w1) = 7"
    by (simp_all add: in_queue_def w1 w2 sb'(3) sb_seven_facts)
  ultimately show ?thesis by (simp add: t w1 sb_seven_facts)
qed

theorem cmu_write_returns_witness:
  "\<exists>w j. cmu_write [seven_acknowledged] host_example [1, 2, 3, 4, 5, 6, 7, 8, 9] 9 = Inr (w, EXIT_SUCCESS)
    \<and> in_queue w = drop (sum_list (take j [7])) [1, 2, 3, 4, 5, 6, 7, 8, 9]"
proof -
  have q: "in_queue host_example = []" "room host_example = 7"
    by (simp_all add: in_queue_def room_def queued_def sb_abs_def pending_def ring_get_def sb_example_def cap_def
      acked_idx_def sent_dist_def written_dist_def dist0_def dist1_def)
  have "\<exists>w' j. cmu_write (map snd [(7 :: nat, seven_acknowledged)]) host_example [1, 2, 3, 4, 5, 6, 7, 8, 9] 9 = Inr (w', EXIT_SUCCESS)
      \<and> sb_wf (send_buf (sock w')) \<and> in_queue w' = drop (sum_list (take j (map fst [(7, seven_acknowledged)])))
        (in_queue host_example @ take (nat 9) [1, 2, 3, 4, 5, 6, 7, 8, 9])"
    by (rule cmu_write_returns [OF _ _ _ _ _ seven_freed]) (simp_all add: q sb_example_wf)
  then show ?thesis by (auto simp: q)
qed

text \<open>The example sockets of the handshake, connected; then three bytes are written and delivered.\<close>

abbreviation srv_addr :: sockaddr_in where "srv_addr \<equiv> \<lparr>sin_addr = 2, sin_port = 0\<rparr>"
abbreviation cl_addr :: sockaddr_in where "cl_addr \<equiv> \<lparr>sin_addr = 1, sin_port = 0\<rparr>"

definition client_start :: host where
  "client_start = client_example\<lparr>inbox := [(srv_addr, server_syn_ack server_example cl_addr 100)]\<rparr>"

definition server_start :: host where
  "server_start = server_example\<lparr>inbox := [(cl_addr, client_syn client_example),
     (cl_addr, control_header 5000 srv_addr 101 101 ACK_FLAG_MASK)]\<rparr>"

lemma start_facts:
  "fresh_socket 100 client_start" "sock_type (sock client_start) = TCP_INITIATOR"
  "fresh_socket 100 server_start" "sock_type (sock server_start) = TCP_LISTENER"
  "my_port (sock client_start) = 5000" "client_syn client_start = client_syn client_example"
  "server_syn_ack server_start = server_syn_ack server_example"
  "send_buf (sock client_start) = sb_example" "rcvd_advertised_window (window (sock client_start)) = 44000"
  "rcap (recv_buf (sock server_start)) = 16"
proof -
  have q: "sb_abs sb_example = \<lparr>q_base = 100, q_inflight = [], q_fresh = []\<rparr>" "cap sb_example = 8"
    by (simp_all add: sb_abs_def pending_def ring_get_def sb_example_def cap_def acked_idx_def
      sent_dist_def written_dist_def dist0_def dist1_def)
  have r: "rcap (rb_example\<lparr>last_byte_read_seqnum := 0\<rparr>) = 16"
    "length (r_buffer rb_example) = 16" "r_start rb_example = Null" "r_end rb_example = Null"
    by (simp_all add: rb_nat rb_example_def)
  show "fresh_socket 100 client_start" "fresh_socket 100 server_start"
    using q r sb_example_wf empty_heap_ok
    by (simp_all add: fresh_socket_def client_start_def server_start_def client_example_def server_example_def
      host_example_def upd_sock_def word_less_nat_alt unat_uminus32)
  show "sock_type (sock client_start) = TCP_INITIATOR" "sock_type (sock server_start) = TCP_LISTENER"
    "my_port (sock client_start) = 5000" "client_syn client_start = client_syn client_example"
    "server_syn_ack server_start = server_syn_ack server_example"
    "send_buf (sock client_start) = sb_example" "rcvd_advertised_window (window (sock client_start)) = 44000"
    "rcap (recv_buf (sock server_start)) = 16"
    using r by (simp_all add: client_start_def server_start_def client_example_def server_example_def
      host_example_def upd_sock_def client_syn_def server_syn_ack_def fun_eq_iff)
qed

end
