(* ===== verification/Full_Window.thy ===== *)
theory Full_Window
  imports Connection_Theorems
begin

text \<open>
  The receiver announces its window only in answer to data, and the sender does not probe a
  closed window unless bytes are in flight. So when the data that fills the receive buffer is
  acknowledged, with the window 0, the connection is silent from then on.
\<close>

section \<open>A silent endpoint\<close>

definition silent :: "endpoint \<Rightarrow> bool" where
  "silent e \<longleftrightarrow> inbox (proc e) = [] \<and> sb_wf (sb_of e) \<and> q_inflight (sb_abs (sb_of e)) = []
     \<and> (rcvd_advertised_window (window (sock (proc e))) = 0 \<or> q_fresh (sb_abs (sb_of e)) = [])"

lemma silent_sends_nothing:
  assumes "silent e"
  shows "backend_send (proc e) = Inr (proc e)"
proof -
  have wf: "sb_wf (sb_of e)" and q: "q_inflight (sb_abs (sb_of e)) = []" using assms by (simp_all add: silent_def)
  have u: "get_unacknowledged_count (sb_of e) = 0"
    using q unacked_count [OF wf] length_abs(1) [OF wf] by (simp add: unat_eq_0)
  have "rcvd_advertised_window (window (sock (proc e))) = 0 \<or> send_buffer_max_new_dump (sb_of e) = 0"
    using assms max_new_dump [OF wf] length_abs(2) [OF wf] by (auto simp: silent_def unat_eq_0)
  moreover have "send_fresh w a 0 = Inr w" for w a by (subst send_fresh.simps) simp
  ultimately show ?thesis
    by (auto simp: backend_send_def multiple_send_def Let_def u)
qed

text \<open>
  Without arrivals a silent endpoint stays silent: it may read, and write while the window is
  closed.
\<close>

lemma silent_step:
  assumes "endpoint_step {} e e'" and s: "silent e"
    and w: "rcvd_advertised_window (window (sock (proc e))) = 0 \<or> wrote e' = wrote e"
  shows "silent e' \<and> outbox (proc e') = outbox (proc e)
    \<and> rcvd_advertised_window (window (sock (proc e'))) = rcvd_advertised_window (window (sock (proc e)))"
  using assms(1)
proof cases
  case (app_write buf written len p written' len')
  let ?n = "min (nat len) (cap (sb_of e) - 1 - length (q_inflight (sb_abs (sb_of e))) - length (q_fresh (sb_abs (sb_of e))))"
  obtain sb' where sb': "cmu_write_turn (proc e) buf written len =
      Inr (upd_sock (\<lambda>s. s\<lparr>send_buf := sb'\<rparr>) (proc e), written + of_nat ?n, len - int ?n)"
    "sb_wf sb'" "sb_abs sb' = (sb_abs (sb_of e))
      \<lparr>q_fresh := q_fresh (sb_abs (sb_of e)) @ take ?n (drop (unat written) buf)\<rparr>"
    using cmu_write_turn_ok [OF _ app_write(3-5)] s unfolding silent_def by blast
  have p: "p = upd_sock (\<lambda>s. s\<lparr>send_buf := sb'\<rparr>) (proc e)" "nat (len - len') = ?n"
    using app_write(2) sb'(1) by auto
  then have "wrote e' = wrote e @ take ?n (drop (unat written) buf)" using app_write(1) by simp
  then show ?thesis using s w app_write(1) p(1) sb'(2,3) by (auto simp: silent_def)
next
  case (app_read buf len flags p buf' n)
  then show ?thesis
    using s by (auto simp: silent_def cmu_read_def Let_def split: if_splits)
next
  case (app_close p)
  then show ?thesis using s by (auto simp: silent_def cmu_close_request_def split: if_splits)
next
  case (receive p)
  then have "p = proc e" using s by (simp add: silent_def check_for_data_def recvfrom_peek_def)
  then show ?thesis using receive s by (simp add: silent_def)
next
  case (transmit p)
  then show ?thesis using silent_sends_nothing [OF s] s by (simp add: silent_def)
next
  case (tick tv)
  then show ?thesis using s by (simp add: silent_def)
qed simp

lemma wrote_grows: "endpoint_step net e e' \<Longrightarrow> length (wrote e) \<le> length (wrote e')"
  by (cases rule: endpoint_step.cases) auto

lemma closed_window_run:
  assumes "(endpoint_step {})\<^sup>*\<^sup>* e e'" and "silent e"
    and "rcvd_advertised_window (window (sock (proc e))) = 0"
  shows "silent e' \<and> outbox (proc e') = outbox (proc e)
    \<and> rcvd_advertised_window (window (sock (proc e'))) = 0"
  using assms
proof (induction rule: rtranclp_induct)
  case (step y z)
  then show ?case using silent_step [of y z] by auto
qed simp

lemma nothing_to_send_run:
  assumes "(endpoint_step {})\<^sup>*\<^sup>* e e'" and "silent e"
  shows "length (wrote e) \<le> length (wrote e')
    \<and> (length (wrote e') = length (wrote e) \<longrightarrow> silent e' \<and> wrote e' = wrote e \<and> outbox (proc e') = outbox (proc e))"
  using assms
proof (induction rule: rtranclp_induct)
  case (step y z)
  have "wrote z = wrote y" if "length (wrote z) = length (wrote y)"
    using step.hyps(2) that by (cases rule: endpoint_step.cases) auto
  then show ?case
    using step silent_step [of y z] wrote_grows [of "{}" y z] by auto
qed simp

section \<open>Filling the window\<close>

text \<open>A sender whose base is as far as its application has written holds nothing.\<close>

lemma all_acknowledged:
  assumes "sending i e" and "base_seq e = unat i + length (wrote e)"
  shows "q_inflight (sb_abs (sb_of e)) = [] \<and> q_fresh (sb_abs (sb_of e)) = []"
  using assms(1) by (rule sendingE) (use assms(2) in auto)

lemma base_at_most:
  assumes "sending i e" shows "base_seq e \<le> unat i + length (wrote e)"
  using assms by (rule sendingE) auto

lemma acknowledged_base:
  assumes "ack = last_ack_received v \<and> sb' = sb \<or> send_buffer_update_ack tv sb ack = Inr sb'"
  shows "last_byte_acked_seqnum sb \<le> last_byte_acked_seqnum sb'"
  using assms update_ack_base [of tv sb ack sb'] by auto

lemma full_window:
  assumes lk: "linked i j l r"
    and bi: "unat i + length (wrote l) + MSS < 2 ^ 32" and bj: "unat j + length (wrote r) + MSS < 2 ^ 32"
    and q: "q_inflight (sb_abs (sb_of l)) = []"
    and n: "n = length (q_fresh (sb_abs (sb_of l)))" "0 < n" "dump_safe (sb_of l) (of_nat n)"
      "n \<le> unat (rcvd_advertised_window (window (sock (proc l))))"
    and qr: "q_inflight (sb_abs (sb_of r)) = []" "q_fresh (sb_abs (sb_of r)) = []"
    and ib: "inbox (proc l) = []" "inbox (proc r) = []"
    and up: "initialized (sock (proc l))" "initialized (sock (proc r))"
    and room: "base_seq l + n + 1 = read_seq (rb_of r) + rcap (rb_of r)"
  shows "\<exists>l' r'. connection l r l' r' \<and> wrote l' = wrote l \<and> wrote r' = wrote r
    \<and> silent l' \<and> silent r' \<and> rcvd_advertised_window (window (sock (proc l'))) = 0
    \<and> initialized (sock (proc l')) \<and> initialized (sock (proc r')) \<and> next_seq r' = base_seq l + n + 1"
proof -
  let ?bs = "take n (q_fresh (sb_abs (sb_of l)))"
  have l: "sending i l" "receiving j (sent r) l" and r: "sending j r" "receiving i (sent l) r"
    and b: "base_seq l < next_seq r"
    using lk by (auto simp: linked_def linked_to_def)
  obtain acked where a: "base_seq l = unat i + length acked" "sent l = acked"
      "wrote l = acked @ q_fresh (sb_abs (sb_of l))"
    using l(1) q by (metis sendingE append_Nil append_Nil2)
  have ln: "length ?bs = n" "?bs \<noteq> []" using n(1,2) by auto
  have n': "n = min (length (q_fresh (sb_abs (sb_of l)))) (unat (rcvd_advertised_window (window (sock (proc l)))))"
    using n(1,4) by simp
  obtain w src dst seq ack adv where w: "endpoint_step (datagrams r) l (l\<lparr>proc := w\<rparr>)"
    "sent (l\<lparr>proc := w\<rparr>) = sent l @ ?bs" "next_seq (l\<lparr>proc := w\<rparr>) = next_seq l"
    "peer_packet src dst seq ack ACK_FLAG_MASK adv ?bs \<in> datagrams (l\<lparr>proc := w\<rparr>)"
    "unat seq = base_seq l + 1"
    "valid_fields i (sent l @ ?bs) j (next_seq l) seq ack ACK_FLAG_MASK ?bs"
    "inbox w = inbox (proc l)" "initialized (sock w) = initialized (sock (proc l))"
    using send_quiet [OF l bi q n' n(2,3), of "datagrams r"] by blast
  define l1 where "l1 = l\<lparr>proc := w\<rparr>"
  have wl1: "wrote l1 = wrote l" by (simp add: l1_def)
  have lk1: "linked i j l1 r" using linked_step [OF lk w(1)] bi bj by (simp add: l1_def)
  then have r1: "receiving i (sent l1) r" and exb: "next_seq l1 \<le> unat j + 1 + length (sent r)"
    using readable_prefix(3) by (auto simp: linked_def linked_to_def)
  have "length (sent l1) \<le> length (wrote l1)" by (simp add: sent_def)
  then have bt: "unat i + length (sent l1) + MSS < 2 ^ 32" using bi wl1 by simp
  have v: "valid_fields i (sent l1) j (next_seq l1) seq ack ACK_FLAG_MASK ?bs"
    using w(2,3,6) by (simp add: l1_def)
  obtain e1 w2 where s: "endpoint_step (datagrams l1) r e1" "endpoint_step (datagrams l1) e1 (e1\<lparr>proc := w2\<rparr>)"
    "e1\<lparr>proc := w2\<rparr> = r\<lparr>proc := w2\<rparr>" "initialized (sock w2)" "inbox w2 = []"
    "takes_segment (rb_of r) (segs (proc r)) (unat seq) ?bs (recv_buf (sock w2)) (segs w2)"
    "ack = last_ack_received (window (sock (proc r))) \<and> send_buf (sock w2) = sb_of r
       \<or> send_buffer_update_ack (clock (proc r)) (sb_of r) ack = Inr (send_buf (sock w2))"
    "outbox w2 = outbox (proc r) @ (if ?bs = [] then [] else [ack_packet w2])"
    using receive_arrival [OF r(1) r1 exb bj bt ib(2) up(2) refl w(4) [folded l1_def] v] by blast
  define r2 where "r2 = r\<lparr>proc := w2\<rparr>"
  have c: "connection l r l1 r2"
    using connection.right [OF connection.right [OF connection.left [OF connection.start w(1)] s(1) [unfolded l1_def]] s(2) [unfolded l1_def]]
    by (simp add: l1_def r2_def s(3))
  have wr: "wrote r2 = wrote r" "got r2 = got r" by (simp_all add: r2_def)
  have lk2: "linked i j l1 r2" using connection_linked [OF c lk] bi bj wl1 wr(1) by simp
  then have k2: "sending i l1" "receiving j (sent r2) l1" "sending j r2" "receiving i (sent l1) r2"
    by (auto simp: linked_def linked_to_def)
  obtain xs where "rb_ok (rb_of r) (segs (proc r)) xs" using r(2) by (auto simp: receiving_def)
  then have d: "read_seq (rb_of r) < next_seq r" using rb_wfD(10) by (auto simp: rb_ok_def next_seq_def)
  have nx: "next_seq r = base_seq l + 1" using b readable_prefix(3) [OF r(2)] a by simp
  have "accepts (rb_of r) (unat seq) (length ?bs)"
    using d room n(2) w(5) nx ln(1) by (simp add: accepts_def next_seq_def)
  then have nx2: "base_seq l + n + 1 \<le> next_seq r2"
    using s(6) nx w(5) ln(1) by (simp add: takes_segment_def next_seq_def r2_def)
  have rb2: "read_seq (rb_of r2) = read_seq (rb_of r)" "rcap (rb_of r2) = rcap (rb_of r)"
    using s(6) by (simp_all add: takes_segment_def r2_def)
  obtain ys where ok2: "rb_ok (rb_of r2) (segs (proc r2)) ys" using k2(4) by (auto simp: receiving_def)
  then have wf2: "rb_wf (rb_of r2)" by (simp add: rb_ok_def)
  have full: "next_seq r2 = base_seq l + n + 1" "next_seq r2 = read_seq (rb_of r2) + rcap (rb_of r2)"
    using nx2 rb_wfD(11) [OF wf2] room rb2 by (simp_all add: next_seq_def)
  have closed: "recv_buffer_max_receive (rb_of r2) = 0"
    using max_receive [OF wf2] full(2) by (simp add: next_seq_def unat_eq_0)
  define ak where "ak = get_next_byte_expected_seqnum (rb_of r2)"
  have ak: "unat ak = next_seq r2" "unat i < unat ak" "next_seq r2 \<le> unat i + 1 + length (sent l1)"
    using next_expected(2) [OF wf2] rb_wfD(10) [OF wf2] k2(4) readable_prefix(3) [OF k2(4)]
    by (auto simp: next_seq_def ak_def receiving_def)
  have "snd (ack_packet w2) \<in> datagrams r2" using s(8) ln(2) by (simp add: datagrams_def r2_def)
  then have d2: "peer_packet (my_port (sock w2)) (ntohs (sin_port (conn (sock w2))))
      (last_ack_received (window (sock w2))) ak ACK_FLAG_MASK 0 [] \<in> datagrams r2"
    using closed by (simp add: ack_packet_def peer_packet_def ak_def r2_def)
  have v2: "valid_fields j (sent r2) i (next_seq r2) (last_ack_received (window (sock w2))) ak ACK_FLAG_MASK []"
    using ak by (simp add: valid_fields_def segment_of_def)
  have bt2: "unat i + length (wrote l1) + MSS < 2 ^ 32" "unat j + length (sent r2) + MSS < 2 ^ 32"
    using bi bj by (simp_all add: wl1 sent_def r2_def)
  obtain e3 w3 where s3: "endpoint_step (datagrams r2) l1 e3" "endpoint_step (datagrams r2) e3 (e3\<lparr>proc := w3\<rparr>)"
    "e3\<lparr>proc := w3\<rparr> = l1\<lparr>proc := w3\<rparr>" "initialized (sock w3)" "inbox w3 = []"
    "ak = last_ack_received (window (sock (proc l1))) \<and> send_buf (sock w3) = sb_of l1
       \<or> send_buffer_update_ack (clock (proc l1)) (sb_of l1) ak = Inr (send_buf (sock w3))"
    "rcvd_advertised_window (window (sock w3)) = 0"
    using receive_arrival [OF k2(1,2) ak(3) bt2 _ _ refl d2 v2] w(7,8) ib(1) up(1) by (auto simp: l1_def)
  define l3 where "l3 = l1\<lparr>proc := w3\<rparr>"
  have c3: "connection l r l3 r2"
    using connection.left [OF connection.left [OF c s3(1)] s3(2)] by (simp add: s3(3) l3_def)
  have wl3: "wrote l3 = wrote l" by (simp add: l3_def wl1)
  have "linked i j l3 r2" using connection_linked [OF c3 lk] bi bj wl3 wr(1) by simp
  then have k3: "sending i l3" by (simp add: linked_def linked_to_def)
  have "base_seq l + n \<le> base_seq l3"
    using s3(6)
  proof
    assume "ak = last_ack_received (window (sock (proc l1))) \<and> send_buf (sock w3) = sb_of l1"
    then have "base_seq l3 = base_seq l1" "unat ak = acked_to l1"
      by (simp_all add: base_seq_def acked_to_def l3_def)
    then show ?thesis using k2(1) ak(1) full(1) by (simp add: sending_def)
  next
    assume "send_buffer_update_ack (clock (proc l1)) (sb_of l1) ak = Inr (send_buf (sock w3))"
    from update_ack_base [OF this] have "unat (ak - 1) \<le> base_seq l3"
      by (auto simp: base_seq_def l3_def word_le_nat_alt word_less_nat_alt)
    moreover have "unat (ak - 1) = unat ak - 1" using ak(2) by (subst unat_sub32) simp_all
    ultimately show ?thesis using ak(1) full(1) by simp
  qed
  then have "base_seq l3 = unat i + length (wrote l3)"
    using base_at_most [OF k3] a(1,3) n(1) wl3 by simp
  then have sl: "silent l3"
    using all_acknowledged [OF k3] k3 s3(5) by (simp add: silent_def sending_def l3_def)
  have "base_seq r \<le> base_seq r2"
    using acknowledged_base [OF s(7)] by (simp add: base_seq_def r2_def word_le_nat_alt)
  moreover have "base_seq r = unat j + length (wrote r)"
    using r(1) by (rule sendingE) (use qr in simp)
  ultimately have "base_seq r2 = unat j + length (wrote r2)"
    using base_at_most [OF k2(3)] wr(1) by simp
  then have sr: "silent r2"
    using all_acknowledged [OF k2(3)] k2(3) s(5) by (simp add: silent_def sending_def r2_def)
  have "initialized (sock (proc l3))" "initialized (sock (proc r2))"
    "rcvd_advertised_window (window (sock (proc l3))) = 0"
    using s3(4,7) s(4) by (simp_all add: l3_def r2_def)
  then show ?thesis using c3 wl3 wr(1) sl sr full(1) by blast
qed

lemma silent_forever:
  assumes "silent l" and "silent r" and "rcvd_advertised_window (window (sock (proc l))) = 0"
    and "(endpoint_step {})\<^sup>*\<^sup>* l l'" and "(endpoint_step {})\<^sup>*\<^sup>* r r'"
    and "length (wrote r') = length (wrote r)"
  shows "outbox (proc l') = outbox (proc l) \<and> outbox (proc r') = outbox (proc r)"
  using closed_window_run [OF assms(4,1,3)] nothing_to_send_run [OF assms(5,2)] assms(6) by simp

text \<open>
  C15: A full receive buffer ends the connection. In a connection where the sender has nothing
  in flight and its fresh bytes just fill the peer's receive buffer, the plain course of
  events, the bytes sent, received and acknowledged with nothing lost, leads to a state from
  which only another packet or the peer's application leads out: as long as the peer's
  application writes nothing and no datagram comes in any more, neither side sends anything,
  however much time passes, whatever the sender's application writes and although the peer's
  application reads. The acknowledgement closed the window, reading does not announce that it
  is open again, and the sender does not ask, as it has nothing in flight.
\<close>

theorem full_window_deadlock:
  assumes "linked i j l r"
    and "unat i + length (wrote l) + MSS < 2 ^ 32" and "unat j + length (wrote r) + MSS < 2 ^ 32"
    and "q_inflight (sb_abs (sb_of l)) = []"
    and "n = length (q_fresh (sb_abs (sb_of l)))" and "0 < n" and "dump_safe (sb_of l) (of_nat n)"
    and "n \<le> unat (rcvd_advertised_window (window (sock (proc l))))"
    and "q_inflight (sb_abs (sb_of r)) = []" and "q_fresh (sb_abs (sb_of r)) = []"
    and "inbox (proc l) = []" and "inbox (proc r) = []"
    and "initialized (sock (proc l))" and "initialized (sock (proc r))"
    and "base_seq l + n + 1 = read_seq (rb_of r) + rcap (rb_of r)"
  shows "\<exists>l' r'. connection l r l' r' \<and> wrote l' = wrote l \<and> wrote r' = wrote r
    \<and> next_seq r' = base_seq l + n + 1
    \<and> (\<forall>l2 r2. (endpoint_step {})\<^sup>*\<^sup>* l' l2 \<longrightarrow> (endpoint_step {})\<^sup>*\<^sup>* r' r2
        \<longrightarrow> length (wrote r2) = length (wrote r')
        \<longrightarrow> outbox (proc l2) = outbox (proc l') \<and> outbox (proc r2) = outbox (proc r'))"
proof -
  obtain l' r' where e: "connection l r l' r'" "wrote l' = wrote l" "wrote r' = wrote r" "silent l'" "silent r'"
    "rcvd_advertised_window (window (sock (proc l'))) = 0" "next_seq r' = base_seq l + n + 1"
    using full_window [OF assms(1-15)] by blast
  with silent_forever [OF e(4-6)] show ?thesis by blast
qed

text \<open>Three bytes for a receive buffer of capacity four.\<close>

definition small_rb :: recv_buffer_t where
  "small_rb = rb_example\<lparr>r_capacity := 4, r_buffer := [0, 0, 0, 0]\<rparr>"

definition small_end :: endpoint where
  "small_end = established (upd_sock (\<lambda>s. s\<lparr>recv_buf := small_rb\<rparr>) host_example)"

lemma small_end_parts:
  "sb_of small_end = sb_example" "rb_of small_end = small_rb" "segs (proc small_end) = empty_heap"
  "inbox (proc small_end) = []" "outbox (proc small_end) = []" "got small_end = []" "wrote small_end = []"
  "initialized (sock (proc small_end))" "sent small_end = []"
  "window (sock (proc small_end)) = \<lparr>next_seq_expected = 101, last_ack_received = 101, rcvd_advertised_window = 1000\<rparr>"
  by (simp_all add: small_end_def host_example_def)

lemma small_rb_ok: "rb_ok small_rb empty_heap []" "read_seq small_rb = 100" "rcap small_rb = 4"
  "expected_seq small_rb = 101"
  using empty_heap_ok
  by (simp_all add: small_rb_def rb_ok_def rb_wf_def rb_nat expected_seq_def expected_dist_def
    dist1_def segs_sorted_def rb_example_def)

lemma small_end_linked: "linked 100 100 (writing_end sb_example2) small_end"
proof -
  have w: "receiving 100 t (writing_end sb_example2)" "next_seq (writing_end sb_example2) = 101" for t
    by (rule example_receives; simp add: sending_host_def host_example_parts)+
  have "\<not> rb_has small_rb empty_heap q" for q
    using empty_heap_ok small_rb_ok by (simp add: rb_has_list)
  then have r: "receiving 100 t small_end" "next_seq small_end = 101" for t
    using small_rb_ok by (auto simp: receiving_def next_seq_def small_end_parts)
  have "q_inflight (sb_abs sb_example) = []" "q_fresh (sb_abs sb_example) = []"
    "cap sb_example = 8" "last_byte_acked_seqnum sb_example = 100"
    by (simp_all add: sb_abs_def pending_def ring_get_def sb_example_def cap_def acked_idx_def
      sent_dist_def written_dist_def dist0_def dist1_def)
  then have "sending 100 small_end" "base_seq small_end = 100"
    using sb_example_wf by (auto simp: sending_def base_seq_def acked_to_def small_end_parts)
  then show ?thesis
    using fresh_example w r
    by (auto simp: linked_def linked_to_def datagrams_def arrived_def small_end_parts sending_host_def
        host_example_parts)
qed

theorem full_window_deadlock_witness:
  "\<exists>l' r'. connection (writing_end sb_example2) small_end l' r' \<and> wrote l' = [1, 2, 3] \<and> next_seq r' = 104"
proof -
  have q: "q_inflight (sb_abs sb_example) = []" "q_fresh (sb_abs sb_example) = []"
    by (simp_all add: sb_abs_def pending_def ring_get_def sb_example_def cap_def acked_idx_def
      sent_dist_def written_dist_def dist0_def dist1_def)
  have h: "inbox (sending_host sb_example2) = []" "initialized (sock (sending_host sb_example2))"
    "rcvd_advertised_window (window (sock (sending_host sb_example2))) = 1000"
    by (simp_all add: sending_host_def host_example_def)
  show ?thesis
    using full_window_deadlock [OF small_end_linked, where n = 3]
    by (simp add: fresh_example sb_example2_facts small_end_parts small_rb_ok q h) blast
qed

end
