(* ===== verification/Threads.thy ===== *)
theory Threads
  imports Full_Window
begin

text \<open>
  The two threads of a process, lock by lock. \<open>System\<close> takes a whole call of the backend as
  one step. Here a step is what a thread does while it holds a mutex, or between two, so the
  application's calls come in wherever the code lets them: between the acknowledgement and
  the data of one packet, between the data and its answer, between the test for the end and
  the end. The application is one thread: while it waits for data it does nothing else, and
  once it has called \<open>cmu_close\<close> it waits for the backend to end.
\<close>

section \<open>The sections of the code\<close>

text \<open>\<open>check_for_data\<close> up to the call of \<open>handle_message\<close>: the next datagram, if there is one.\<close>

definition take_datagram :: "host \<Rightarrow> (host \<times> u8 list option) res" where
  "take_datagram w =
     (case recvfrom_peek w sizeof_header of
        None \<Rightarrow> Inr (w, None)
      | Some (hdr, w) \<Rightarrow>
          if length hdr \<ge> sizeof_header
          then bindF (get_plen hdr) (\<lambda>plen.
               bindF (recv_packet w (unat plen)) (\<lambda>(pkt, w). Inr (w, Some pkt)))
          else Inr (w, None))"

text \<open>
  \<open>handle_message\<close> in its parts: the flags, the acknowledgement under \<open>send_lock\<close> and the
  window, with the length of the payload as the result; the payload under \<open>recv_lock\<close>, with
  the signal to a waiting reader if it was stored. \<open>send_pure_ack\<close> is the last part.
\<close>

definition handle_header :: "host \<Rightarrow> u8 list \<Rightarrow> (host \<times> u16) res" where
  "handle_header w pkt =
     bindF (get_flags pkt) (\<lambda>flags.
     bindF (assertF (flags AND ACK_FLAG_MASK \<noteq> 0)) (\<lambda>_.
     bindF (assertF (flags AND SYN_FLAG_MASK = 0)) (\<lambda>_.
     if flags AND FIN_FLAG_MASK \<noteq> 0 then Inr (w, 0)
     else
       bindF (get_ack pkt) (\<lambda>acknum.
       bindF (handle_ack w acknum) (\<lambda>w.
       bindF (get_advertised_window pkt) (\<lambda>adv.
       let w = upd_window (\<lambda>v. v\<lparr>rcvd_advertised_window := adv\<rparr>) w in
       bindF (get_payload_len pkt) (\<lambda>payload_len. Inr (w, payload_len))))))))"

definition store_data :: "host \<Rightarrow> u8 list \<Rightarrow> u16 \<Rightarrow> (host \<times> bool) res" where
  "store_data w pkt payload_len =
     bindF (get_seq pkt) (\<lambda>seqnum.
     bindF (if recv_buffer_can_receive (recv_buf (sock w)) seqnum (ucast payload_len) = 0
            then bindF (get_payload pkt) (\<lambda>p.
                 bindF (recv_buffer_receive (recv_buf (sock w)) (segs w) seqnum (ucast payload_len)
                          (drop p pkt)) (\<lambda>(rb, h).
                   Inr (upd_sock (\<lambda>s. s\<lparr>recv_buf := rb\<rparr>) (w\<lparr>segs := h\<rparr>), True)))
            else Inr (w, False)) (\<lambda>(w, signalled).
       Inr (upd_window (\<lambda>v. v\<lparr>next_seq_expected :=
         get_next_byte_expected_seqnum (recv_buf (sock w))\<rparr>) w, signalled)))"

lemma check_for_data_sections:
  "check_for_data w NO_WAIT =
     bindF (take_datagram w) (\<lambda>(w, p). case p of None \<Rightarrow> Inr w | Some pkt \<Rightarrow> handle_message w pkt)"
  by (auto simp: check_for_data_def take_datagram_def split_def split: option.splits)

lemma handle_message_sections:
  "handle_message w pkt =
     bindF (handle_header w pkt) (\<lambda>(w, n).
       if n \<noteq> 0 then bindF (store_data w pkt n) (\<lambda>(w, _). send_pure_ack w) else Inr w)"
proof -
  have d: "handle_data v pkt n = bindF (store_data v pkt n) (\<lambda>(w, _). send_pure_ack w)" for v n
    by (auto simp: handle_data_def store_data_def split_def intro!: bindF_cong)
  show ?thesis
    unfolding handle_message_def handle_header_def d
    by (auto simp: Let_def split_def intro!: bindF_cong)
qed

section \<open>Where the backend is\<close>

text \<open>The place of the thread in its loop, with the local variables that are live there.\<close>

datatype control =
    Check_death
  | Check_empty int
  | Receive
  | Handle "u8 list"
  | Store "u8 list" u16
  | Answer
  | Transmit
  | Wake
  | Ended

text \<open>
  One section of the loop of \<open>begin_backend\<close>; the truth value is a signal to \<open>wait_cond\<close>.

  \<open>Transmit\<close> stands for what \<open>resend_unacknowledged\<close> or \<open>multiple_send\<close> do under \<open>send_lock\<close>. For
  the window they announce these read the receive buffer without \<open>recv_lock\<close>, while \<open>cmu_read\<close>
  may be moving its number and its index on: here they read it in one step, before or after
  that, so a window computed from one of the two old and the other new is not modelled.
\<close>

fun thread_section :: "control \<Rightarrow> host \<Rightarrow> (host \<times> control \<times> bool) res" where
  "thread_section Check_death w = Inr (w, Check_empty (dying (sock w)), False)"
| "thread_section (Check_empty death) w =
     (let num_unacknowledged = get_unacknowledged_count (send_buf (sock w));
          num_fresh = send_buffer_max_new_dump (send_buf (sock w))
      in Inr (w, if death \<noteq> 0 \<and> num_unacknowledged + num_fresh = 0 then Ended else Receive, False))"
| "thread_section Receive w =
     bindF (take_datagram w) (\<lambda>(w, p).
       Inr (w, case p of None \<Rightarrow> Transmit | Some pkt \<Rightarrow> Handle pkt, False))"
| "thread_section (Handle pkt) w =
     bindF (handle_header w pkt) (\<lambda>(w, n). Inr (w, if n \<noteq> 0 then Store pkt n else Transmit, False))"
| "thread_section (Store pkt n) w =
     bindF (store_data w pkt n) (\<lambda>(w, signalled). Inr (w, Answer, signalled))"
| "thread_section Answer w = bindF (send_pure_ack w) (\<lambda>w. Inr (w, Transmit, False))"
| "thread_section Transmit w = bindF (backend_send w) (\<lambda>w. Inr (w, Wake, False))"
| "thread_section Wake w = Inr (w, Check_death, recv_buffer_max_read (recv_buf (sock w)) > 0)"
| "thread_section Ended w = Inl Blocked"

text \<open>
  The process: the endpoint of \<open>System\<close>, the backend's place, and whether the application is
  inside \<open>pthread_cond_wait\<close>.
\<close>

record threads =
  ep :: endpoint
  pc :: control
  waiting :: bool

definition app_free :: "threads \<Rightarrow> bool" where
  "app_free s \<longleftrightarrow> \<not> waiting s \<and> dying (sock (proc (ep s))) = 0"

text \<open>
  The steps beside the backend: the application's calls, each of which waits until the socket
  is initialised, arrivals, and the passing of time.
\<close>

inductive aside_step :: "u8 list set \<Rightarrow> threads \<Rightarrow> threads \<Rightarrow> bool" for net where
  app_write: "app_free s \<Longrightarrow> initialized (sock (proc (ep s))) \<Longrightarrow>
    cmu_write_turn (proc (ep s)) buf written len = Inr (w, written', len') \<Longrightarrow>
    0 < len \<Longrightarrow> len < 2 ^ 31 \<Longrightarrow> unat written + nat len \<le> length buf \<Longrightarrow>
    aside_step net s (s\<lparr>ep := (ep s)\<lparr>proc := w,
      wrote := wrote (ep s) @ take (nat (len - len')) (drop (unat written) buf)\<rparr>\<rparr>)"
| app_read: "app_free s \<Longrightarrow> cmu_read (proc (ep s)) buf len flags = Inr (w, buf', n) \<Longrightarrow>
    len < 2 ^ 31 \<Longrightarrow> nat len \<le> length buf \<Longrightarrow>
    aside_step net s (s\<lparr>ep := (ep s)\<lparr>proc := w, got := got (ep s) @ take (nat n) buf'\<rparr>\<rparr>)"
| app_waits: "app_free s \<Longrightarrow> initialized (sock (proc (ep s))) \<Longrightarrow>
    recv_buffer_max_read (recv_buf (sock (proc (ep s)))) = 0 \<Longrightarrow>
    aside_step net s (s\<lparr>waiting := True\<rparr>)"
| app_wakes: "aside_step net s (s\<lparr>waiting := False\<rparr>)"
| app_close: "app_free s \<Longrightarrow> cmu_close_request (proc (ep s)) = Inr w \<Longrightarrow>
    aside_step net s (s\<lparr>ep := (ep s)\<lparr>proc := w\<rparr>\<rparr>)"
| arrive: "d \<in> net \<Longrightarrow> aside_step net s
    (s\<lparr>ep := (ep s)\<lparr>proc := (proc (ep s))\<lparr>inbox := inbox (proc (ep s)) @ [(sender, d)]\<rparr>\<rparr>\<rparr>)"
| tick: "aside_step net s (s\<lparr>ep := (ep s)\<lparr>proc := (proc (ep s))\<lparr>clock := tv\<rparr>\<rparr>\<rparr>)"

inductive thread_step :: "u8 list set \<Rightarrow> threads \<Rightarrow> threads \<Rightarrow> bool" for net where
  backend: "thread_section (pc s) (proc (ep s)) = Inr (w, c, signalled) \<Longrightarrow>
    thread_step net s
      (s\<lparr>ep := (ep s)\<lparr>proc := w\<rparr>, pc := c, waiting := waiting s \<and> \<not> signalled\<rparr>)"
| beside: "aside_step net s s' \<Longrightarrow> thread_step net s s'"

inductive threads_run :: "threads \<Rightarrow> threads \<Rightarrow> threads \<Rightarrow> threads \<Rightarrow> bool" for l0 r0 where
  start: "threads_run l0 r0 l0 r0"
| left: "threads_run l0 r0 l r \<Longrightarrow> thread_step (datagrams (ep r)) l l' \<Longrightarrow> threads_run l0 r0 l' r"
| right: "threads_run l0 r0 l r \<Longrightarrow> thread_step (datagrams (ep l)) r r' \<Longrightarrow> threads_run l0 r0 l r'"

text \<open>Right after the handshake: the thread enters its loop.\<close>

definition enters :: "host \<Rightarrow> threads" where
  "enters w = \<lparr>ep = established w, pc = Check_death, waiting = False\<rparr>"

lemma enters_simps [simp]:
  "ep (enters w) = established w" "pc (enters w) = Check_death" "\<not> waiting (enters w)"
  by (simp_all add: enters_def)


section \<open>What the sections do\<close>

lemma take_datagram_ok:
  assumes "inbox w = (from, peer_packet src dst seq ack flags adv p) # rest" and "length p + 25 < 2 ^ 16"
  shows "take_datagram w = Inr (upd_sock (\<lambda>s. s\<lparr>conn := from\<rparr>) (w\<lparr>inbox := rest\<rparr>),
    Some (peer_packet src dst seq ack flags adv p))"
  using peek_then_recv [OF assms] by (auto simp: take_datagram_def)

lemma handle_header_ok:
  assumes ok: "sb_wf (send_buf (sock w))" "sb_room (send_buf (sock w))"
    and ack: "ack_admissible (send_buf (sock w)) ack" and len: "length p + 25 < 2 ^ 16"
  shows "\<exists>w'. handle_header w (peer_packet src dst seq ack ACK_FLAG_MASK adv p) = Inr (w', of_nat (length p))
    \<and> (ack = last_ack_received (window (sock w)) \<and> send_buf (sock w') = send_buf (sock w)
       \<or> send_buffer_update_ack (clock w) (send_buf (sock w)) ack = Inr (send_buf (sock w')))
    \<and> last_ack_received (window (sock w')) = MAX_u32 (last_ack_received (window (sock w))) ack
    \<and> next_seq_expected (window (sock w')) = next_seq_expected (window (sock w))
    \<and> recv_buf (sock w') = recv_buf (sock w) \<and> segs w' = segs w \<and> outbox w' = outbox w \<and> inbox w' = inbox w"
proof -
  obtain w1 where w1: "handle_ack w ack = Inr w1" "segs w1 = segs w" "inbox w1 = inbox w"
    "outbox w1 = outbox w" "recv_buf (sock w1) = recv_buf (sock w)"
    "next_seq_expected (window (sock w1)) = next_seq_expected (window (sock w))"
    "last_ack_received (window (sock w1)) = MAX_u32 (last_ack_received (window (sock w))) ack"
    "ack = last_ack_received (window (sock w)) \<and> send_buf (sock w1) = send_buf (sock w)
      \<or> send_buffer_update_ack (clock w) (send_buf (sock w)) ack = Inr (send_buf (sock w1))"
    using handle_ack_ok [OF ok ack] takes_ackD by blast
  have "handle_header w (peer_packet src dst seq ack ACK_FLAG_MASK adv p) =
      Inr (upd_window (\<lambda>v. v\<lparr>rcvd_advertised_window := adv\<rparr>) w1, of_nat (length p))"
    by (simp add: handle_header_def peer_packet_fields [OF len] flag_tests w1(1) Let_def)
  then show ?thesis using w1(2-8) by simp
qed

lemma store_data_ok:
  assumes ok: "rb_ok (recv_buf (sock w)) (segs w) xs" and ne: "p \<noteq> []"
    and len: "length p + 25 < 2 ^ 16" "unat seq + length p < 2 ^ 32"
  shows "\<exists>w' st. store_data w (peer_packet src dst seq ack flags adv p) (of_nat (length p)) = Inr (w', st)
    \<and> (\<not> st \<longrightarrow> recv_buf (sock w') = recv_buf (sock w) \<and> segs w' = segs w)
    \<and> send_buf (sock w') = send_buf (sock w)
    \<and> last_ack_received (window (sock w')) = last_ack_received (window (sock w))
    \<and> outbox w' = outbox w \<and> inbox w' = inbox w
    \<and> next_seq_expected (window (sock w')) = get_next_byte_expected_seqnum (recv_buf (sock w'))
    \<and> takes_segment (recv_buf (sock w)) (segs w) (unat seq) p (recv_buf (sock w')) (segs w')"
proof -
  note f = peer_packet_fields [OF len(1)]
  let ?n = "ucast (of_nat (length p) :: u16) :: u32"
  let ?pk = "peer_packet src dst seq ack flags adv p"
  have n: "unat ?n = length p" using f(8) by simp
  obtain rb' h' where r: "(if recv_buffer_can_receive (recv_buf (sock w)) seq ?n = 0
       then bindF (recv_buffer_receive (recv_buf (sock w)) (segs w) seq ?n p) (\<lambda>(rb, h).
              Inr (upd_sock (\<lambda>s. s\<lparr>recv_buf := rb\<rparr>) (w\<lparr>segs := h\<rparr>)))
       else Inr w) = Inr (upd_sock (\<lambda>s. s\<lparr>recv_buf := rb'\<rparr>) (w\<lparr>segs := h'\<rparr>))"
    "takes_segment (recv_buf (sock w)) (segs w) (unat seq) p rb' h'"
    using receive_if_new [OF ok ne n len(2)] by blast
  show ?thesis
  proof (cases "recv_buffer_can_receive (recv_buf (sock w)) seq ?n = 0")
    case True
    then obtain rb2 h2 where "recv_buffer_receive (recv_buf (sock w)) (segs w) seq ?n p = Inr (rb2, h2)"
      using r(1) by auto
    moreover from this True r(1) have "recv_buf (sock (upd_sock (\<lambda>s. s\<lparr>recv_buf := rb2\<rparr>) (w\<lparr>segs := h2\<rparr>))) = rb'"
      "segs (upd_sock (\<lambda>s. s\<lparr>recv_buf := rb2\<rparr>) (w\<lparr>segs := h2\<rparr>)) = h'" by simp_all
    ultimately show ?thesis using True r(2)
      by (intro exI [of _ "upd_window (\<lambda>v. v\<lparr>next_seq_expected := get_next_byte_expected_seqnum rb'\<rparr>)
            (upd_sock (\<lambda>s. s\<lparr>recv_buf := rb'\<rparr>) (w\<lparr>segs := h'\<rparr>))"] exI [of _ True])
        (simp add: store_data_def f)
  next
    case False
    then have "w = upd_sock (\<lambda>s. s\<lparr>recv_buf := rb'\<rparr>) (w\<lparr>segs := h'\<rparr>)" using r(1) by simp
    then have "recv_buf (sock w) = rb'" "segs w = h'"
      by (metis upd_sock_simps(1) cmu_socket_t.select_convs(4) cmu_socket_t.surjective cmu_socket_t.update_convs(4),
          metis upd_sock_simps(2) host.select_convs(2) host.surjective host.update_convs(2))
    then show ?thesis using False r(2) by (auto simp: store_data_def f)
  qed
qed

text \<open>The answer carries the number stored in the window, whatever the application did since.\<close>

definition answer_packet :: "host \<Rightarrow> sockaddr_in \<times> u8 list" where
  "answer_packet w = (conn (sock w),
     peer_packet (my_port (sock w)) (ntohs (sin_port (conn (sock w)))) (last_ack_received (window (sock w)))
       (next_seq_expected (window (sock w))) ACK_FLAG_MASK (ucast (recv_buffer_max_receive (recv_buf (sock w)))) [])"

lemma send_pure_ack_any: "send_pure_ack w = Inr (w\<lparr>outbox := outbox w @ [answer_packet w]\<rparr>)"
  using make_packet_ok [of 0 "[]" w _ _ ACK_FLAG_MASK]
  by (simp add: send_pure_ack_def answer_packet_def peer_packet_def sendto_def)

lemma answer_packet_valid:
  assumes "receiving j t e"
  shows "valid_datagram i s j (next_seq e) (snd (answer_packet (proc e)))"
  unfolding valid_datagram_def answer_packet_def snd_conv
  by (intro exI conjI, rule refl) (use assms in \<open>simp add: valid_fields_def segment_of_def receiving_def\<close>)

text \<open>No section but those for an arriving packet touches the receive buffer; none closes the socket.\<close>

lemma sendto_frame:
  "sendto w p n = Inr w' \<Longrightarrow> sock w' = sock w \<and> segs w' = segs w \<and> prefix (outbox w) (outbox w')"
  by (auto simp: sendto_def split: option.splits if_splits)

lemma send_buffer_capacity:
  "send_buffer_dump sb k n d = Inr (sb', p) \<Longrightarrow> s_capacity sb' = s_capacity sb"
  "send_buffer_update_ack tv sb ack = Inr sb' \<Longrightarrow> s_capacity sb' = s_capacity sb"
  by (auto simp: send_buffer_dump_def send_buffer_update_ack_def Let_def split: if_splits)

lemma send_fresh_frame:
  "send_fresh w a n = Inr w' \<Longrightarrow> recv_buf (sock w') = recv_buf (sock w) \<and> segs w' = segs w
    \<and> dying (sock w') = dying (sock w) \<and> initialized (sock w') = initialized (sock w)
    \<and> s_capacity (send_buf (sock w')) = s_capacity (send_buf (sock w)) \<and> prefix (outbox w) (outbox w')"
proof (induction w a n rule: send_fresh.induct)
  case (1 w a n)
  show ?case
  proof (cases "n > 0")
    case False
    then show ?thesis using "1.prems" by (subst (asm) send_fresh.simps) simp
  next
    case True
    with "1.prems" obtain i sb p m w1 where st: "umod (last_byte_sent_index (send_buf (sock w)) + 1) (s_capacity (send_buf (sock w))) = Inr i"
      "send_buffer_dump (send_buf (sock w)) i (ucast (segment_len n)) (malloc (mem_junk w) (unat (segment_len n))) = Inr (sb, p)"
      "make_packet (upd_sock (\<lambda>s. s\<lparr>send_buf := sb\<rparr>) w) (get_last_byte_sent_seqnum (send_buf (sock w)) + 1)
         (next_seq_expected (window (sock (upd_sock (\<lambda>s. s\<lparr>send_buf := sb\<rparr>) w)))) (hdr_len + segment_len n)
         ACK_FLAG_MASK a p (segment_len n) = Inr m"
      "sendto (upd_sock (\<lambda>s. s\<lparr>send_buf := sb\<rparr>) w) m (hdr_len + segment_len n) = Inr w1"
      "send_fresh w1 a (n - ucast (segment_len n)) = Inr w'"
      by (subst (asm) send_fresh.simps) (auto simp: Let_def)
    from "1.IH" [OF True refl refl refl st(1,2) refl refl st(3,4,5)] sendto_frame [OF st(4)] send_buffer_capacity(1) [OF st(2)]
    show ?thesis by (simp, metis prefix_order.trans)
  qed
qed

lemma resend_loop_frame:
  "resend_loop w a i q m n = Inr w' \<Longrightarrow> sock w' = sock w \<and> segs w' = segs w \<and> prefix (outbox w) (outbox w')"
proof (induction w a i q m n rule: resend_loop.induct)
  case (1 w a i q m n)
  show ?case
  proof (cases "n > 0")
    case False
    then show ?thesis using "1.prems" by (subst (asm) resend_loop.simps) simp
  next
    case True
    with "1.prems" obtain c p w1 where st: "umod (i + m) (s_capacity (send_buf (sock w))) = Inr c"
      "make_packet w (q + m) (next_seq_expected (window (sock w))) (hdr_len + segment_len n) ACK_FLAG_MASK a
         (get_buf_at_index_send (send_buf (sock w)) c) (segment_len n) = Inr p"
      "sendto w p (hdr_len + segment_len n) = Inr w1"
      "resend_loop w1 a i q (m + ucast (segment_len n)) (n - ucast (segment_len n)) = Inr w'"
      by (subst (asm) resend_loop.simps) (auto simp: Let_def)
    from "1.IH" [OF True st(1) refl refl refl st(2,3,4)] sendto_frame [OF st(3)]
    show ?thesis by (simp, metis prefix_order.trans)
  qed
qed

lemma backend_send_frame:
  assumes "backend_send w = Inr w'"
  shows "recv_buf (sock w') = recv_buf (sock w) \<and> segs w' = segs w \<and> dying (sock w') = dying (sock w)
    \<and> initialized (sock w') = initialized (sock w)
    \<and> s_capacity (send_buf (sock w')) = s_capacity (send_buf (sock w)) \<and> prefix (outbox w) (outbox w')"
  using assms
  by (auto simp: backend_send_def multiple_send_def resend_unacknowledged_def Let_def
      split: if_splits dest!: send_fresh_frame resend_loop_frame sendto_frame)


section \<open>The invariant\<close>

text \<open>The packet in the hands of the thread is one of the peer's, like those that have arrived.\<close>

fun held :: "u32 \<Rightarrow> u8 list \<Rightarrow> u32 \<Rightarrow> nat \<Rightarrow> control \<Rightarrow> bool" where
  "held j t i ex (Handle pkt) \<longleftrightarrow> valid_datagram j t i ex pkt"
| "held j t i ex (Store pkt n) \<longleftrightarrow> (\<exists>src dst seq ack adv p.
     pkt = peer_packet src dst seq ack ACK_FLAG_MASK adv p \<and> n = of_nat (length p) \<and> p \<noteq> []
     \<and> valid_fields j t i ex seq ack ACK_FLAG_MASK p)"
| "held j t i ex _ \<longleftrightarrow> True"

lemma held_mono:
  assumes "held j t i ex c" and "prefix t t'" and "ex \<le> ex'"
  shows "held j t' i ex' c"
  using assms(1)
proof (cases c)
  case (Handle pkt)
  then show ?thesis using assms valid_datagram_mono by simp
next
  case (Store pkt n)
  then show ?thesis using assms(1) valid_fields_mono [OF _ assms(2,3)] unfolding Store held.simps by blast
qed simp_all

lemma receive_section:
  assumes "sending i e" "receiving j t e" "base_seq e < ex"
    and inb: "\<forall>d \<in> arrived e. valid_datagram j t i ex d"
    and sec: "thread_section Receive (proc e) = Inr (w, c, sg)"
  shows "goes_on i j t ex e (e\<lparr>proc := w\<rparr>) \<and> arrived (e\<lparr>proc := w\<rparr>) \<subseteq> arrived e \<and> held j t i ex c"
proof (cases "inbox (proc e)")
  case Nil
  then have "w = proc e" "c = Transmit" using sec by (auto simp: take_datagram_def recvfrom_peek_def)
  then show ?thesis using assms(1-3) by (auto intro!: goes_on_frame)
next
  case (Cons x rest)
  obtain "from" d where x: "x = (from, d)" by (cases x)
  then have d: "d \<in> arrived e" using Cons by (simp add: arrived_def)
  then obtain src dst seq ack flags adv p where p: "d = peer_packet src dst seq ack flags adv p"
    and "valid_fields j t i ex seq ack flags p" using inb unfolding valid_datagram_def by blast
  then have "length p + 25 < 2 ^ 16" by (simp add: valid_fields_def)
  from take_datagram_ok [OF Cons [unfolded x p] this] sec
  have w: "w = upd_sock (\<lambda>s. s\<lparr>conn := from\<rparr>) ((proc e)\<lparr>inbox := rest\<rparr>)" "c = Handle d" using p by auto
  have "goes_on i j t ex e (e\<lparr>proc := w\<rparr>)"
    unfolding w by (rule goes_on_frame [OF assms(1-3)]) simp_all
  moreover have "arrived (e\<lparr>proc := w\<rparr>) \<subseteq> arrived e" using Cons by (auto simp: w arrived_def)
  ultimately show ?thesis using d inb w by auto
qed

lemma handle_section:
  assumes s: "sending i e" and r: "receiving j t e" and b: "base_seq e < ex"
    and exb: "ex \<le> unat i + 1 + length (sent e)"
    and bd: "unat i + length (wrote e) + MSS < 2 ^ 32"
    and h: "held j t i ex (Handle pkt)"
    and sec: "thread_section (Handle pkt) (proc e) = Inr (w, c, sg)"
  shows "goes_on i j t ex e (e\<lparr>proc := w\<rparr>) \<and> arrived (e\<lparr>proc := w\<rparr>) = arrived e \<and> held j t i ex c"
proof -
  obtain src dst seq ack flags adv p where p: "pkt = peer_packet src dst seq ack flags adv p"
    and v: "valid_fields j t i ex seq ack flags p" using h by (auto simp: valid_datagram_def)
  have lp: "length p + 25 < 2 ^ 16" using v by (simp add: valid_fields_def)
  have "flags AND ACK_FLAG_MASK \<noteq> 0 \<and> flags AND SYN_FLAG_MASK = 0"
    using sec by (auto simp: p handle_header_def peer_packet_fields [OF lp] Let_def)
  then have fl: "flags = ACK_FLAG_MASK" and ack: "unat i < unat ack" "unat ack \<le> ex"
    using v unfolding valid_fields_def by blast+
  have adm: "ack_admissible (sb_of e) ack"
    using ack_is_admissible [OF s ack(1) _ bd] ack(2) exb by simp
  have "sb_wf (sb_of e)" "sb_room (sb_of e)" using s sending_room [OF s bd] by (simp_all add: sending_def)
  from handle_header_ok [OF this adm lp, of src dst seq adv] sec
  have m: "ack = last_ack_received (window (sock (proc e))) \<and> send_buf (sock w) = sb_of e
      \<or> send_buffer_update_ack (clock (proc e)) (sb_of e) ack = Inr (send_buf (sock w))"
    "last_ack_received (window (sock w)) = MAX_u32 (last_ack_received (window (sock (proc e)))) ack"
    "next_seq_expected (window (sock w)) = next_seq_expected (window (sock (proc e)))"
    "recv_buf (sock w) = rb_of e" "segs w = segs (proc e)" "outbox w = outbox (proc e)" "inbox w = inbox (proc e)"
    and c: "c = (if (of_nat (length p) :: u16) \<noteq> 0 then Store pkt (of_nat (length p)) else Transmit)"
    unfolding p fl by auto
  let ?e = "e\<lparr>proc := w\<rparr>"
  have "sending i ?e \<and> sent ?e = sent e \<and> base_seq ?e < ex"
    by (rule sending_after_ack [OF s b exb ack bd, where tv = "clock (proc e)"]) (simp_all add: m)
  moreover have "receiving j t ?e" "next_seq ?e = next_seq e"
    using receiving_frame [OF r, of ?e] m by simp_all
  ultimately have "goes_on i j t ex e ?e" by (simp add: goes_on_def datagrams_def m)
  moreover have "held j t i ex c"
  proof (cases "(of_nat (length p) :: u16) = 0")
    case False
    then have "p \<noteq> []" by auto
    then have "held j t i ex (Store pkt (of_nat (length p)))" using v p unfolding fl held.simps by blast
    then show ?thesis using c False by simp
  qed (use c in simp)
  ultimately show ?thesis using c m by (simp add: arrived_def)
qed

lemma store_section:
  assumes s: "sending i e" and r: "receiving j t e" and b: "base_seq e < ex"
    and bj: "unat j + length t + MSS < 2 ^ 32"
    and h: "held j t i ex (Store pkt n)"
    and sec: "thread_section (Store pkt n) (proc e) = Inr (w, c, sg)"
  shows "goes_on i j t ex e (e\<lparr>proc := w\<rparr>) \<and> arrived (e\<lparr>proc := w\<rparr>) = arrived e \<and> c = Answer
    \<and> rcap (recv_buf (sock w)) = rcap (rb_of e)"
proof -
  obtain src dst seq ack adv p where p: "pkt = peer_packet src dst seq ack ACK_FLAG_MASK adv p"
    "n = of_nat (length p)" "p \<noteq> []"
    and v: "valid_fields j t i ex seq ack ACK_FLAG_MASK p" using h by auto
  have sg: "segment_of j t seq p" and lp: "length p + 25 < 2 ^ 16"
    using v by (auto simp: valid_fields_def flag_tests)
  have sq: "unat seq + length p < 2 ^ 32"
    using sg bj unat_u32_less [of seq] by (auto simp: segment_of_def)
  obtain xs where "rb_ok (rb_of e) (segs (proc e)) xs" using r by (auto simp: receiving_def)
  from store_data_ok [OF this p(3) lp sq, of src dst ack ACK_FLAG_MASK adv] sec
  have m: "send_buf (sock w) = sb_of e" "last_ack_received (window (sock w)) = last_ack_received (window (sock (proc e)))"
    "outbox w = outbox (proc e)" "inbox w = inbox (proc e)"
    "next_seq_expected (window (sock w)) = get_next_byte_expected_seqnum (recv_buf (sock w))"
    "takes_segment (rb_of e) (segs (proc e)) (unat seq) p (recv_buf (sock w)) (segs w)"
    and c: "c = Answer"
    unfolding p by auto
  let ?e = "e\<lparr>proc := w\<rparr>"
  have "receiving j t ?e" "next_seq e \<le> next_seq ?e"
    using receiving_segment [OF r sg, of ?e] m(5,6) by simp_all
  moreover have "sending i ?e" "sent ?e = sent e" "base_seq ?e = base_seq e"
    using s m by (simp_all add: sending_def acked_to_def sent_def base_seq_def)
  ultimately have "goes_on i j t ex e ?e" using b by (simp add: goes_on_def datagrams_def m)
  then show ?thesis using c m by (simp add: arrived_def takes_segment_def)
qed

lemma answer_section:
  assumes s: "sending i e" and r: "receiving j t e" and b: "base_seq e < ex"
    and sec: "thread_section Answer (proc e) = Inr (w, c, sg)"
  shows "goes_on i j t ex e (e\<lparr>proc := w\<rparr>) \<and> arrived (e\<lparr>proc := w\<rparr>) = arrived e \<and> c = Transmit"
proof -
  have w: "w = (proc e)\<lparr>outbox := outbox (proc e) @ [answer_packet (proc e)]\<rparr>" "c = Transmit"
    using sec by (simp_all add: send_pure_ack_any)
  let ?e = "e\<lparr>proc := w\<rparr>"
  have "sending i ?e" "sent ?e = sent e" "base_seq ?e = base_seq e" "receiving j t ?e" "next_seq ?e = next_seq e"
    using s r by (simp_all add: w sending_def acked_to_def sent_def base_seq_def receiving_def next_seq_def)
  moreover have "d \<in> datagrams e \<or> d = snd (answer_packet (proc e))" if "d \<in> datagrams ?e" for d
    using that by (auto simp: datagrams_def w)
  ultimately have "goes_on i j t ex e ?e"
    using b answer_packet_valid [OF r] by (auto simp: goes_on_def)
  then show ?thesis using w by (simp add: arrived_def)
qed


text \<open>The steps beside the backend are those of \<open>System\<close>.\<close>

lemma cmu_write_turn_frame:
  "cmu_write_turn w buf written len = Inr (w', written', len') \<Longrightarrow>
    recv_buf (sock w') = recv_buf (sock w) \<and> outbox w' = outbox w \<and> dying (sock w') = dying (sock w)"
  by (auto simp: cmu_write_turn_def Let_def split: if_splits)

lemma cmu_read_frame:
  "cmu_read w buf len flags = Inr (w', buf', n) \<Longrightarrow>
    r_capacity (recv_buf (sock w')) = r_capacity (recv_buf (sock w)) \<and> outbox w' = outbox w
      \<and> send_buf (sock w') = send_buf (sock w) \<and> dying (sock w') = dying (sock w)"
  by (auto simp: cmu_read_def recv_buffer_read_def Let_def split: if_splits)

lemma aside_step_cases:
  assumes "aside_step net s s'"
  obtains (aside) "endpoint_step net (ep s) (ep s')" "pc s' = pc s" "waiting s' = waiting s"
      "recv_buf (sock (proc (ep s'))) = rb_of (ep s) \<or> app_free s"
      "sb_of (ep s') = sb_of (ep s) \<or> app_free s"
      "dying (sock (proc (ep s))) \<noteq> 0 \<longrightarrow> dying (sock (proc (ep s'))) \<noteq> 0"
      "datagrams (ep s') = datagrams (ep s)" "rcap (rb_of (ep s')) = rcap (rb_of (ep s))"
  | (wait) "s' = s\<lparr>waiting := waiting s'\<rparr>"
      "waiting s' \<Longrightarrow> recv_buffer_max_read (rb_of (ep s)) = 0"
  using assms
proof cases
  case (app_write buf written len w written' len')
  have "endpoint_step net (ep s) (ep s')" unfolding app_write(1)
    using endpoint_step.app_write [OF app_write(4-7)] by simp
  with app_write cmu_write_turn_frame [OF app_write(4)] show ?thesis
    by (intro aside) (simp_all add: app_free_def datagrams_def)
next
  case (app_read buf len flags w buf' n)
  have "endpoint_step net (ep s) (ep s')" unfolding app_read(1)
    using endpoint_step.app_read [OF app_read(3-5)] by simp
  with app_read cmu_read_frame [OF app_read(3)] show ?thesis
    by (intro aside) (simp_all add: app_free_def datagrams_def rcap_def)
next
  case (app_close w)
  have "endpoint_step net (ep s) (ep s')" unfolding app_close(1)
    using endpoint_step.app_close [OF app_close(3)] by simp
  moreover have "w = upd_sock (\<lambda>s. s\<lparr>dying := 1\<rparr>) (proc (ep s))"
    using app_close(3) by (auto simp: cmu_close_request_def split: if_splits)
  ultimately show ?thesis using app_close by (intro aside) (simp_all add: app_free_def datagrams_def)
next
  case (arrive d sender)
  have "endpoint_step net (ep s) (ep s')" unfolding arrive(1)
    using endpoint_step.arrive [OF arrive(2)] by simp
  with arrive show ?thesis by (intro aside) (simp_all add: datagrams_def)
next
  case (tick tv)
  have "endpoint_step net (ep s) (ep s')" unfolding tick(1)
    using endpoint_step.tick [of net "ep s" tv] by simp
  with tick show ?thesis by (intro aside) (simp_all add: datagrams_def)
qed (use wait in auto)

lemma thread_step_cases:
  assumes "thread_step net s s'"
  obtains (backend) w c sg where "thread_section (pc s) (proc (ep s)) = Inr (w, c, sg)"
      "s' = s\<lparr>ep := (ep s)\<lparr>proc := w\<rparr>, pc := c, waiting := waiting s \<and> \<not> sg\<rparr>"
  | (aside) "endpoint_step net (ep s) (ep s')" "pc s' = pc s" "waiting s' = waiting s"
      "recv_buf (sock (proc (ep s'))) = rb_of (ep s) \<or> app_free s"
      "sb_of (ep s') = sb_of (ep s) \<or> app_free s"
      "dying (sock (proc (ep s))) \<noteq> 0 \<longrightarrow> dying (sock (proc (ep s'))) \<noteq> 0"
      "datagrams (ep s') = datagrams (ep s)" "rcap (rb_of (ep s')) = rcap (rb_of (ep s))"
  | (wait) "s' = s\<lparr>waiting := waiting s'\<rparr>"
      "waiting s' \<Longrightarrow> recv_buffer_max_read (rb_of (ep s)) = 0"
  using assms
proof cases
  case backend
  then show ?thesis using that(1) by blast
next
  case beside
  then show ?thesis by (cases rule: aside_step_cases) (use that in blast)+
qed

lemma thread_step_goes_on:
  assumes step: "thread_step net s s'" and e: "sending i (ep s)" "receiving j t (ep s)" "base_seq (ep s) < ex"
    and exb: "ex \<le> unat i + 1 + length (sent (ep s))"
    and bi: "unat i + length (wrote (ep s')) + MSS < 2 ^ 32" and bj: "unat j + length t + MSS < 2 ^ 32"
    and inb: "\<forall>d \<in> net \<union> arrived (ep s). valid_datagram j t i ex d"
    and h: "held j t i ex (pc s)"
  shows "goes_on i j t ex (ep s) (ep s') \<and> arrived (ep s') \<subseteq> arrived (ep s) \<union> net \<and> held j t i ex (pc s')"
  using step
proof (cases rule: thread_step_cases)
  case (backend w c sg)
  have ep: "ep s' = (ep s)\<lparr>proc := w\<rparr>" "pc s' = c" using backend(2) by simp_all
  then have bd: "unat i + length (wrote (ep s)) + MSS < 2 ^ 32" using bi by simp
  have same: "goes_on i j t ex (ep s) (ep s)" using e by (intro goes_on_frame) simp_all
  show ?thesis
  proof (cases "pc s")
    case Receive
    then show ?thesis using receive_section [OF e, of w c sg] inb backend(1) ep by auto
  next
    case (Handle pkt)
    then show ?thesis using handle_section [OF e exb bd, of pkt w c sg] h backend(1) ep by auto
  next
    case (Store pkt n)
    then show ?thesis using store_section [OF e bj, of pkt n w c sg] h backend(1) ep by auto
  next
    case Answer
    then show ?thesis using answer_section [OF e, of w c sg] backend(1) ep by auto
  next
    case Transmit
    then show ?thesis using goes_on_transmit [OF e bd, of w] backend(1) ep by (auto simp: arrived_def)
  next
    case (Check_empty d)
    then show ?thesis using same backend(1) ep by (auto simp: Let_def split: if_splits)
  next
    case Check_death
    then have "w = proc (ep s)" "c = Check_empty (dying (sock (proc (ep s))))" using backend(1) by auto
    then show ?thesis using same ep by simp
  qed (use same backend(1) ep in auto)
next
  case aside
  then show ?thesis using endpoint_step_goes_on [OF aside(1) e exb bi bj inb] h by simp
next
  case wait
  have "ep s' = ep s" "pc s' = pc s" by (subst wait(1), simp)+
  then show ?thesis using e h by (auto intro!: goes_on_frame)
qed


section \<open>Both processes\<close>

definition threads_linked :: "u32 \<Rightarrow> u32 \<Rightarrow> threads \<Rightarrow> threads \<Rightarrow> bool" where
  "threads_linked i j l r \<longleftrightarrow> linked i j (ep l) (ep r)
     \<and> held j (sent (ep r)) i (next_seq (ep r)) (pc l) \<and> held i (sent (ep l)) j (next_seq (ep l)) (pc r)"

lemma threads_linked_sym: "threads_linked i j l r \<longleftrightarrow> threads_linked j i r l"
  using linked_sym by (auto simp: threads_linked_def)

lemma thread_step_wrote:
  assumes "thread_step net s s'"
  shows "prefix (wrote (ep s)) (wrote (ep s'))"
  using assms
proof (cases rule: thread_step_cases)
  case aside
  then show ?thesis by (intro step_wrote)
next
  case wait
  then have "ep s' = ep s" by (metis threads.select_convs(1) threads.surjective threads.update_convs(3))
  then show ?thesis by simp
qed simp

lemma threads_linked_goes_on:
  assumes lk: "threads_linked i j l r"
    and g: "goes_on i j (sent (ep r)) (next_seq (ep r)) (ep l) (ep l')"
    and a: "arrived (ep l') \<subseteq> arrived (ep l) \<union> datagrams (ep r)"
    and h: "held j (sent (ep r)) i (next_seq (ep r)) (pc l')"
  shows "threads_linked i j l' r"
proof -
  have L: "linked i j (ep l) (ep r)" and hr: "held i (sent (ep l)) j (next_seq (ep l)) (pc r)"
    using lk by (simp_all add: threads_linked_def)
  have "prefix (sent (ep l)) (sent (ep l'))" "next_seq (ep l) \<le> next_seq (ep l')"
    using g by (simp_all add: goes_on_def)
  then show ?thesis using linked_goes_on [OF L g a] h held_mono [OF hr] by (simp add: threads_linked_def)
qed

lemma threads_linked_step:
  assumes lk: "threads_linked i j l r" and step: "thread_step (datagrams (ep r)) l l'"
    and bi: "unat i + length (wrote (ep l')) + MSS < 2 ^ 32" and bj: "unat j + length (wrote (ep r)) + MSS < 2 ^ 32"
  shows "threads_linked i j l' r"
proof -
  have e: "sending i (ep l)" "receiving j (sent (ep r)) (ep l)" "base_seq (ep l) < next_seq (ep r)"
    "receiving i (sent (ep l)) (ep r)"
    and h: "held j (sent (ep r)) i (next_seq (ep r)) (pc l)"
    and inb: "\<forall>d \<in> datagrams (ep r) \<union> arrived (ep l). valid_datagram j (sent (ep r)) i (next_seq (ep r)) d"
    using lk by (auto simp: threads_linked_def linked_def linked_to_def)
  have "unat j + length (sent (ep r)) + MSS < 2 ^ 32" using bj by (simp add: sent_def)
  from thread_step_goes_on [OF step e(1-3) readable_prefix(3) [OF e(4)] bi this inb h]
  show ?thesis using threads_linked_goes_on [OF lk] by blast
qed

lemma threads_run_linked:
  assumes "threads_run l0 r0 l r" and "threads_linked i j l0 r0"
    and "unat i + length (wrote (ep l)) + MSS < 2 ^ 32" and "unat j + length (wrote (ep r)) + MSS < 2 ^ 32"
  shows "threads_linked i j l r"
  using assms
proof (induction rule: threads_run.induct)
  case start
  then show ?case by simp
next
  case (left l r l')
  have "length (wrote (ep l)) \<le> length (wrote (ep l'))"
    using left.hyps(2) by (intro prefix_length_le thread_step_wrote)
  then show ?case using left by (intro threads_linked_step [OF _ left.hyps(2)]) simp_all
next
  case (right l r r')
  have "length (wrote (ep r)) \<le> length (wrote (ep r'))"
    using right.hyps(2) by (intro prefix_length_le thread_step_wrote)
  then have "threads_linked j i r l" using right threads_linked_sym by simp
  from threads_linked_step [OF this right.hyps(2)] right.prems show ?case by (simp add: threads_linked_sym)
qed

end
