(* ===== verification/Thread_Facts.thy ===== *)
theory Thread_Facts
  imports Threads
begin

text \<open>
  What the two threads guarantee each other: a reader that waits has nothing to read, the
  thread ends only when the send buffer is empty, a section never fails on ordinary packets;
  and the loop of the C function, undisturbed, is a run of the sections.
\<close>

section \<open>Waiting\<close>

text \<open>Whatever changes the receive buffer signals.\<close>

lemma take_datagram_frame:
  "take_datagram w = Inr (w', p) \<Longrightarrow> recv_buf (sock w') = recv_buf (sock w) \<and> dying (sock w') = dying (sock w)
    \<and> initialized (sock w') = initialized (sock w) \<and> s_capacity (send_buf (sock w')) = s_capacity (send_buf (sock w))"
  by (auto simp: take_datagram_def recvfrom_peek_def recv_packet_def split: list.splits if_splits)

lemma handle_header_frame:
  "handle_header w p = Inr (w', n) \<Longrightarrow> recv_buf (sock w') = recv_buf (sock w) \<and> dying (sock w') = dying (sock w)
    \<and> initialized (sock w') = initialized (sock w) \<and> s_capacity (send_buf (sock w')) = s_capacity (send_buf (sock w))"
  by (auto simp: handle_header_def handle_ack_def Let_def upd_window_def dest: send_buffer_capacity split: if_splits)

lemma store_data_frame:
  "store_data w p n = Inr (w', sg) \<Longrightarrow> (\<not> sg \<longrightarrow> recv_buf (sock w') = recv_buf (sock w)) \<and> dying (sock w') = dying (sock w)
    \<and> initialized (sock w') = initialized (sock w) \<and> s_capacity (send_buf (sock w')) = s_capacity (send_buf (sock w))"
  by (auto simp: store_data_def upd_window_def split: if_splits)

lemma thread_section_frame:
  assumes "thread_section c w = Inr (w', c', sg)"
  shows "(\<not> sg \<longrightarrow> recv_buf (sock w') = recv_buf (sock w)) \<and> dying (sock w') = dying (sock w)
    \<and> initialized (sock w') = initialized (sock w) \<and> s_capacity (send_buf (sock w')) = s_capacity (send_buf (sock w))"
  using assms
  by (cases c) (auto simp: Let_def send_pure_ack_any
      dest!: take_datagram_frame handle_header_frame store_data_frame backend_send_frame)

lemma waits_step:
  assumes step: "thread_step net s s'"
    and w: "waiting s \<longrightarrow> recv_buffer_max_read (rb_of (ep s)) = 0"
  shows "waiting s' \<longrightarrow> recv_buffer_max_read (rb_of (ep s')) = 0"
  using step
proof (cases rule: thread_step_cases)
  case (backend v c sg)
  then show ?thesis using thread_section_frame [OF backend(1)] w by auto
next
  case aside
  then show ?thesis using w by (auto simp: app_free_def)
next
  case wait
  then have "ep s' = ep s" by (metis threads.select_convs(1) threads.surjective threads.update_convs(3))
  then show ?thesis using wait(2) by simp
qed

section \<open>Ending\<close>

definition drained :: "threads \<Rightarrow> bool" where
  "drained s \<longleftrightarrow> dying (sock (proc (ep s))) \<noteq> 0 \<and> q_inflight (sb_abs (sb_of (ep s))) = []
     \<and> q_fresh (sb_abs (sb_of (ep s))) = []"

fun ends_well :: "control \<Rightarrow> threads \<Rightarrow> bool" where
  "ends_well (Check_empty death) s \<longleftrightarrow> (death \<noteq> 0 \<longrightarrow> dying (sock (proc (ep s))) \<noteq> 0)"
| "ends_well Ended s \<longleftrightarrow> drained s"
| "ends_well c s \<longleftrightarrow> True"

lemma ends_well_step:
  assumes step: "thread_step net s s'" and wf: "sb_wf (sb_of (ep s))" and w: "ends_well (pc s) s"
  shows "ends_well (pc s') s'"
  using step
proof (cases rule: thread_step_cases)
  case (backend v c sg)
  have fr: "dying (sock v) = dying (sock (proc (ep s)))" using thread_section_frame [OF backend(1)] by simp
  have "c = Ended \<longrightarrow> v = proc (ep s) \<and> (\<exists>d. pc s = Check_empty d \<and> d \<noteq> 0
      \<and> get_unacknowledged_count (sb_of (ep s)) + send_buffer_max_new_dump (sb_of (ep s)) = 0)"
    and "\<forall>d. c = Check_empty d \<longrightarrow> d = dying (sock (proc (ep s)))"
    using backend(1) by (cases "pc s"; auto simp: Let_def split: option.splits if_splits)+
  then have "ends_well c s'"
    using w fr backend(2) queue_empty [OF wf] by (cases c) (auto simp: drained_def)
  then show ?thesis using backend(2) by simp
next
  case aside
  show ?thesis
  proof (cases "pc s")
    case (Check_empty d)
    then show ?thesis using w aside by auto
  next
    case Ended
    then have "\<not> app_free s" using w by (simp add: drained_def app_free_def)
    then show ?thesis using w aside Ended by (auto simp: drained_def)
  qed (use aside in simp_all)
next
  case wait
  then have "ep s' = ep s" "pc s' = pc s"
    by (metis threads.select_convs threads.surjective threads.update_convs(3))+
  then show ?thesis using w by (cases "pc s") (auto simp: drained_def)
qed

section \<open>Sections that succeed\<close>

lemma section_succeeds:
  assumes lk: "threads_linked i j l r"
    and bi: "unat i + length (wrote (ep l)) + MSS < 2 ^ 32" and bj: "unat j + length (wrote (ep r)) + MSS < 2 ^ 32"
    and "pc l \<noteq> Ended" and "pc l \<noteq> Transmit"
    and fl: "\<And>pkt. pc l = Handle pkt \<Longrightarrow> get_flags pkt = Inr ACK_FLAG_MASK"
  shows "\<exists>x. thread_section (pc l) (proc (ep l)) = Inr x"
proof (cases "pc l")
  case Receive
  have inb: "\<forall>d \<in> arrived (ep l). valid_datagram j (sent (ep r)) i (next_seq (ep r)) d"
    using lk by (auto simp: threads_linked_def linked_def linked_to_def)
  show ?thesis
  proof (cases "inbox (proc (ep l))")
    case Nil
    then show ?thesis using Receive by (auto simp: take_datagram_def recvfrom_peek_def)
  next
    case (Cons x rest)
    obtain "from" d where x: "x = (from, d)" by (cases x)
    then have "d \<in> arrived (ep l)" using Cons by (simp add: arrived_def)
    then obtain src dst seq ack flags adv p where p: "d = peer_packet src dst seq ack flags adv p"
      and "valid_fields j (sent (ep r)) i (next_seq (ep r)) seq ack flags p"
      using inb unfolding valid_datagram_def by blast
    then have "length p + 25 < 2 ^ 16" by (simp add: valid_fields_def)
    from take_datagram_ok [OF Cons [unfolded x p] this] Receive show ?thesis by auto
  qed
next
  case (Handle pkt)
  have l: "sending i (ep l)" "next_seq (ep r) \<le> unat i + 1 + length (sent (ep l))"
    using lk readable_prefix(3) by (auto simp: threads_linked_def linked_def linked_to_def)
  obtain src dst seq ack flags adv p where p: "pkt = peer_packet src dst seq ack flags adv p"
    and v: "valid_fields j (sent (ep r)) i (next_seq (ep r)) seq ack flags p"
    using lk Handle by (auto simp: threads_linked_def valid_datagram_def)
  have lp: "length p + 25 < 2 ^ 16" using v by (simp add: valid_fields_def)
  then have f: "flags = ACK_FLAG_MASK" using fl [OF Handle] p peer_packet_fields(1) by simp
  then have ack: "unat i < unat ack" "unat ack \<le> next_seq (ep r)"
    using v by (auto simp: valid_fields_def flag_tests)
  have "ack_admissible (sb_of (ep l)) ack" using ack_is_admissible [OF l(1) ack(1) _ bi] ack(2) l(2) by simp
  with l(1) sending_room [OF l(1) bi] lp show ?thesis
    using handle_header_ok [of "proc (ep l)" ack p src dst seq adv] Handle p f by (auto simp: sending_def)
next
  case (Store pkt n)
  obtain src dst seq ack adv p where p: "pkt = peer_packet src dst seq ack ACK_FLAG_MASK adv p"
    "n = of_nat (length p)" "p \<noteq> []"
    and v: "valid_fields j (sent (ep r)) i (next_seq (ep r)) seq ack ACK_FLAG_MASK p"
    using lk Store by (auto simp: threads_linked_def)
  have lp: "length p + 25 < 2 ^ 16" using v by (simp add: valid_fields_def)
  have "length (sent (ep r)) \<le> length (wrote (ep r))" by (simp add: sent_def)
  then have sq: "unat seq + length p < 2 ^ 32"
    using v bj unat_u32_less [of seq] by (auto simp: valid_fields_def segment_of_def flag_tests)
  obtain xs where "rb_ok (rb_of (ep l)) (segs (proc (ep l))) xs"
    using lk by (auto simp: threads_linked_def linked_def linked_to_def receiving_def)
  from store_data_ok [OF this p(3) lp sq, of src dst ack ACK_FLAG_MASK adv] Store p show ?thesis by auto
qed (use assms in \<open>auto simp: send_pure_ack_any Let_def\<close>)

section \<open>The loop as it is written\<close>

text \<open>The thread comes, with no other step in between, to \<open>c\<close> with the process in the state \<open>w\<close>.\<close>

definition reaches :: "u8 list set \<Rightarrow> threads \<Rightarrow> control \<Rightarrow> host \<Rightarrow> bool" where
  "reaches net s c w \<longleftrightarrow> (\<exists>s'. (thread_step net)\<^sup>*\<^sup>* s s' \<and> pc s' = c \<and> proc (ep s') = w
     \<and> wrote (ep s') = wrote (ep s) \<and> got (ep s') = got (ep s))"

lemma reaches_start: "reaches net s (pc s) (proc (ep s))"
  unfolding reaches_def by blast

lemma reaches_section:
  assumes "reaches net s c w" and "thread_section c w = Inr (w', c', sg)"
  shows "reaches net s c' w'"
proof -
  obtain s1 where s1: "(thread_step net)\<^sup>*\<^sup>* s s1" "pc s1 = c" "proc (ep s1) = w"
    "wrote (ep s1) = wrote (ep s)" "got (ep s1) = got (ep s)" using assms(1) unfolding reaches_def by blast
  let ?s = "s1\<lparr>ep := (ep s1)\<lparr>proc := w'\<rparr>, pc := c', waiting := waiting s1 \<and> \<not> sg\<rparr>"
  have "thread_step net s1 ?s" by (rule thread_step.backend) (simp add: s1 assms(2))
  then have "(thread_step net)\<^sup>*\<^sup>* s ?s" using s1(1) by simp
  then show ?thesis unfolding reaches_def using s1 by (intro exI [of _ ?s]) simp
qed

lemma reaches_received:
  assumes at: "reaches net s Receive w0" and "check_for_data w0 NO_WAIT = Inr w"
  shows "reaches net s Transmit w"
proof -
  obtain w1 p where t: "take_datagram w0 = Inr (w1, p)"
    "(case p of None \<Rightarrow> Inr w1 | Some pkt \<Rightarrow> handle_message w1 pkt) = Inr w"
    using assms(2) unfolding check_for_data_sections by auto
  then have "thread_section Receive w0 = Inr (w1, case p of None \<Rightarrow> Transmit | Some pkt \<Rightarrow> Handle pkt, False)"
    by simp
  then have r1: "reaches net s (case p of None \<Rightarrow> Transmit | Some pkt \<Rightarrow> Handle pkt) w1"
    by (rule reaches_section [OF at])
  show ?thesis
  proof (cases p)
    case None
    then show ?thesis using r1 t(2) by simp
  next
    case (Some pkt)
    then obtain w2 n where h: "handle_header w1 pkt = Inr (w2, n)"
      "(if n \<noteq> 0 then bindF (store_data w2 pkt n) (\<lambda>(w, _). send_pure_ack w) else Inr w2) = Inr w"
      using t(2) unfolding handle_message_sections by auto
    have r2: "reaches net s (if n \<noteq> 0 then Store pkt n else Transmit) w2"
      by (rule reaches_section [where c = "Handle pkt" and w = w1 and sg = False]) (use r1 Some h(1) in simp_all)
    show ?thesis
    proof (cases "n = 0")
      case True
      then show ?thesis using r2 h(2) by simp
    next
      case False
      then obtain w3 st where st: "store_data w2 pkt n = Inr (w3, st)" "send_pure_ack w3 = Inr w"
        using h(2) by auto
      have "reaches net s Answer w3"
        by (rule reaches_section [where c = "Store pkt n" and w = w2 and sg = st]) (use r2 False st in simp_all)
      then show ?thesis by (rule reaches_section [where sg = False]) (simp add: st(2))
    qed
  qed
qed

lemma reaches_turn:
  assumes "reaches net s Check_death w" and "\<not> backend_ends w"
    and "check_for_data w NO_WAIT = Inr w1" and "backend_send w1 = Inr w2"
  shows "reaches net s Check_death w2"
proof -
  have "reaches net s (Check_empty (dying (sock w))) w" by (rule reaches_section [OF assms(1), where sg = False]) simp
  then have "reaches net s Receive w"
    by (rule reaches_section [where sg = False]) (use assms(2) in \<open>auto simp: Let_def backend_ends_def\<close>)
  then have "reaches net s Transmit w1" by (rule reaches_received [OF _ assms(3)])
  then have "reaches net s Wake w2" by (rule reaches_section [where sg = False]) (simp add: assms(4))
  then show ?thesis by (rule reaches_section) (rule thread_section.simps)
qed

lemma reaches_end:
  assumes "reaches net s Check_death w" and "backend_ends w"
  shows "reaches net s Ended w"
proof -
  have "reaches net s (Check_empty (dying (sock w))) w" by (rule reaches_section [OF assms(1), where sg = False]) simp
  then show ?thesis by (rule reaches_section [where sg = False]) (use assms(2) in \<open>simp add: Let_def backend_ends_def\<close>)
qed

text \<open>
  What happens between two turns of the loop is steps of the application and the network
  while the thread stands at the top of its loop.
\<close>

definition besides :: "u8 list set \<Rightarrow> (host \<Rightarrow> host res) \<Rightarrow> bool" where
  "besides net f \<longleftrightarrow> (\<forall>s w. pc s = Check_death \<longrightarrow> f (proc (ep s)) = Inr w \<longrightarrow>
     (\<exists>s'. (thread_step net)\<^sup>*\<^sup>* s s' \<and> pc s' = Check_death \<and> proc (ep s') = w))"

lemma backend_loop_run:
  assumes "backend_loop others (proc (ep s)) = Inr w" and "pc s = Check_death"
    and "\<forall>f \<in> set others. besides net f"
  shows "\<exists>s'. (thread_step net)\<^sup>*\<^sup>* s s' \<and> pc s' = Ended \<and> proc (ep s') = w"
  using assms
proof (induction others arbitrary: s)
  case Nil
  have at: "reaches net s Check_death (proc (ep s))" using reaches_start [of net s] Nil.prems(2) by simp
  have "backend_ends (proc (ep s))" "w = proc (ep s)"
    using Nil.prems(1) by (auto simp: backend_loop.simps split: if_splits)
  then show ?case using reaches_end [OF at] unfolding reaches_def by blast
next
  case (Cons f others)
  have at: "reaches net s Check_death (proc (ep s))" using reaches_start [of net s] Cons.prems(2) by simp
  show ?case
  proof (cases "backend_ends (proc (ep s))")
    case True
    then have "w = proc (ep s)" using Cons.prems(1) by (auto simp: backend_loop.simps)
    then show ?thesis using reaches_end [OF at True] unfolding reaches_def by blast
  next
    case False
    obtain w1 w2 w3 where st: "check_for_data (proc (ep s)) NO_WAIT = Inr w1" "backend_send w1 = Inr w2"
      "f w2 = Inr w3" "backend_loop others w3 = Inr w"
      using Cons.prems(1) False by (subst (asm) backend_loop.simps) auto
    obtain s1 where s1: "(thread_step net)\<^sup>*\<^sup>* s s1" "pc s1 = Check_death" "proc (ep s1) = w2"
      using reaches_turn [OF at False st(1,2)] unfolding reaches_def by blast
    have "besides net f" using Cons.prems(3) by simp
    then obtain s2 where s2: "(thread_step net)\<^sup>*\<^sup>* s1 s2" "pc s2 = Check_death" "proc (ep s2) = w3"
      using s1(2,3) st(3) unfolding besides_def by blast
    then obtain s3 where s3: "(thread_step net)\<^sup>*\<^sup>* s2 s3" "pc s3 = Ended" "proc (ep s3) = w"
      using Cons.IH [of s2] st(4) Cons.prems(3) by auto
    have "(thread_step net)\<^sup>*\<^sup>* s s3"
      by (rule rtranclp_trans [OF s1(1) rtranclp_trans [OF s2(1) s3(1)]])
    then show ?thesis using s3 by blast
  qed
qed

end
