(* ===== verification/Windows.thy ===== *)
theory Windows
  imports Thread_Facts
begin

text \<open>
  What the two threads put on the wire: packets of the declared format, and windows that are
  kept. The window of an answer is computed after the data was stored, with the application's
  reads in between, the one of data while it reads; it never promises more than there is.
\<close>

section \<open>The packets of a section\<close>

text \<open>A packet that carries the current acknowledgement and window.\<close>

definition announces :: "endpoint \<Rightarrow> u8 list \<Rightarrow> bool" where
  "announces e d \<longleftrightarrow> (\<exists>src dst seq p. length p \<le> MSS \<and> d = peer_packet src dst seq
     (next_seq_expected (window (sock (proc e)))) ACK_FLAG_MASK (ucast (recv_buffer_max_receive (rb_of e))) p)"

lemma announces_data:
  "length p \<le> MSS \<Longrightarrow> announces e (snd (data_packet (proc e) (ucast (recv_buffer_max_receive (rb_of e))) (seq, p)))"
  unfolding announces_def data_packet_def peer_packet_def by auto

lemma transmit_announces:
  assumes s: "sending i e" and bi: "unat i + length (wrote e) + MSS < 2 ^ 32"
    and w: "backend_send (proc e) = Inr w"
    and d: "d \<in> datagrams (e\<lparr>proc := w\<rparr>)" "d \<notin> datagrams e"
  shows "announces e d"
proof -
  let ?q = "sb_abs (sb_of e)" and ?adv = "ucast (recv_buffer_max_receive (rb_of e)) :: u16"
  have wf: "sb_wf (sb_of e)" and c: "cap (sb_of e) \<le> MSS" using s by (auto elim: sendingE)
  have new: "d \<in> snd ` set ps" if "outbox w = outbox (proc e) @ ps" for ps
    using d that by (auto simp: datagrams_def)
  show ?thesis
  proof (cases "get_unacknowledged_count (sb_of e) > 0 \<and> backend_send (proc e) = resend_unacknowledged (proc e)")
    case True
    then have ne: "q_inflight ?q \<noteq> []"
      using length_abs(1) [OF wf] unacked_count [OF wf] by (auto simp: word_less_nat_alt)
    obtain n where "w = (proc e)\<lparr>outbox := outbox (proc e) @ [data_packet (proc e) ?adv
        (q_base ?q + 1, take n (q_inflight ?q))]\<rparr>"
      using resend_unacknowledged_ok [OF wf c ne] w True by (auto split: if_splits)
    then have "d = snd (data_packet (proc e) ?adv (q_base ?q + 1, take n (q_inflight ?q)))"
      using new [of "[data_packet (proc e) ?adv (q_base ?q + 1, take n (q_inflight ?q))]"] by simp
    moreover have "length (take n (q_inflight ?q)) \<le> MSS"
      using sb_wfD(7,8) [OF wf] c by (simp add: length_abs [OF wf])
    ultimately show ?thesis using announces_data by simp
  next
    case False
    then have m: "multiple_send (proc e) = Inr w" using w by (auto simp: backend_send_def split: if_splits)
    define n where "n = min (length (q_fresh ?q))
        (unat (rcvd_advertised_window (window (sock (proc e)))) - length (q_inflight ?q))"
    let ?cs = "cut_segments (get_last_byte_sent_seqnum (sb_of e) + 1) (take n (q_fresh ?q))"
    obtain sb' where "w = (proc e)\<lparr>sock := (sock (proc e))\<lparr>send_buf := sb'\<rparr>,
          outbox := outbox (proc e) @ map (data_packet (proc e) ?adv) ?cs\<rparr>"
      using multiple_send_ok [OF wf sending_room [OF s bi]] m unfolding n_def [symmetric]
      by (auto split: if_splits)
    then have "d \<in> snd ` set (map (data_packet (proc e) ?adv) ?cs)" by (intro new) simp
    then obtain seq p where "(seq, p) \<in> set ?cs" "d = snd (data_packet (proc e) ?adv (seq, p))" by auto
    then show ?thesis using cut_segments_MSS announces_data by blast
  qed
qed

lemma section_outbox:
  assumes "thread_section c w = Inr (w', c', sg)" and "c \<noteq> Answer" and "c \<noteq> Transmit"
  shows "outbox w' = outbox w"
  using assms
  by (cases c) (auto simp: Let_def take_datagram_def recvfrom_peek_def recv_packet_def handle_header_def
      handle_ack_def store_data_def upd_window_def split: list.splits if_splits)

lemma section_sends:
  assumes "thread_section c w = Inr (w', c', sg)"
  shows "prefix (outbox w) (outbox w')"
proof (cases "c = Answer \<or> c = Transmit")
  case True
  then show ?thesis using assms by (auto simp: send_pure_ack_any dest: backend_send_frame)
qed (use section_outbox [OF assms] in auto)

lemma step_announces:
  assumes step: "thread_step net s s'" and e: "sending i (ep s)"
    and bi: "unat i + length (wrote (ep s)) + MSS < 2 ^ 32"
    and d: "d \<in> datagrams (ep s')" "d \<notin> datagrams (ep s)"
  shows "announces (ep s) d \<and> recv_buf (sock (proc (ep s'))) = rb_of (ep s)"
  using step
proof (cases rule: thread_step_cases)
  case (backend w c sg)
  then have ep: "ep s' = (ep s)\<lparr>proc := w\<rparr>" by simp
  show ?thesis
  proof (cases "pc s")
    case Answer
    then have "w = (proc (ep s))\<lparr>outbox := outbox (proc (ep s)) @ [answer_packet (proc (ep s))]\<rparr>"
      using backend(1) by (simp add: send_pure_ack_any)
    then have "d = snd (answer_packet (proc (ep s)))" "recv_buf (sock w) = rb_of (ep s)"
      using d ep by (auto simp: datagrams_def)
    then show ?thesis using ep
      unfolding announces_def answer_packet_def snd_conv by (metis le0 list.size(3) endpoint.select_convs(1) endpoint.surjective endpoint.update_convs(1))
  next
    case Transmit
    then have "backend_send (proc (ep s)) = Inr w" using backend(1) by auto
    then show ?thesis using transmit_announces [OF e bi, of w d] d ep backend_send_frame by simp
  qed (use section_outbox [OF backend(1)] d ep in \<open>auto simp: datagrams_def\<close>)
next
  case aside
  then show ?thesis using d by simp
next
  case wait
  then have "ep s' = ep s" by (metis threads.select_convs(1) threads.surjective threads.update_convs(3))
  then show ?thesis using d by simp
qed


section \<open>Promises\<close>

lemma step_got: "endpoint_step net e e' \<Longrightarrow> prefix (got e) (got e')"
  by (induction rule: endpoint_step.induct) auto

text \<open>The right edge of the window never moves back.\<close>

lemma step_edge:
  assumes step: "thread_step net l l'" and lk: "threads_linked i j l r" and lk': "threads_linked i j l' r"
    and bj: "unat j + length (wrote (ep r)) + MSS < 2 ^ 32"
  shows "read_seq (rb_of (ep l)) + rcap (rb_of (ep l)) \<le> read_seq (rb_of (ep l')) + rcap (rb_of (ep l'))"
proof -
  have e: "sending i (ep l)" "receiving j (sent (ep r)) (ep l)" "base_seq (ep l) < next_seq (ep r)"
    "receiving j (sent (ep r)) (ep l')" and h: "held j (sent (ep r)) i (next_seq (ep r)) (pc l)"
    using lk lk' by (simp_all add: threads_linked_def linked_def linked_to_def)
  have bj': "unat j + length (sent (ep r)) + MSS < 2 ^ 32" using bj by (simp add: sent_def)
  have "prefix (got (ep l)) (got (ep l')) \<and> rcap (rb_of (ep l')) = rcap (rb_of (ep l))"
    using step
  proof (cases rule: thread_step_cases)
    case (backend w c sg)
    have "rcap (recv_buf (sock w)) = rcap (rb_of (ep l))"
    proof (cases "\<exists>pkt n. pc l = Store pkt n")
      case True
      then show ?thesis using store_section [OF e(1-3) bj'] h backend(1) by auto
    next
      case False
      then have "\<not> sg \<or> w = proc (ep l)" using backend(1) by (cases "pc l") (auto simp: Let_def)
      then show ?thesis using thread_section_frame [OF backend(1)] by auto
    qed
    then show ?thesis using backend(2) by simp
  next
    case aside
    then show ?thesis using step_got by blast
  next
    case wait
    then have "ep l' = ep l" by (metis threads.select_convs(1) threads.surjective threads.update_convs(3))
    then show ?thesis by simp
  qed
  then show ?thesis using e(2,4) prefix_length_le by (fastforce simp: receiving_def)
qed

text \<open>
  A packet of the declared format whose acknowledgement and window together do not exceed
  the room of the process that sent it.
\<close>

definition promises :: "endpoint \<Rightarrow> u8 list \<Rightarrow> bool" where
  "promises e d \<longleftrightarrow> (\<exists>src dst seq ack adv p. length p \<le> MSS
     \<and> d = peer_packet src dst seq ack ACK_FLAG_MASK adv p
     \<and> unat ack + unat adv \<le> read_seq (rb_of e) + rcap (rb_of e))"

lemma promises_mono:
  "promises e d \<Longrightarrow> read_seq (rb_of e) + rcap (rb_of e) \<le> read_seq (rb_of e') + rcap (rb_of e') \<Longrightarrow> promises e' d"
  unfolding promises_def by (elim exE conjE, intro exI conjI; (assumption | rule order_trans))

lemma announces_promises:
  assumes "announces e d" and r: "receiving j t e"
  shows "promises e d"
proof -
  have wf: "rb_wf (rb_of e)" using r by (auto simp: receiving_def rb_ok_def)
  have "unat (ucast (recv_buffer_max_receive (rb_of e)) :: u16) \<le> unat (recv_buffer_max_receive (rb_of e))"
    by (simp add: unsigned_ucast_eq unsigned_take_bit_eq take_bit_nat_less_eq_self)
  then have "unat (next_seq_expected (window (sock (proc e)))) + unat (ucast (recv_buffer_max_receive (rb_of e)) :: u16)
      \<le> read_seq (rb_of e) + rcap (rb_of e)"
    using r max_receive [OF wf] rb_wfD(10,11) [OF wf] by (auto simp: receiving_def next_seq_def)
  then show ?thesis using assms(1) unfolding announces_def promises_def by blast
qed

lemma step_promises:
  assumes lk: "threads_linked i j l r" and lk': "threads_linked i j l' r"
    and step: "thread_step net l l'" and bi: "unat i + length (wrote (ep l)) + MSS < 2 ^ 32"
    and bj: "unat j + length (wrote (ep r)) + MSS < 2 ^ 32"
    and old: "\<forall>d \<in> datagrams (ep l). d \<in> D \<or> promises (ep l) d"
  shows "\<forall>d \<in> datagrams (ep l'). d \<in> D \<or> promises (ep l') d"
proof
  fix d assume d: "d \<in> datagrams (ep l')"
  have e: "sending i (ep l)" "receiving j (sent (ep r)) (ep l)"
    using lk by (simp_all add: threads_linked_def linked_def linked_to_def)
  note edge = step_edge [OF step lk lk' bj]
  show "d \<in> D \<or> promises (ep l') d"
  proof (cases "d \<in> datagrams (ep l)")
    case True
    then show ?thesis using old promises_mono edge by blast
  next
    case False
    then have "announces (ep l) d" using step_announces [OF step e(1) bi d] by simp
    then show ?thesis using announces_promises [OF _ e(2)] promises_mono edge by blast
  qed
qed

lemma run_promises:
  assumes "threads_run l0 r0 l r" and "threads_linked i j l0 r0"
    and "unat i + length (wrote (ep l)) + MSS < 2 ^ 32" and "unat j + length (wrote (ep r)) + MSS < 2 ^ 32"
  shows "\<forall>d \<in> datagrams (ep l). d \<in> datagrams (ep l0) \<or> promises (ep l) d"
  using assms
proof (induction rule: threads_run.induct)
  case start
  then show ?case by simp
next
  case (left l r l')
  have le: "length (wrote (ep l)) \<le> length (wrote (ep l'))"
    using left.hyps(2) by (intro prefix_length_le thread_step_wrote)
  then have lk: "threads_linked i j l r" using threads_run_linked [OF left.hyps(1)] left.prems by simp
  have lk': "threads_linked i j l' r"
    using threads_run_linked [OF threads_run.left [OF left.hyps]] left.prems by simp
  show ?case using step_promises [OF lk lk' left.hyps(2)] left le by simp
next
  case (right l r r')
  have "length (wrote (ep r)) \<le> length (wrote (ep r'))"
    using right.hyps(2) by (intro prefix_length_le thread_step_wrote)
  then show ?case using right by simp
qed

text \<open>What fits a promise is accepted, whenever it comes.\<close>

lemma promise_accepted:
  assumes wf: "rb_wf rb" and p: "unat ack + unat adv \<le> read_seq rb + rcap rb"
    and sg: "n \<noteq> 0" "read_seq rb < unat seq" "expected_seq rb < unat seq + unat n"
      "unat seq + unat n \<le> unat ack + unat adv" "unat seq + unat n \<le> 2 ^ 32"
  shows "recv_buffer_can_receive rb seq n = 0"
  using can_receive_cases [OF wf sg(1,5)] sg p by simp

end
