(* ===== verification/Thread_Progress.thy ===== *)
theory Thread_Progress
  imports Thread_Facts
begin

text \<open>
  What the two threads can do lock by lock: the thread comes back to the top of its loop, data
  goes through to the peer's application, lost data is sent again and acknowledged. Each run is
  made of the calls that \<open>deliver\<close> and \<open>recover\<close> name, in the order in which the loop makes them.
\<close>

section \<open>Runs of one side\<close>

lemma threads_run_left_steps:
  assumes "(thread_step (datagrams (ep r)))\<^sup>*\<^sup>* l l'" and "threads_run l0 r0 l r"
  shows "threads_run l0 r0 l' r"
  using assms by (induction rule: rtranclp_induct) (auto intro: threads_run.left)

lemma threads_run_right_steps:
  assumes "(thread_step (datagrams (ep l)))\<^sup>*\<^sup>* r r'" and "threads_run l0 r0 l r"
  shows "threads_run l0 r0 l r'"
  using assms by (induction rule: rtranclp_induct) (auto intro: threads_run.right)

lemma reaches_arrival:
  assumes "reaches net s c w" and "d \<in> net"
  shows "reaches net s c (w\<lparr>inbox := inbox w @ [(from_addr, d)]\<rparr>)"
proof -
  obtain s1 where s1: "(thread_step net)\<^sup>*\<^sup>* s s1" "pc s1 = c" "proc (ep s1) = w"
    "wrote (ep s1) = wrote (ep s)" "got (ep s1) = got (ep s)" using assms(1) unfolding reaches_def by blast
  show ?thesis unfolding reaches_def
    by (intro exI conjI, rule rtranclp.rtrancl_into_rtrancl [OF s1(1) thread_step.beside [OF aside_step.arrive [OF assms(2)]]])
      (simp_all add: s1)
qed

lemma reaches_tick:
  assumes "reaches net s c w"
  shows "reaches net s c (w\<lparr>clock := tv\<rparr>)"
proof -
  obtain s1 where s1: "(thread_step net)\<^sup>*\<^sup>* s s1" "pc s1 = c" "proc (ep s1) = w"
    "wrote (ep s1) = wrote (ep s)" "got (ep s1) = got (ep s)" using assms unfolding reaches_def by blast
  show ?thesis unfolding reaches_def
    by (intro exI conjI, rule rtranclp.rtrancl_into_rtrancl [OF s1(1) thread_step.beside [OF aside_step.tick]]) (simp_all add: s1)
qed

section \<open>Parts of the loop\<close>

lemma reaches_receive:
  assumes "reaches net s Check_death w" and "\<not> backend_ends w"
  shows "reaches net s Receive w"
proof -
  have "reaches net s (Check_empty (dying (sock w))) w" by (rule reaches_section [OF assms(1), where sg = False]) simp
  then show ?thesis
    by (rule reaches_section [where sg = False]) (use assms(2) in \<open>auto simp: Let_def backend_ends_def\<close>)
qed

lemma reaches_idle:
  assumes "reaches net s Receive w" and "inbox w = []"
  shows "reaches net s Transmit w"
  using assms by (intro reaches_received [where ?w0.0 = w]) (simp_all add: check_for_data_def recvfrom_peek_def)

lemma reaches_receipt:
  assumes "reaches net s Receive w" and "receipt w d w'" and "d \<in> net"
  shows "reaches net s Transmit w'"
proof -
  obtain a where "check_for_data (w\<lparr>inbox := inbox w @ [(a, d)]\<rparr>) NO_WAIT = Inr w'"
    using assms(2) unfolding receipt_def by blast
  then show ?thesis by (rule reaches_received [OF reaches_arrival [OF assms(1,3)]])
qed

lemma reaches_sent:
  assumes "reaches net s Transmit w" and "backend_send w = Inr w'"
  shows "reaches net s Check_death w'"
proof -
  have "reaches net s Wake w'" by (rule reaches_section [OF assms(1), where sg = False]) (simp add: assms(2))
  then show ?thesis by (rule reaches_section) (rule thread_section.simps)
qed

lemma receipt_dying:
  assumes "receipt w d w'"
  shows "dying (sock w') = dying (sock w)"
proof -
  have m: "handle_message v p = Inr v' \<Longrightarrow> dying (sock v') = dying (sock v)" for v p v'
    unfolding handle_message_sections
    by (auto simp: send_pure_ack_any split: if_splits dest!: handle_header_frame store_data_frame)
  show ?thesis
    using assms unfolding receipt_def check_for_data_sections
    by (auto split: option.splits dest!: m take_datagram_frame)
qed

text \<open>The application, if it waits, wakes up and reads.\<close>

lemma reaches_read:
  assumes "reaches net s c w" and "takes_out w (got (ep s)) bs" and "dying (sock w) = 0"
  shows "\<exists>s'. (thread_step net)\<^sup>*\<^sup>* s s' \<and> got (ep s') = bs \<and> wrote (ep s') = wrote (ep s)"
proof -
  obtain s1 where s1: "(thread_step net)\<^sup>*\<^sup>* s s1" "proc (ep s1) = w"
    "wrote (ep s1) = wrote (ep s)" "got (ep s1) = got (ep s)" using assms(1) unfolding reaches_def by blast
  obtain k w' b where rd: "cmu_read w (replicate k 0) (int k) NO_WAIT = Inr (w', b, int k)"
    "int k < 2 ^ 31" "got (ep s) @ take k b = bs" using assms(2) unfolding takes_out_def by blast
  let ?s2 = "s1\<lparr>waiting := False\<rparr>"
  let ?s3 = "?s2\<lparr>ep := (ep ?s2)\<lparr>proc := w', got := got (ep ?s2) @ take (nat (int k)) b\<rparr>\<rparr>"
  have "thread_step net s1 ?s2" by (rule thread_step.beside [OF aside_step.app_wakes])
  moreover have "thread_step net ?s2 ?s3"
    by (rule thread_step.beside [OF aside_step.app_read [where buf = "replicate k 0" and len = "int k" and flags = NO_WAIT]])
      (use rd assms(3) s1(2) in \<open>simp_all add: app_free_def\<close>)
  ultimately have "(thread_step net)\<^sup>*\<^sup>* s ?s3" using s1(1) by (meson rtranclp.rtrancl_into_rtrancl)
  then show ?thesis using rd(3) s1 by (intro exI [of _ ?s3]) simp
qed

section \<open>Data goes through, loss is repaired\<close>

lemma threads_deliver_run:
  assumes lk: "threads_linked i j l r"
    and bi: "unat i + length (wrote (ep l)) + MSS < 2 ^ 32" and bj: "unat j + length (wrote (ep r)) + MSS < 2 ^ 32"
    and pc: "pc l = Check_death" "pc r = Check_death"
    and q: "q_inflight (sb_abs (sb_of (ep l))) = []"
    and n: "n = min (length (q_fresh (sb_abs (sb_of (ep l)))))
        (unat (rcvd_advertised_window (window (sock (proc (ep l))))))"
      "0 < n" "dump_safe (sb_of (ep l)) (of_nat n)"
    and ib: "inbox (proc (ep l)) = []" "inbox (proc (ep r)) = []"
    and up: "initialized (sock (proc (ep r)))" "dying (sock (proc (ep r))) = 0"
    and room: "base_seq (ep l) + n < read_seq (rb_of (ep r)) + rcap (rb_of (ep r))"
  shows "\<exists>l' r'. threads_run l r l' r' \<and> wrote (ep l') = wrote (ep l) \<and> wrote (ep r') = wrote (ep r)
    \<and> got (ep r') = sent (ep l) @ take n (q_fresh (sb_abs (sb_of (ep l))))"
proof -
  have L: "linked i j (ep l) (ep r)" using lk by (simp add: threads_linked_def)
  then have wf: "sb_wf (sb_of (ep l))" by (simp add: linked_def linked_to_def sending_def)
  obtain w d w' where st: "backend_send (proc (ep l)) = Inr w" "d \<in> datagrams ((ep l)\<lparr>proc := w\<rparr>)"
    "receipt (proc (ep r)) d w'" "takes_out w' (got (ep r)) (sent (ep l) @ take n (q_fresh (sb_abs (sb_of (ep l)))))"
    using deliver [OF L bi bj q n ib(2) up(1) room] unfolding delivery_def by blast
  have "\<not> backend_ends (proc (ep l))"
    using backend_ends_iff [OF wf] n(1,2) by auto
  moreover have "reaches (datagrams (ep r)) l Check_death (proc (ep l))"
    using reaches_start [of "datagrams (ep r)" l] pc(1) by simp
  ultimately have "reaches (datagrams (ep r)) l Check_death w"
    by (intro reaches_sent [OF reaches_idle [OF reaches_receive] st(1)] ib(1))
  then obtain l' where l': "(thread_step (datagrams (ep r)))\<^sup>*\<^sup>* l l'" "proc (ep l') = w"
    "wrote (ep l') = wrote (ep l)" unfolding reaches_def by blast
  then have d: "d \<in> datagrams (ep l')" using st(2) by (simp add: datagrams_def)
  have "reaches (datagrams (ep l')) r Check_death (proc (ep r))"
    using reaches_start [of "datagrams (ep l')" r] pc(2) by simp
  moreover have "\<not> backend_ends (proc (ep r))" using up(2) by (simp add: backend_ends_def)
  ultimately have "reaches (datagrams (ep l')) r Transmit w'"
    by (intro reaches_receipt [OF reaches_receive st(3) d])
  from reaches_read [OF this st(4)] receipt_dying [OF st(3)] up(2)
  obtain r' where r': "(thread_step (datagrams (ep l')))\<^sup>*\<^sup>* r r'"
    "got (ep r') = sent (ep l) @ take n (q_fresh (sb_abs (sb_of (ep l))))" "wrote (ep r') = wrote (ep r)" by auto
  have "threads_run l r l' r'"
    by (rule threads_run_right_steps [OF r'(1) threads_run_left_steps [OF l'(1) threads_run.start]])
  then show ?thesis using l'(3) r'(2,3) by blast
qed

lemma threads_recover_run:
  assumes lk: "threads_linked i j l r"
    and bi: "unat i + length (wrote (ep l)) + MSS < 2 ^ 32" and bj: "unat j + length (wrote (ep r)) + MSS < 2 ^ 32"
    and pc: "pc l = Check_death" "pc r = Check_death"
    and q: "q_inflight (sb_abs (sb_of (ep l))) \<noteq> []"
    and n: "n = max 1 (min (length (q_inflight (sb_abs (sb_of (ep l)))))
        (unat (rcvd_advertised_window (window (sock (proc (ep l)))))))"
      "(acked_idx (sb_of (ep l)) + 1) mod cap (sb_of (ep l)) + n \<le> cap (sb_of (ep l))"
    and ib: "inbox (proc (ep l)) = []" "inbox (proc (ep r)) = []"
    and up: "initialized (sock (proc (ep l)))" "initialized (sock (proc (ep r)))"
    and on: "\<not> backend_ends (proc (ep r))"
    and room: "base_seq (ep l) + n < read_seq (rb_of (ep r)) + rcap (rb_of (ep r))"
  shows "\<exists>l' r'. threads_run l r l' r' \<and> wrote (ep l') = wrote (ep l) \<and> wrote (ep r') = wrote (ep r)
    \<and> base_seq (ep l) < base_seq (ep l')"
proof -
  have L: "linked i j (ep l) (ep r)" using lk by (simp add: threads_linked_def)
  then have wf: "sb_wf (sb_of (ep l))" by (simp add: linked_def linked_to_def sending_def)
  obtain tv w d w' d' w'' where st: "backend_send ((proc (ep l))\<lparr>clock := tv\<rparr>) = Inr w" "sock w = sock (proc (ep l))"
    "d \<in> datagrams ((ep l)\<lparr>proc := w\<rparr>)" "receipt (proc (ep r)) d w'" "d' \<in> datagrams ((ep r)\<lparr>proc := w'\<rparr>)"
    "receipt w d' w''" "base_seq (ep l) < base_seq ((ep l)\<lparr>proc := w''\<rparr>)"
    using recover [OF L bi bj q n ib up room] unfolding recovery_def by blast
  have on': "\<not> backend_ends (proc (ep l))" "\<not> backend_ends w"
    using backend_ends_iff [OF wf] q st(2) by (auto simp: backend_ends_def)
  have "reaches (datagrams (ep r)) l Check_death (proc (ep l))"
    using reaches_start [of "datagrams (ep r)" l] pc(1) by simp
  then have "reaches (datagrams (ep r)) l Check_death w"
    using reaches_sent [OF reaches_tick [OF reaches_idle [OF reaches_receive]] st(1)] on'(1) ib(1) by blast
  then obtain l1 where l1: "(thread_step (datagrams (ep r)))\<^sup>*\<^sup>* l l1" "pc l1 = Check_death" "proc (ep l1) = w"
    "wrote (ep l1) = wrote (ep l)" unfolding reaches_def by blast
  then have d: "d \<in> datagrams (ep l1)" using st(3) by (simp add: datagrams_def)
  have "reaches (datagrams (ep l1)) r Check_death (proc (ep r))"
    using reaches_start [of "datagrams (ep l1)" r] pc(2) by simp
  then have "reaches (datagrams (ep l1)) r Transmit w'"
    by (intro reaches_receipt [OF reaches_receive st(4) d] on)
  then obtain r1 where r1: "(thread_step (datagrams (ep l1)))\<^sup>*\<^sup>* r r1" "proc (ep r1) = w'"
    "wrote (ep r1) = wrote (ep r)" unfolding reaches_def by blast
  then have d': "d' \<in> datagrams (ep r1)" using st(5) by (simp add: datagrams_def)
  have "reaches (datagrams (ep r1)) l1 Check_death w"
    using reaches_start [of "datagrams (ep r1)" l1] l1(2,3) by simp
  then have "reaches (datagrams (ep r1)) l1 Transmit w''"
    by (intro reaches_receipt [OF reaches_receive st(6) d'] on')
  then obtain l2 where l2: "(thread_step (datagrams (ep r1)))\<^sup>*\<^sup>* l1 l2" "proc (ep l2) = w''"
    "wrote (ep l2) = wrote (ep l1)" unfolding reaches_def by blast
  have "threads_run l r l1 r1"
    by (rule threads_run_right_steps [OF r1(1) threads_run_left_steps [OF l1(1) threads_run.start]])
  from threads_run_left_steps [OF l2(1) this] show ?thesis
    using st(7) l1(4) l2(2,3) r1(3) by (intro exI [of _ l2] exI [of _ r1]) (simp add: base_seq_def)
qed

end
