(* ===== verification/Thread_Theorems.thy ===== *)
theory Thread_Theorems
  imports Windows Thread_Progress
begin

text \<open>
  The properties of two connected processes with two threads each, interleaved at the locks,
  once both are in their main loops: no section that fails on an ordinary packet, windows that
  are kept, data that goes through, loss that is repaired. What holds from \<open>cmu_socket\<close> on is in
  \<open>Session_Theorems\<close>.
\<close>

section \<open>Properties\<close>

text \<open>
  C18: Sections that cannot fail. In every state of a run the next section of a thread, other
  than sending, aborts nowhere, leaves no block and does not wait for a datagram, provided
  that a packet it handles has just the ACK flag: whatever the application did between the
  taking of the packet and the handling of its header, between the header and its data, and
  between the data and the answer.
\<close>

theorem sections_succeed:
  assumes "threads_linked i j l0 r0" and "threads_run l0 r0 l r"
    and "unat i + length (wrote (ep l)) + MSS < 2 ^ 32" and "unat j + length (wrote (ep r)) + MSS < 2 ^ 32"
    and "pc l \<noteq> Ended" and "pc l \<noteq> Transmit"
    and "\<forall>pkt. pc l = Handle pkt \<longrightarrow> get_flags pkt = Inr ACK_FLAG_MASK"
  shows "\<exists>x. thread_section (pc l) (proc (ep l)) = Inr x"
  by (rule section_succeeds [OF threads_run_linked [OF assms(2,1,3,4)] assms(3-6)]) (use assms(7) in blast)


text \<open>
  C10: Data goes through, lock by lock. The threads are at the top of their loops, the sender has
  nothing in flight and fresh bytes that lie in one run, the peer's window is open and its
  buffer has room. Then there is a continuation of sections and one call, in which the
  peer's application has read everything sent before and those bytes.
\<close>

theorem threads_deliver:
  assumes "threads_linked i j l r"
    and "unat i + length (wrote (ep l)) + MSS < 2 ^ 32" and "unat j + length (wrote (ep r)) + MSS < 2 ^ 32"
    and "pc l = Check_death" and "pc r = Check_death"
    and "q_inflight (sb_abs (sb_of (ep l))) = []"
    and "n = min (length (q_fresh (sb_abs (sb_of (ep l)))))
        (unat (rcvd_advertised_window (window (sock (proc (ep l))))))"
    and "0 < n" and "dump_safe (sb_of (ep l)) (of_nat n)"
    and "inbox (proc (ep l)) = []" and "inbox (proc (ep r)) = []"
    and "initialized (sock (proc (ep r)))" and "dying (sock (proc (ep r))) = 0"
    and "base_seq (ep l) + n < read_seq (rb_of (ep r)) + rcap (rb_of (ep r))"
  shows "\<exists>l' r'. threads_run l r l' r' \<and> got (ep r') = sent (ep l) @ take n (q_fresh (sb_abs (sb_of (ep l))))"
  using threads_deliver_run [OF assms] by blast

text \<open>
  C11: Loss is repaired, lock by lock. Bytes are in flight, lie in one run and fit the peer's
  buffer, and whatever became of their packets, nothing has arrived; both threads are at the
  top of their loops and the peer's does not end. Then there is a continuation, in which time
  passes, the bytes are sent again, stored and answered, that leaves the sender with an
  acknowledgement for more than before.
\<close>

theorem threads_recover:
  assumes "threads_linked i j l r"
    and "unat i + length (wrote (ep l)) + MSS < 2 ^ 32" and "unat j + length (wrote (ep r)) + MSS < 2 ^ 32"
    and "pc l = Check_death" and "pc r = Check_death"
    and "q_inflight (sb_abs (sb_of (ep l))) \<noteq> []"
    and "n = max 1 (min (length (q_inflight (sb_abs (sb_of (ep l)))))
        (unat (rcvd_advertised_window (window (sock (proc (ep l)))))))"
    and "(acked_idx (sb_of (ep l)) + 1) mod cap (sb_of (ep l)) + n \<le> cap (sb_of (ep l))"
    and "inbox (proc (ep l)) = []" and "inbox (proc (ep r)) = []"
    and "initialized (sock (proc (ep l)))" and "initialized (sock (proc (ep r)))"
    and "\<not> backend_ends (proc (ep r))"
    and "base_seq (ep l) + n < read_seq (rb_of (ep r)) + rcap (rb_of (ep r))"
  shows "\<exists>l' r'. threads_run l r l' r' \<and> base_seq (ep l) < base_seq (ep l')"
  using threads_recover_run [OF assms] by blast


section \<open>Witnesses\<close>

theorem threads_deliver_witness:
  "\<exists>l' r'. threads_run \<lparr>ep = writing_end sb_example2, pc = Check_death, waiting = False\<rparr>
      \<lparr>ep = quiet_end, pc = Check_death, waiting = True\<rparr> l' r' \<and> got (ep r') = [1, 2, 3]"
proof -
  have "threads_linked 100 100 \<lparr>ep = writing_end sb_example2, pc = Check_death, waiting = False\<rparr>
      \<lparr>ep = quiet_end, pc = Check_death, waiting = True\<rparr>"
    using example_linked [OF fresh_example(1,2)] by (simp add: threads_linked_def)
  moreover have "inbox (sending_host sb_example2) = []" "dying (sock host_example) = 0"
    by (simp_all add: sending_host_def host_example_def)
  ultimately show ?thesis
    using threads_deliver [where n = 3 and l = "\<lparr>ep = writing_end sb_example2, pc = Check_death, waiting = False\<rparr>"
        and r = "\<lparr>ep = quiet_end, pc = Check_death, waiting = True\<rparr>"]
    by (simp add: fresh_example sb_example2_facts host_example_parts rb_example_ok)
qed

theorem threads_recover_witness:
  "\<exists>l' r'. threads_run \<lparr>ep = writing_end sb_sent, pc = Check_death, waiting = False\<rparr>
      \<lparr>ep = quiet_end, pc = Check_death, waiting = False\<rparr> l' r' \<and> 100 < base_seq (ep l')"
proof -
  let ?l = "\<lparr>ep = writing_end sb_sent, pc = Check_death, waiting = False\<rparr>"
    and ?r = "\<lparr>ep = quiet_end, pc = Check_death, waiting = False\<rparr>"
  have "inbox (sending_host sb_sent) = []" "initialized (sock (sending_host sb_sent))"
    "\<not> backend_ends host_example"
    by (simp_all add: sending_host_def host_example_def backend_ends_def)
  moreover have "threads_linked 100 100 ?l ?r"
    using example_linked [OF sent_example] by (simp add: threads_linked_def)
  ultimately have "\<exists>l' r'. threads_run ?l ?r l' r' \<and> base_seq (ep ?l) < base_seq (ep l')"
    by (intro threads_recover [where n = 2 and i = 100 and j = 100])
      (simp_all add: sent_example sb_sent_facts host_example_parts rb_example_ok)
  then show ?thesis by (simp add: sent_example)
qed






text \<open>The pending packet of two bytes taken from the socket, its header about to be handled.\<close>

theorem sections_succeed_witness:
  "\<exists>l pkt x. threads_run \<lparr>ep = pending_end, pc = Receive, waiting = False\<rparr>
      \<lparr>ep = writing_end sb_sent, pc = Check_death, waiting = False\<rparr> l
      \<lparr>ep = writing_end sb_sent, pc = Check_death, waiting = False\<rparr>
    \<and> pc l = Handle pkt \<and> thread_section (Handle pkt) (proc (ep l)) = Inr x"
proof -
  let ?l = "\<lparr>ep = pending_end, pc = Receive, waiting = False\<rparr>"
    and ?r = "\<lparr>ep = writing_end sb_sent, pc = Check_death, waiting = False\<rparr>"
  define pkt where "pkt = peer_packet 5000 1 101 101 ACK_FLAG_MASK 500 [1, 2]"
  have lk: "threads_linked 100 100 ?l ?r" using pending_linked by (simp add: threads_linked_def)
  have ib: "inbox (proc pending_end) = (\<lparr>sin_addr = 1, sin_port = 0\<rparr>, pkt) # []"
    by (simp add: pending_end_def pkt_def)
  obtain w where "take_datagram (proc pending_end) = Inr (w, Some pkt)"
    using take_datagram_ok [OF ib [unfolded pkt_def]] by (auto simp: pkt_def)
  then have "thread_section Receive (proc pending_end) = Inr (w, Handle pkt, False)" by simp
  then have "thread_step (datagrams (ep ?r)) ?l (?l\<lparr>ep := pending_end\<lparr>proc := w\<rparr>, pc := Handle pkt\<rparr>)"
    using thread_step.backend [of ?l w "Handle pkt" False "datagrams (ep ?r)"] by simp
  then have run: "threads_run ?l ?r (?l\<lparr>ep := pending_end\<lparr>proc := w\<rparr>, pc := Handle pkt\<rparr>) ?r"
    by (intro threads_run.left [OF threads_run.start])
  have "get_flags pkt = Inr ACK_FLAG_MASK" using peer_packet_fields(1) [of "[1, 2]"] by (simp add: pkt_def)
  with sections_succeed [OF lk run] have "\<exists>x. thread_section (Handle pkt) w = Inr x"
    by (simp add: pending_end_def)
  then show ?thesis using run by (intro exI [of _ "?l\<lparr>ep := pending_end\<lparr>proc := w\<rparr>, pc := Handle pkt\<rparr>"]) auto
qed

end
