(* ===== verification/Sessions.thy ===== *)
theory Sessions
  imports Windows Thread_Progress
begin

text \<open>
  A whole session: both threads from their first line on. The two functions of the handshake are
  cut into sections like the loop in \<open>Threads\<close>, and the application's calls, which wait for
  \<open>initialized\<close>, come in as soon as the code lets them: on the server's side while the
  handshake is still going on.
\<close>

section \<open>The handshake in sections\<close>

text \<open>\<open>init_handshake_client\<close> up to its loop.\<close>

definition client_starts :: "host \<Rightarrow> (host \<times> u8 list option) res" where
  "client_starts w =
     bindF (assertF (sock_type (sock w) = TCP_INITIATOR)) (\<lambda>_.
     bindF (make_packet w (last_ack_received (window (sock w))) 0 hdr_len SYN_FLAG_MASK
              (of_nat CP1_WINDOW_SIZE) [] 0) (\<lambda>packet.
     bindF (send_syn w packet hdr_len) (\<lambda>w.
       Inr (upd_sock (\<lambda>s. s\<lparr>state := SYN_SENT\<rparr>) w, packet))))"

text \<open>The server's first packet, up to where the application may go on; and the answer to it.\<close>

definition take_syn :: "host \<Rightarrow> (host \<times> u32) res" where
  "take_syn w =
     bindF (recvfrom w sizeof_header) (\<lambda>(hdr, w).
     bindF (assertF (length hdr = sizeof_header)) (\<lambda>_.
     bindF (get_flags hdr) (\<lambda>flags.
     bindF (assertF (flags = SYN_FLAG_MASK)) (\<lambda>_.
     bindF (get_seq hdr) (\<lambda>hdr_seq.
     bindF (recv_buffer_initialize (recv_buf (sock w)) hdr_seq) (\<lambda>rb.
       Inr (upd_sock (\<lambda>s. s\<lparr>recv_buf := rb, initialized := True\<rparr>) w, hdr_seq)))))))"

definition answer_syn :: "host \<Rightarrow> u32 \<Rightarrow> (host \<times> u8 list option) res" where
  "answer_syn w hdr_seq =
     (let w = upd_window (\<lambda>v. v\<lparr>next_seq_expected := hdr_seq + 1\<rparr>) w in
     bindF (make_packet w (last_ack_received (window (sock w))) (next_seq_expected (window (sock w)))
              hdr_len (SYN_FLAG_MASK OR ACK_FLAG_MASK) (of_nat CP1_WINDOW_SIZE) [] 0) (\<lambda>packet.
     bindF (send_syn_ack w packet hdr_len) (\<lambda>w.
       Inr (upd_sock (\<lambda>s. s\<lparr>state := SYN_RCVD\<rparr>) w, packet))))"

text \<open>
  A turn in \<open>SYN_RCVD\<close> up to the call of \<open>handle_message\<close>: the packet that confirms the
  connection, or the answer to another SYN.
\<close>

definition take_confirmation :: "host \<Rightarrow> u8 list option \<Rightarrow> (host \<times> u8 list option) res" where
  "take_confirmation w packet =
     (case recvfrom_peek w sizeof_header of
        None \<Rightarrow> Inl Blocked
      | Some (hdr, w) \<Rightarrow>
          if length hdr = sizeof_header
          then bindF (get_plen hdr) (\<lambda>packet_len.
               bindF (recv_packet w (unat packet_len)) (\<lambda>(pkt, w).
               bindF (get_flags hdr) (\<lambda>flags.
               bindF (get_ack hdr) (\<lambda>hdr_ack.
               if flags AND ACK_FLAG_MASK \<noteq> 0 \<and> hdr_ack = last_ack_received (window (sock w)) + 1
               then Inr (upd_sock (\<lambda>s. s\<lparr>state := ESTABLISHED\<rparr>) w, Some pkt)
               else bindF (assertF (flags AND SYN_FLAG_MASK \<noteq> 0)) (\<lambda>_.
                    bindF (send_syn_ack w packet hdr_len) (\<lambda>w. Inr (w, None)))))))
          else Inr (w, None))"

lemma init_handshake_client_sections:
  "init_handshake_client w polls = bindF (client_starts w) (\<lambda>(w, packet).
     bindF (client_loop w packet hdr_len polls) (\<lambda>w.
       Inr (upd_sock (\<lambda>s. s\<lparr>initialized := True\<rparr>) w)))"
  by (simp add: init_handshake_client_def client_starts_def Let_def)

lemma server_listen_sections:
  "server_listen w = bindF (take_syn w) (\<lambda>(w, hdr_seq). answer_syn w hdr_seq)"
  by (simp add: server_listen_def take_syn_def answer_syn_def Let_def split_def)

lemma server_syn_rcvd_sections:
  "server_syn_rcvd w packet = bindF (take_confirmation w packet)
     (\<lambda>(w, p). case p of None \<Rightarrow> Inr w | Some pkt \<Rightarrow> handle_message w pkt)"
  by (auto simp: server_syn_rcvd_def take_confirmation_def split_def intro!: bindF_cong split: option.splits)

section \<open>The whole thread\<close>

text \<open>
  Where the thread is, with the variables of the handshake: before its first line, in the
  client's loop with the SYN, in \<open>LISTEN\<close>, between the SYN and the answer, in \<open>SYN_RCVD\<close> with
  the SYN-ACK, in the \<open>handle_message\<close> that ends the handshake, in the main loop. In the last
  two the place is refined by the \<open>control\<close> value of \<open>Threads\<close>.
\<close>

datatype stage =
    Starting
  | Calling "u8 list option"
  | Listening
  | Greeting u32
  | Answering "u8 list option"
  | Confirming
  | Running

text \<open>One section of \<open>begin_backend\<close>. \<open>timed_out\<close> is what \<open>poll\<close> says.\<close>

fun session_section :: "bool \<Rightarrow> stage \<Rightarrow> control \<Rightarrow> host \<Rightarrow> (host \<times> stage \<times> control \<times> bool) res" where
  "session_section timed_out Starting c w =
     (if sock_type (sock w) = TCP_INITIATOR
      then bindF (client_starts w) (\<lambda>(w, packet). Inr (w, Calling packet, c, False))
      else Inr (upd_sock (\<lambda>s. s\<lparr>state := LISTEN\<rparr>) w, Listening, c, False))"
| "session_section timed_out (Calling packet) c w =
     bindF (client_turn w packet hdr_len timed_out) (\<lambda>w.
       Inr (if state (sock w) = ESTABLISHED
            then (upd_sock (\<lambda>s. s\<lparr>initialized := True\<rparr>) w, Running, c, False)
            else (w, Calling packet, c, False)))"
| "session_section timed_out Listening c w =
     bindF (take_syn w) (\<lambda>(w, hdr_seq). Inr (w, Greeting hdr_seq, c, False))"
| "session_section timed_out (Greeting hdr_seq) c w =
     bindF (answer_syn w hdr_seq) (\<lambda>(w, packet). Inr (w, Answering packet, c, False))"
| "session_section timed_out (Answering packet) c w =
     bindF (take_confirmation w packet) (\<lambda>(w, p).
       Inr (case p of None \<Rightarrow> (w, Answering packet, c, False)
                    | Some pkt \<Rightarrow> (w, Confirming, Handle pkt, False)))"
| "session_section timed_out Confirming c w =
     bindF (thread_section c w) (\<lambda>(w, c, signalled).
       Inr (if c = Transmit then (w, Running, Check_death, signalled)
            else (w, Confirming, c, signalled)))"
| "session_section timed_out Running c w =
     bindF (thread_section c w) (\<lambda>(w, c, signalled). Inr (w, Running, c, signalled))"

record session =
  thr :: threads
  stage :: stage

abbreviation end_of :: "session \<Rightarrow> endpoint" where "end_of s \<equiv> ep (thr s)"
abbreviation host_of :: "session \<Rightarrow> host" where "host_of s \<equiv> proc (ep (thr s))"

definition moved :: "session \<Rightarrow> host \<Rightarrow> stage \<Rightarrow> control \<Rightarrow> bool \<Rightarrow> session" where
  "moved s w st c signalled = \<lparr>thr = (thr s)\<lparr>ep := (end_of s)\<lparr>proc := w\<rparr>, pc := c,
     waiting := waiting (thr s) \<and> \<not> signalled\<rparr>, stage = st\<rparr>"

lemma moved_simps [simp]:
  "host_of (moved s w st c sg) = w" "wrote (end_of (moved s w st c sg)) = wrote (end_of s)"
  "got (end_of (moved s w st c sg)) = got (end_of s)" "pc (thr (moved s w st c sg)) = c"
  "waiting (thr (moved s w st c sg)) \<longleftrightarrow> waiting (thr s) \<and> \<not> sg" "stage (moved s w st c sg) = st"
  by (simp_all add: moved_def)

inductive session_step :: "u8 list set \<Rightarrow> session \<Rightarrow> session \<Rightarrow> bool" for net where
  backend: "session_section timed_out (stage s) (pc (thr s)) (host_of s) = Inr (w, st, c, signalled) \<Longrightarrow>
    session_step net s (moved s w st c signalled)"
| beside: "aside_step net (thr s) t \<Longrightarrow> session_step net s (s\<lparr>thr := t\<rparr>)"

inductive sessions :: "session \<Rightarrow> session \<Rightarrow> session \<Rightarrow> session \<Rightarrow> bool" for l0 r0 where
  start: "sessions l0 r0 l0 r0"
| left: "sessions l0 r0 l r \<Longrightarrow> session_step (datagrams (end_of r)) l l' \<Longrightarrow> sessions l0 r0 l' r"
| right: "sessions l0 r0 l r \<Longrightarrow> session_step (datagrams (end_of l)) r r' \<Longrightarrow> sessions l0 r0 l r'"

text \<open>The thread has just been started.\<close>

definition opened :: "host \<Rightarrow> session" where
  "opened w = \<lparr>thr = enters w, stage = Starting\<rparr>"

text \<open>In its main loop a session does what \<open>Threads\<close> does.\<close>

lemma running_step:
  assumes "thread_step net u u'" and "stage s = Running"
  shows "session_step net (s\<lparr>thr := u\<rparr>) (s\<lparr>thr := u'\<rparr>)"
  using assms(1)
proof cases
  case (backend w c sg)
  then have "session_section True (stage (s\<lparr>thr := u\<rparr>)) (pc (thr (s\<lparr>thr := u\<rparr>))) (host_of (s\<lparr>thr := u\<rparr>)) =
      Inr (w, Running, c, sg)" using assms(2) by simp
  from session_step.backend [OF this] show ?thesis using assms(2) by (cases s) (simp add: moved_def backend(1))
next
  case beside
  then show ?thesis using session_step.beside [of net "s\<lparr>thr := u\<rparr>" u'] by simp
qed

lemma running_steps:
  assumes "(thread_step net)\<^sup>*\<^sup>* (thr s) u" and "stage s = Running"
  shows "(session_step net)\<^sup>*\<^sup>* s (s\<lparr>thr := u\<rparr>)"
  using assms(1)
proof (induction rule: rtranclp_induct)
  case base
  then show ?case by simp
next
  case (step u u')
  then show ?case using running_step [OF step.hyps(2) assms(2)] by (meson rtranclp.rtrancl_into_rtrancl)
qed

section \<open>The C functions as runs\<close>

text \<open>The thread comes, with no other step in between, to a place with the process in a state.\<close>

definition comes :: "u8 list set \<Rightarrow> session \<Rightarrow> stage \<Rightarrow> control \<Rightarrow> host \<Rightarrow> bool" where
  "comes net s st c w \<longleftrightarrow> (\<exists>s'. (session_step net)\<^sup>*\<^sup>* s s' \<and> stage s' = st \<and> pc (thr s') = c \<and> host_of s' = w)"

lemma comes_section:
  assumes "comes net s st c w" and "session_section timed_out st c w = Inr (w', st', c', sg)"
  shows "comes net s st' c' w'"
proof -
  obtain s1 where s1: "(session_step net)\<^sup>*\<^sup>* s s1" "stage s1 = st" "pc (thr s1) = c" "host_of s1 = w"
    using assms(1) unfolding comes_def by blast
  have "session_step net s1 (moved s1 w' st' c' sg)" using assms(2) s1(2-4) by (intro session_step.backend) simp
  then show ?thesis using s1(1) unfolding comes_def by (intro exI [of _ "moved s1 w' st' c' sg"]) auto
qed

lemma client_loop_comes:
  assumes "client_loop w packet hdr_len polls = Inr w'" and "comes net s (Calling packet) c w"
    and "state (sock w) \<noteq> ESTABLISHED"
  shows "comes net s Running c (upd_sock (\<lambda>s. s\<lparr>initialized := True\<rparr>) w')"
  using assms
proof (induction polls arbitrary: w)
  case Nil
  then show ?case by simp
next
  case (Cons timed_out polls)
  then obtain w1 where w1: "client_turn w packet hdr_len timed_out = Inr w1" "client_loop w1 packet hdr_len polls = Inr w'"
    by auto
  show ?case
  proof (cases "state (sock w1) = ESTABLISHED")
    case True
    then have "w' = w1" using w1(2) by (cases polls) simp_all
    then show ?thesis using True w1(1) by (intro comes_section [OF Cons.prems(2), where sg = False and timed_out = timed_out]) simp
  next
    case False
    have "comes net s (Calling packet) c w1"
      by (rule comes_section [OF Cons.prems(2), where sg = False and timed_out = timed_out]) (use w1(1) False in simp)
    from Cons.IH [OF w1(2) this False] show ?thesis .
  qed
qed

lemma init_handshake_client_comes:
  assumes "init_handshake_client w polls = Inr w'" and "comes net s Starting c w"
  shows "comes net s Running c w'"
proof -
  have ty: "sock_type (sock w) = TCP_INITIATOR" using assms(1) by (auto simp: init_handshake_client_def)
  obtain w1 packet w2 where w1: "client_starts w = Inr (w1, packet)" "client_loop w1 packet hdr_len polls = Inr w2"
    "w' = upd_sock (\<lambda>s. s\<lparr>initialized := True\<rparr>) w2"
    using assms(1) unfolding init_handshake_client_sections by auto
  have "comes net s (Calling packet) c w1"
    by (rule comes_section [OF assms(2), where sg = False]) (use w1(1) ty in simp)
  moreover have "state (sock w1) \<noteq> ESTABLISHED" using w1(1) by (auto simp: client_starts_def)
  ultimately show ?thesis using client_loop_comes [OF w1(2)] w1(3) by simp
qed

lemma confirming_comes:
  assumes "handle_message w pkt = Inr w'" and "comes net s Confirming (Handle pkt) w"
  shows "comes net s Running Check_death w'"
proof -
  obtain w1 n where h: "handle_header w pkt = Inr (w1, n)"
    "(if n \<noteq> 0 then bindF (store_data w1 pkt n) (\<lambda>(w, _). send_pure_ack w) else Inr w1) = Inr w'"
    using assms(1) unfolding handle_message_sections by auto
  show ?thesis
  proof (cases "n = 0")
    case True
    then show ?thesis using h by (intro comes_section [OF assms(2), where sg = False]) simp
  next
    case False
    then obtain w2 sg where d: "store_data w1 pkt n = Inr (w2, sg)" "send_pure_ack w2 = Inr w'" using h(2) by auto
    have "comes net s Confirming (Store pkt n) w1" by (rule comes_section [OF assms(2), where sg = False]) (use h(1) False in simp)
    then have "comes net s Confirming Answer w2" by (rule comes_section [where sg = sg]) (use d(1) in simp)
    then show ?thesis by (rule comes_section [where sg = False]) (use d(2) in simp)
  qed
qed

lemma handle_header_state: "handle_header w p = Inr (w', n) \<Longrightarrow> state (sock w') = state (sock w)"
  by (auto simp: handle_header_def handle_ack_def Let_def upd_window_def split: if_splits)

lemma store_data_state: "store_data w p n = Inr (w', sg) \<Longrightarrow> state (sock w') = state (sock w)"
  by (auto simp: store_data_def upd_window_def split: if_splits)

lemma handle_message_state: "handle_message w pkt = Inr w' \<Longrightarrow> state (sock w') = state (sock w)"
  unfolding handle_message_sections
  by (auto simp: send_pure_ack_any split: if_splits dest!: handle_header_state store_data_state)

lemma take_confirmation_frame:
  "take_confirmation w p = Inr (w', q) \<Longrightarrow>
    state (sock w') = (case q of None \<Rightarrow> state (sock w) | Some pkt \<Rightarrow> ESTABLISHED)
    \<and> recv_buf (sock w') = recv_buf (sock w) \<and> send_buf (sock w') = send_buf (sock w)
    \<and> initialized (sock w') = initialized (sock w) \<and> dying (sock w') = dying (sock w)"
  by (auto simp: take_confirmation_def recvfrom_peek_def recv_packet_def send_syn_ack_def dest!: sendto_frame
      split: list.splits if_splits option.splits)

lemma server_loop_comes:
  assumes "server_loop n w packet = Inr w'" and "comes net s (Answering packet) Check_death w" and "state (sock w) = SYN_RCVD"
  shows "comes net s Running Check_death w'"
  using assms
proof (induction n arbitrary: w)
  case (Suc n)
  then obtain w1 q w2 where st: "take_confirmation w packet = Inr (w1, q)"
    "(case q of None \<Rightarrow> Inr w1 | Some pkt \<Rightarrow> handle_message w1 pkt) = Inr w2" "server_loop n w2 packet = Inr w'"
    unfolding server_loop.simps server_syn_rcvd_sections by auto
  show ?case
  proof (cases q)
    case None
    have "comes net s (Answering packet) Check_death w2"
      by (rule comes_section [OF Suc.prems(2), where sg = False]) (use st None in simp)
    moreover have "state (sock w2) = SYN_RCVD" using take_confirmation_frame [OF st(1)] st(2) Suc.prems(3) None by simp
    ultimately show ?thesis by (rule Suc.IH [OF st(3)])
  next
    case (Some pkt)
    have h: "handle_message w1 pkt = Inr w2" using st(2) Some by simp
    have "comes net s Confirming (Handle pkt) w1"
      by (rule comes_section [OF Suc.prems(2), where sg = False]) (use st(1) Some in simp)
    then have "comes net s Running Check_death w2" by (rule confirming_comes [OF h])
    moreover have "state (sock w2) = ESTABLISHED"
      using handle_message_state [OF h] take_confirmation_frame [OF st(1)] Some by simp
    then have "w' = w2" using st(3) by (cases n) simp_all
    ultimately show ?thesis by simp
  qed
qed simp

lemma init_handshake_server_comes:
  assumes "init_handshake_server w turns = Inr w'" and "comes net s Starting Check_death w"
  shows "comes net s Running Check_death w'"
proof -
  let ?w = "upd_sock (\<lambda>s. s\<lparr>state := LISTEN\<rparr>) w"
  have ty: "sock_type (sock w) = TCP_LISTENER" and lp: "server_loop turns ?w None = Inr w'"
    using assms(1) by (auto simp: init_handshake_server_def)
  obtain n where n: "turns = Suc n" using lp by (cases turns) simp_all
  obtain w1 q w2 p where st: "take_syn ?w = Inr (w1, q)" "answer_syn w1 q = Inr (w2, p)" "server_loop n w2 p = Inr w'"
    using lp unfolding n server_loop.simps server_listen_sections by auto
  have "comes net s Listening Check_death ?w" by (rule comes_section [OF assms(2), where sg = False]) (use ty in simp)
  then have "comes net s (Greeting q) Check_death w1" by (rule comes_section [where sg = False]) (use st(1) in simp)
  then have "comes net s (Answering p) Check_death w2" by (rule comes_section [where sg = False]) (use st(2) in simp)
  moreover have "state (sock w2) = SYN_RCVD" using st(2) by (auto simp: answer_syn_def Let_def)
  ultimately show ?thesis by (rule server_loop_comes [OF st(3)])
qed

lemma begin_backend_run:
  assumes "begin_backend (host_of s) polls turns others = Inr w" and "stage s = Starting" and "pc (thr s) = Check_death"
    and "\<forall>f \<in> set others. besides net f"
  shows "\<exists>s'. (session_step net)\<^sup>*\<^sup>* s s' \<and> stage s' = Running \<and> pc (thr s') = Ended \<and> host_of s' = w"
proof -
  have here: "comes net s Starting Check_death (host_of s)" unfolding comes_def using assms(2,3) by blast
  obtain w1 where w1: "if sock_type (sock (host_of s)) = TCP_INITIATOR then init_handshake_client (host_of s) polls = Inr w1
      else init_handshake_server (host_of s) turns = Inr w1" "backend_loop others w1 = Inr w"
    using assms(1) by (auto simp: begin_backend_def split: if_splits)
  then have "comes net s Running Check_death w1"
    using init_handshake_client_comes [OF _ here] init_handshake_server_comes [OF _ here] by metis
  then obtain s1 where s1: "(session_step net)\<^sup>*\<^sup>* s s1" "stage s1 = Running" "pc (thr s1) = Check_death" "host_of s1 = w1"
    unfolding comes_def by blast
  obtain u where u: "(thread_step net)\<^sup>*\<^sup>* (thr s1) u" "pc u = Ended" "proc (ep u) = w"
    using backend_loop_run [OF _ s1(3) assms(4)] w1(2) s1(4) by blast
  have "(session_step net)\<^sup>*\<^sup>* s (s1\<lparr>thr := u\<rparr>)"
    by (rule rtranclp_trans [OF s1(1) running_steps [OF u(1) s1(2)]])
  then show ?thesis using u s1(2) by (intro exI [of _ "s1\<lparr>thr := u\<rparr>"]) simp
qed

end
