(* ===== verification/Session_Invariant.thy ===== *)
theory Session_Invariant
  imports Sessions
begin

text \<open>
  The invariant of \<open>System\<close> for a session whose handshake may still be going on. Each side is
  seen as if it had completed the handshake with the number its peer will announce; on
  these views every section is a step that \<open>System\<close> and \<open>Threads\<close> know, or none.
\<close>

section \<open>Views\<close>

definition agreed :: "u32 \<Rightarrow> u32 \<Rightarrow> host \<Rightarrow> host" where
  "agreed own peer w = upd_sock (\<lambda>s. s\<lparr>state := ESTABLISHED,
     window := (window s)\<lparr>next_seq_expected := peer + 1, last_ack_received := own + 1\<rparr>\<rparr>) w"

definition completed :: "u32 \<Rightarrow> u32 \<Rightarrow> host \<Rightarrow> host" where
  "completed own peer w = upd_sock (\<lambda>s. s\<lparr>recv_buf := (recv_buf s)\<lparr>last_byte_read_seqnum := peer,
     last_byte_read_index := 0, next_byte_expected_index := 1\<rparr>\<rparr>) (agreed own peer w)"

lemma agreed_simps [simp]:
  "send_buf (sock (agreed own peer w)) = send_buf (sock w)"
  "recv_buf (sock (agreed own peer w)) = recv_buf (sock w)"
  "dying (sock (agreed own peer w)) = dying (sock w)"
  "initialized (sock (agreed own peer w)) = initialized (sock w)"
  "state (sock (agreed own peer w)) = ESTABLISHED"
  "next_seq_expected (window (sock (agreed own peer w))) = peer + 1"
  "last_ack_received (window (sock (agreed own peer w))) = own + 1"
  "segs (agreed own peer w) = segs w" "inbox (agreed own peer w) = inbox w"
  "outbox (agreed own peer w) = outbox w" "clock (agreed own peer w) = clock w"
  by (simp_all add: agreed_def)

lemma completed_simps [simp]:
  "send_buf (sock (completed own peer w)) = send_buf (sock w)"
  "recv_buf (sock (completed own peer w)) = (recv_buf (sock w))\<lparr>last_byte_read_seqnum := peer,
     last_byte_read_index := 0, next_byte_expected_index := 1\<rparr>"
  "dying (sock (completed own peer w)) = dying (sock w)"
  "initialized (sock (completed own peer w)) = initialized (sock w)"
  "next_seq_expected (window (sock (completed own peer w))) = peer + 1"
  "last_ack_received (window (sock (completed own peer w))) = own + 1"
  "segs (completed own peer w) = segs w" "inbox (completed own peer w) = inbox w"
  "outbox (completed own peer w) = outbox w" "clock (completed own peer w) = clock w"
  by (simp_all add: completed_def)

fun seen :: "u32 \<Rightarrow> u32 \<Rightarrow> stage \<Rightarrow> control \<Rightarrow> host \<Rightarrow> host" where
  "seen own peer Starting c w = completed own peer w"
| "seen own peer (Calling p) c w = completed own peer w"
| "seen own peer Listening c w = completed own peer w"
| "seen own peer (Greeting q) c w = agreed own peer w"
| "seen own peer (Answering p) c w = agreed own peer w"
| "seen own peer Confirming c w = (case c of Handle pkt \<Rightarrow> agreed own peer w | _ \<Rightarrow> w)"
| "seen own peer Running c w = w"

definition through :: "(host \<Rightarrow> host) \<Rightarrow> threads \<Rightarrow> threads" where
  "through f s = s\<lparr>ep := (ep s)\<lparr>proc := f (proc (ep s))\<rparr>\<rparr>"

lemma through_simps [simp]:
  "pc (through f s) = pc s" "waiting (through f s) = waiting s" "wrote (ep (through f s)) = wrote (ep s)"
  "got (ep (through f s)) = got (ep s)" "proc (ep (through f s)) = f (proc (ep s))"
  by (simp_all add: through_def)

definition view :: "u32 \<Rightarrow> u32 \<Rightarrow> session \<Rightarrow> threads" where
  "view own peer s = through (seen own peer (stage s) (pc (thr s))) (thr s)"

lemma seen_simps [simp]:
  "send_buf (sock (seen own peer st c w)) = send_buf (sock w)"
  "dying (sock (seen own peer st c w)) = dying (sock w)"
  "initialized (sock (seen own peer st c w)) = initialized (sock w)"
  "segs (seen own peer st c w) = segs w" "inbox (seen own peer st c w) = inbox w"
  "outbox (seen own peer st c w) = outbox w" "clock (seen own peer st c w) = clock w"
  by (cases st; auto split: control.split)+

lemma view_simps [simp]:
  "pc (view own peer s) = pc (thr s)" "waiting (view own peer s) = waiting (thr s)"
  "wrote (ep (view own peer s)) = wrote (end_of s)" "got (ep (view own peer s)) = got (end_of s)"
  "proc (ep (view own peer s)) = seen own peer (stage s) (pc (thr s)) (host_of s)"
  "datagrams (ep (view own peer s)) = datagrams (end_of s)"
  "arrived (ep (view own peer s)) = arrived (end_of s)"
  "sent (ep (view own peer s)) = sent (end_of s)"
  by (simp_all add: view_def datagrams_def arrived_def sent_def)

section \<open>What is known at each place\<close>

definition syns :: "u32 \<Rightarrow> u8 list set" where
  "syns own = {control_header src dst own 0 SYN_FLAG_MASK | src dst. True}"

definition synacks :: "u32 \<Rightarrow> u32 \<Rightarrow> u8 list set" where
  "synacks own peer = {control_header src dst own (peer + 1) (SYN_FLAG_MASK OR ACK_FLAG_MASK) | src dst. True}"

text \<open>The packets of a client: its SYNs, and those that have just the ACK flag.\<close>

definition mild :: "u32 \<Rightarrow> u8 list \<Rightarrow> bool" where
  "mild own d \<longleftrightarrow> d \<in> syns own \<or> get_flags d = Inr ACK_FLAG_MASK"

definition unready :: "u32 \<Rightarrow> host \<Rightarrow> bool" where
  "unready own w \<longleftrightarrow> \<not> initialized (sock w) \<and> last_ack_received (window (sock w)) = own
     \<and> last_byte_read_seqnum (recv_buf (sock w)) = 0
     \<and> counter1 w = 0 \<and> counter2 w = 0 \<and> counter3 w = 0"

fun stage_ok :: "u32 \<Rightarrow> u32 \<Rightarrow> stage \<Rightarrow> threads \<Rightarrow> bool" where
  "stage_ok own peer Starting s \<longleftrightarrow> unready own (proc (ep s)) \<and> datagrams (ep s) = {} \<and> sent (ep s) = []
     \<and> pc s = Check_death"
| "stage_ok own peer (Calling p) s \<longleftrightarrow> unready own (proc (ep s)) \<and> datagrams (ep s) \<subseteq> syns own
     \<and> state (sock (proc (ep s))) \<noteq> ESTABLISHED \<and> (\<exists>d \<in> syns own. p = Some d) \<and> pc s = Check_death"
| "stage_ok own peer Listening s \<longleftrightarrow> unready own (proc (ep s)) \<and> datagrams (ep s) = {} \<and> sent (ep s) = []
     \<and> pc s = Check_death"
| "stage_ok own peer (Greeting q) s \<longleftrightarrow> q = peer \<and> datagrams (ep s) = {} \<and> sent (ep s) = []
     \<and> last_ack_received (window (sock (proc (ep s)))) = own \<and> counter3 (proc (ep s)) = 0 \<and> pc s = Check_death"
| "stage_ok own peer (Answering p) s \<longleftrightarrow> (\<exists>d \<in> synacks own peer. p = Some d) \<and> datagrams (ep s) \<subseteq> synacks own peer
     \<and> sent (ep s) = [] \<and> last_ack_received (window (sock (proc (ep s)))) = own
     \<and> next_seq_expected (window (sock (proc (ep s)))) = peer + 1 \<and> counter3 (proc (ep s)) = 0 \<and> pc s = Check_death"
| "stage_ok own peer Confirming s \<longleftrightarrow> (case pc s of
       Handle pkt \<Rightarrow> get_flags pkt = Inr ACK_FLAG_MASK \<and> get_ack pkt = Inr (own + 1) \<and> last_ack_received (window (sock (proc (ep s)))) = own
         \<and> next_seq_expected (window (sock (proc (ep s)))) = peer + 1 \<and> state (sock (proc (ep s))) = ESTABLISHED
     | Store pkt n \<Rightarrow> True | Answer \<Rightarrow> True | _ \<Rightarrow> False)"
| "stage_ok own peer Running s \<longleftrightarrow> True"

definition local_ok :: "u32 \<Rightarrow> u32 \<Rightarrow> session \<Rightarrow> bool" where
  "local_ok own peer s \<longleftrightarrow> stage_ok own peer (stage s) (thr s)"

section \<open>Steps beside the backend\<close>

lemma cmu_write_turn_agreed:
  assumes "cmu_write_turn w buf written len = Inr (w', x, y)"
  shows "cmu_write_turn (agreed own peer w) buf written len = Inr (agreed own peer w', x, y)"
  using assms by (auto simp: cmu_write_turn_def Let_def agreed_def upd_sock_def split: if_splits)

lemma cmu_read_agreed:
  assumes "cmu_read w buf len flags = Inr (w', b, n)"
  shows "cmu_read (agreed own peer w) buf len flags = Inr (agreed own peer w', b, n)"
  using assms by (auto simp: cmu_read_def Let_def agreed_def upd_sock_def split: if_splits)

lemma cmu_close_request_agreed:
  assumes "cmu_close_request w = Inr w'"
  shows "cmu_close_request (agreed own peer w) = Inr (agreed own peer w')"
  using assms by (auto simp: cmu_close_request_def agreed_def upd_sock_def split: if_splits)

lemma through_waiting: "through f (s\<lparr>waiting := b\<rparr>) = (through f s)\<lparr>waiting := b\<rparr>"
  by (simp add: through_def)

lemma through_ep:
  "through f (s\<lparr>ep := (ep s)\<lparr>proc := w\<rparr>\<rparr>) = (through f s)\<lparr>ep := (ep (through f s))\<lparr>proc := f w\<rparr>\<rparr>"
  "through f (s\<lparr>ep := (ep s)\<lparr>proc := w, wrote := bs\<rparr>\<rparr>) =
     (through f s)\<lparr>ep := (ep (through f s))\<lparr>proc := f w, wrote := bs\<rparr>\<rparr>"
  "through f (s\<lparr>ep := (ep s)\<lparr>proc := w, got := bs\<rparr>\<rparr>) =
     (through f s)\<lparr>ep := (ep (through f s))\<lparr>proc := f w, got := bs\<rparr>\<rparr>"
  by (simp_all add: through_def)

text \<open>A view that commutes with the calls of the application turns such a step into one.\<close>

lemma aside_through:
  assumes "aside_step net s t"
    and f: "\<And>w. inbox (f w) = inbox w" "\<And>w x. f (w\<lparr>inbox := x\<rparr>) = (f w)\<lparr>inbox := x\<rparr>"
      "\<And>w x. f (w\<lparr>clock := x\<rparr>) = (f w)\<lparr>clock := x\<rparr>"
      "\<And>w. dying (sock (f w)) = dying (sock w)" "\<And>w. initialized (sock (f w)) = initialized (sock w)"
    and calls: "initialized (sock (proc (ep s))) \<Longrightarrow> f = agreed own peer"
  shows "aside_step net (through f s) (through f t)"
  using assms(1)
proof cases
  case (app_write buf written len w written' len')
  then have w: "f = agreed own peer" using calls by simp
  show ?thesis
    unfolding app_write(1) through_ep
    using aside_step.app_write [of "through f s" buf written len "f w" written' len' net]
      app_write cmu_write_turn_agreed w by (simp add: app_free_def)
next
  case (app_read buf len flags w b n)
  then have w: "f = agreed own peer" using calls by (auto simp: cmu_read_def split: if_splits)
  show ?thesis
    unfolding app_read(1) through_ep
    using aside_step.app_read [of "through f s" buf len flags "f w" b n net]
      app_read cmu_read_agreed w by (simp add: app_free_def)
next
  case app_waits
  then have w: "f = agreed own peer" using calls by simp
  show ?thesis
    unfolding app_waits(1) through_waiting
    using aside_step.app_waits [of "through f s" net] app_waits w by (simp add: app_free_def)
next
  case app_wakes
  then show ?thesis using aside_step.app_wakes [of net "through f s"] by (simp add: through_waiting)
next
  case (app_close w)
  then have w: "f = agreed own peer" using calls by (auto simp: cmu_close_request_def split: if_splits)
  show ?thesis
    unfolding app_close(1) through_ep
    using aside_step.app_close [of "through f s" "f w" net] app_close cmu_close_request_agreed w
    by (simp add: app_free_def)
next
  case (arrive d sender)
  then show ?thesis
    unfolding arrive(1) through_ep f using aside_step.arrive [of d net "through f s" sender] by (simp add: f)
next
  case (tick tv)
  then show ?thesis
    unfolding tick(1) through_ep f using aside_step.tick [of net "through f s" tv] by simp
qed

text \<open>Before the socket is initialised only arrivals, time and spurious wake-ups happen.\<close>

lemma aside_uninitialised:
  assumes "aside_step net s t" and "\<not> initialized (sock (proc (ep s)))"
  shows "sock (proc (ep t)) = sock (proc (ep s)) \<and> wrote (ep t) = wrote (ep s) \<and> got (ep t) = got (ep s)
    \<and> (waiting t \<longrightarrow> waiting s)"
  using assms by cases (auto simp: cmu_read_def cmu_close_request_def)

text \<open>What a call of the application, and such a step, leaves as it is.\<close>

definition same_control :: "host \<Rightarrow> host \<Rightarrow> bool" where
  "same_control w w' \<longleftrightarrow> outbox w' = outbox w \<and> segs w' = segs w \<and> inbox w' = inbox w
     \<and> window (sock w') = window (sock w) \<and> state (sock w') = state (sock w)
     \<and> initialized (sock w') = initialized (sock w) \<and> sock_type (sock w') = sock_type (sock w)
     \<and> counter1 w' = counter1 w \<and> counter2 w' = counter2 w \<and> counter3 w' = counter3 w"

lemma call_same_control:
  "cmu_write_turn w buf written len = Inr (w', written', len') \<Longrightarrow> same_control w w'"
  "cmu_read w buf n flags = Inr (w', buf', n') \<Longrightarrow> same_control w w'"
  "cmu_close_request w = Inr w' \<Longrightarrow> same_control w w'"
  unfolding same_control_def
  by (auto simp: cmu_write_turn_def cmu_read_def cmu_close_request_def Let_def split: if_splits)

lemma aside_frame:
  assumes "aside_step net s t"
  shows "pc t = pc s \<and> outbox (proc (ep t)) = outbox (proc (ep s)) \<and> segs (proc (ep t)) = segs (proc (ep s))
    \<and> window (sock (proc (ep t))) = window (sock (proc (ep s))) \<and> state (sock (proc (ep t))) = state (sock (proc (ep s)))
    \<and> initialized (sock (proc (ep t))) = initialized (sock (proc (ep s)))
    \<and> sock_type (sock (proc (ep t))) = sock_type (sock (proc (ep s)))
    \<and> counter1 (proc (ep t)) = counter1 (proc (ep s)) \<and> counter2 (proc (ep t)) = counter2 (proc (ep s))
    \<and> counter3 (proc (ep t)) = counter3 (proc (ep s)) \<and> arrived (ep t) \<subseteq> arrived (ep s) \<union> net"
  using assms by cases (auto simp: arrived_def same_control_def dest!: call_same_control)

lemma aside_sent:
  assumes "aside_step net s t" and "sending own (ep s)"
  shows "sent (ep t) = sent (ep s)"
  using assms(1)
proof cases
  case (app_write buf written len w written' len')
  obtain acked where "sb_wf (sb_of (ep s))" and a: "wrote (ep s) = acked @ q_inflight (sb_abs (sb_of (ep s))) @ q_fresh (sb_abs (sb_of (ep s)))"
    "sent (ep s) = acked @ q_inflight (sb_abs (sb_of (ep s)))" using assms(2) by (rule sendingE)
  with cmu_write_turn_ok [OF this(1) app_write(5-7)] app_write(4)
  obtain sb' n where "w = upd_sock (\<lambda>s. s\<lparr>send_buf := sb'\<rparr>) (proc (ep s))" "len' = len - int n"
    "sb_abs sb' = (sb_abs (sb_of (ep s)))\<lparr>q_fresh := q_fresh (sb_abs (sb_of (ep s))) @ take n (drop (unat written) buf)\<rparr>"
    by auto
  then show ?thesis using a by (simp add: app_write(1) sent_def)
qed (auto simp: sent_def cmu_read_def cmu_close_request_def Let_def split: if_splits)

lemma seen_through:
  assumes "local_ok own peer s" and "aside_step net (thr s) t"
  shows "view own peer (s\<lparr>thr := t\<rparr>) = through (seen own peer (stage s) (pc (thr s))) t"
  using aside_frame [OF assms(2)] by (simp add: view_def)

lemma aside_view:
  assumes ok: "local_ok own peer s" and st: "aside_step net (thr s) t" and s: "sending own (ep (view own peer s))"
  shows "aside_step net (view own peer s) (view own peer (s\<lparr>thr := t\<rparr>)) \<and> local_ok own peer (s\<lparr>thr := t\<rparr>)"
proof
  let ?f = "seen own peer (stage s) (pc (thr s))"
  note fr = aside_frame [OF st]
  show "aside_step net (view own peer s) (view own peer (s\<lparr>thr := t\<rparr>))"
  proof (cases "?f = (\<lambda>w. w)")
    case True
    then show ?thesis using st unfolding seen_through [OF ok st] unfolding view_def by (simp add: through_def)
  next
    case False
    then have f: "?f = completed own peer \<and> \<not> initialized (sock (host_of s)) \<or> ?f = agreed own peer"
      using ok by (cases "stage s") (auto simp: local_ok_def unready_def fun_eq_iff split: control.splits)
    show ?thesis unfolding seen_through [OF ok st] unfolding view_def
      by (rule aside_through [OF st, where own = own and peer = peer])
        (use f in \<open>auto simp: completed_def agreed_def upd_sock_def\<close>)
  qed
  have "sent (ep t) = sent (end_of s)" 
  proof -
    have "sent (ep (view own peer (s\<lparr>thr := t\<rparr>))) = sent (ep (view own peer s))"
      by (rule aside_sent [OF \<open>aside_step net (view own peer s) _\<close> s])
    then show ?thesis by simp
  qed
  moreover have "datagrams (ep t) = datagrams (end_of s)" using fr by (simp add: datagrams_def)
  moreover have "unready own (proc (ep t))" if "unready own (host_of s)"
    using that fr aside_uninitialised [OF st] by (simp add: unready_def)
  ultimately show "local_ok own peer (s\<lparr>thr := t\<rparr>)"
    using ok fr by (cases "stage s") (auto simp: local_ok_def split: control.splits)
qed

end
