(* ===== verification/Session_Steps.thy ===== *)
theory Session_Steps
  imports Session_Invariant
begin

text \<open>
  Each section of a session is, on the views, a step that keeps the invariant of \<open>System\<close>: the
  handshake's sections change no stream and send only control packets, those of the main loop
  are the ones of \<open>Threads\<close>.
\<close>

section \<open>The sections of the handshake\<close>

lemma control_packet: "control_header src dst seq ack flags =
    peer_packet src (ntohs (sin_port dst)) seq ack flags (of_nat CP1_WINDOW_SIZE) []"
  by (simp add: control_header_def peer_packet_def)

lemma send_control:
  "counter1 w = 0 \<Longrightarrow> length d = 25 \<Longrightarrow> send_syn w (Some d) 25 = Inr (w\<lparr>outbox := outbox w @ [(conn (sock w), d)]\<rparr>)"
  "counter3 w = 0 \<Longrightarrow> length d = 25 \<Longrightarrow> send_syn_ack w (Some d) 25 = Inr (w\<lparr>outbox := outbox w @ [(conn (sock w), d)]\<rparr>)"
  by (simp_all add: send_syn_def send_syn_ack_def counter1_lim_def counter3_lim_def sendto_control)

lemma syns_iff: "d \<in> syns own \<longleftrightarrow> (\<exists>src dst. d = control_header src dst own 0 SYN_FLAG_MASK)"
  by (auto simp: syns_def)

lemma synacks_iff: "d \<in> synacks own peer \<longleftrightarrow>
    (\<exists>src dst. d = control_header src dst own (peer + 1) (SYN_FLAG_MASK OR ACK_FLAG_MASK))"
  by (auto simp: synacks_def)

lemma client_starts_ok:
  assumes "unready own w" and "sock_type (sock w) = TCP_INITIATOR"
  shows "\<exists>d \<in> syns own. client_starts w =
    Inr (upd_sock (\<lambda>s. s\<lparr>state := SYN_SENT\<rparr>) (w\<lparr>outbox := outbox w @ [(conn (sock w), d)]\<rparr>), Some d)"
  using assms
  by (auto simp: client_starts_def unready_def make_control send_control syns_iff)

lemma client_turn_resends:
  assumes "unready own w" and "d \<in> syns own" and "timed_out \<or> inbox w = []"
  shows "client_turn w (Some d) 25 timed_out = Inr (w\<lparr>outbox := outbox w @ [(conn (sock w), d)]\<rparr>)"
  using assms by (auto simp: client_turn_def unready_def send_control syns_iff)

lemma client_turn_connects:
  assumes u: "unready own w" and to: "\<not> timed_out" and ib: "inbox w = (a, d) # rest" and d: "d \<in> synacks peer own"
  shows "client_turn w packet 25 timed_out =
    Inr (w\<lparr>sock := (sock (completed own peer w))\<lparr>conn := a\<rparr>, inbox := rest,
        outbox := outbox w @ [(a, control_header (my_port (sock w)) a (own + 1) (peer + 1) ACK_FLAG_MASK)]\<rparr>)"
  using assms
  by (auto simp: client_turn_def recvfrom_peek_def recvfrom_def client_syn_ack_def synacks_iff unready_def
      flag_tests recv_buffer_initialize_def Let_def upd_window_def upd_sock_def make_control counter2_lim_def
      sendto_control completed_def agreed_def)

lemma take_syn_ok:
  assumes u: "unready own w" and ib: "inbox w = (a, d) # rest" and d: "d \<in> syns peer"
  shows "take_syn w = Inr (upd_sock (\<lambda>s. s\<lparr>conn := a, initialized := True,
      recv_buf := (recv_buf s)\<lparr>last_byte_read_seqnum := peer, last_byte_read_index := 0,
        next_byte_expected_index := 1\<rparr>\<rparr>) (w\<lparr>inbox := rest\<rparr>), peer)"
  using assms
  by (auto simp: take_syn_def recvfrom_def syns_iff unready_def recv_buffer_initialize_def upd_sock_def)

lemma answer_syn_ok:
  assumes "last_ack_received (window (sock w)) = own" and "counter3 w = 0"
  shows "\<exists>d \<in> synacks own peer. answer_syn w peer =
    Inr (upd_sock (\<lambda>s. s\<lparr>state := SYN_RCVD, window := (window s)\<lparr>next_seq_expected := peer + 1\<rparr>\<rparr>)
      (w\<lparr>outbox := outbox w @ [(conn (sock w), d)]\<rparr>), Some d)"
proof -
  let ?d = "control_header (my_port (sock w)) (conn (sock w)) own (peer + 1) (SYN_FLAG_MASK OR ACK_FLAG_MASK)"
  have "answer_syn w peer = Inr (upd_sock (\<lambda>s. s\<lparr>state := SYN_RCVD, window := (window s)\<lparr>next_seq_expected := peer + 1\<rparr>\<rparr>)
      (w\<lparr>outbox := outbox w @ [(conn (sock w), ?d)]\<rparr>), Some ?d)"
    using assms
    by (simp add: answer_syn_def make_control send_control upd_window_def Let_def)
  moreover have "?d \<in> synacks own peer" by (auto simp: synacks_iff)
  ultimately show ?thesis by blast
qed

lemma take_confirmation_ok:
  assumes own: "last_ack_received (window (sock w)) = own" and c3: "counter3 w = 0" and len: "length packet = 25"
    and ib: "inbox w = (a, peer_packet src dst seq ack flags adv p) # rest" (is "_ = (_, ?d) # _")
    and lp: "length p + 25 < 2 ^ 16"
  shows "take_confirmation w (Some packet) =
    (if flags AND ACK_FLAG_MASK \<noteq> 0 \<and> ack = own + 1
     then Inr (upd_sock (\<lambda>s. s\<lparr>conn := a, state := ESTABLISHED\<rparr>) (w\<lparr>inbox := rest\<rparr>), Some ?d)
     else if flags AND SYN_FLAG_MASK \<noteq> 0
     then Inr (upd_sock (\<lambda>s. s\<lparr>conn := a\<rparr>) (w\<lparr>inbox := rest, outbox := outbox w @ [(a, packet)]\<rparr>), None)
     else Inl AssertFail)"
proof -
  obtain hdr w1 plen where h: "recvfrom_peek w sizeof_header = Some (hdr, w1)" "sizeof_header \<le> length hdr"
    "get_plen hdr = Inr plen"
    "recv_packet w1 (unat plen) = Inr (?d, upd_sock (\<lambda>s. s\<lparr>conn := a\<rparr>) (w\<lparr>inbox := rest\<rparr>))"
    using peek_then_recv [OF ib lp] by blast
  have hd: "hdr = take 25 ?d" using h(1) ib by (simp add: recvfrom_peek_def)
  have "get_flags hdr = Inr flags" "get_ack hdr = Inr ack"
    unfolding hd peer_packet_def take_header by (rule get_wire_header)+
  moreover have "length hdr = sizeof_header" using h(2) hd by simp
  ultimately show ?thesis
    using h own c3 len by (simp add: take_confirmation_def send_control)
qed

text \<open>The acknowledgement that ends the handshake does to the socket what it does to its view.\<close>

lemma handle_header_agreed:
  assumes pkt: "get_ack pkt = Inr (own + 1)" and st: "state (sock w) = ESTABLISHED"
    and w: "last_ack_received (window (sock w)) = own" "next_seq_expected (window (sock w)) = peer + 1"
    and base: "last_byte_acked_seqnum (send_buf (sock w)) = own" and own: "own < - 1"
    and flags: "get_flags pkt = Inr ACK_FLAG_MASK"
  shows "handle_header w pkt = handle_header (agreed own peer w) pkt"
proof -
  have n: "own + 1 \<noteq> own" by simp
  have m: "MAX_u32 own (own + 1) = own + 1"
    using below_minus1 [OF own] by (auto simp: MAX_u32_def word_less_nat_alt)
  have u: "send_buffer_update_ack tv (send_buf (sock w)) (own + 1) = Inr (send_buf (sock w))" for tv
    by (rule update_ack_old) (simp add: base)
  have "handle_ack w (own + 1) = Inr (agreed own peer w)"
    using n m u w st by (simp add: handle_ack_def Let_def upd_window_def agreed_def upd_sock_def)
  moreover have "handle_ack (agreed own peer w) (own + 1) = Inr (agreed own peer w)"
    by (simp add: handle_ack_def)
  ultimately show ?thesis by (simp add: handle_header_def pkt flags flag_tests)
qed


section \<open>Sections and views\<close>

lemma goes_on_packets:
  assumes "sending i e" "receiving j t e" "base_seq e < ex"
    and "sb_of e' = sb_of e" "rb_of e' = rb_of e" "segs (proc e') = segs (proc e)"
    and "next_seq_expected (window (sock (proc e'))) = next_seq_expected (window (sock (proc e)))"
    and "last_ack_received (window (sock (proc e'))) = last_ack_received (window (sock (proc e)))"
    and "wrote e' = wrote e" "got e' = got e"
    and "\<forall>d \<in> datagrams e'. d \<in> datagrams e \<or> valid_datagram i (sent e) j (next_seq e) d"
  shows "goes_on i j t ex e e'"
  using assms
  by (simp add: goes_on_def acked_to_def sending_def receiving_def sent_def base_seq_def next_seq_def)

lemma syns_valid: "d \<in> syns i \<Longrightarrow> valid_datagram i s j ex d"
  by (auto simp: syns_iff flag_tests intro!: control_valid)

lemma synacks_valid: "d \<in> synacks i j \<Longrightarrow> valid_datagram i s j ex d"
  by (auto simp: synacks_iff flag_tests intro!: control_valid)

lemma datagrams_moved: "datagrams (end_of (moved s w st c sg)) = snd ` set (outbox w)"
  "arrived (end_of (moved s w st c sg)) = snd ` set (inbox w)"
  "sent (end_of (moved s w st c sg)) = take (length (wrote (end_of s)) - length (q_fresh (sb_abs (send_buf (sock w)))))
     (wrote (end_of s))"
  by (simp_all add: datagrams_def arrived_def sent_def)

text \<open>What a section makes of a view, of what has arrived, and of the place.\<close>

definition keeps :: "u32 \<Rightarrow> u32 \<Rightarrow> u8 list \<Rightarrow> nat \<Rightarrow> session \<Rightarrow> session \<Rightarrow> bool" where
  "keeps own peer t ex s s' \<longleftrightarrow> goes_on own peer t ex (ep (view own peer s)) (ep (view own peer s'))
     \<and> arrived (end_of s') \<subseteq> arrived (end_of s) \<and> held peer t own ex (pc (thr s')) \<and> local_ok own peer s'"

lemma starting_keeps:
  assumes e: "sending own (ep (view own peer s))" "receiving peer t (ep (view own peer s))"
      "base_seq (ep (view own peer s)) < ex"
    and ok: "local_ok own peer s" and st: "stage s = Starting"
    and sec: "session_section timed_out Starting (pc (thr s)) (host_of s) = Inr (w, st', c, sg)"
  shows "keeps own peer t ex s (moved s w st' c sg)
    \<and> st' = (if sock_type (sock (host_of s)) = TCP_INITIATOR then Calling (Some (snd (last (outbox w)))) else Listening)"
proof (cases "sock_type (sock (host_of s)) = TCP_INITIATOR")
  case True
  have u: "unready own (host_of s)" "datagrams (end_of s) = {}" "pc (thr s) = Check_death"
    using ok st by (simp_all add: local_ok_def)
  obtain d where d: "d \<in> syns own" "w = upd_sock (\<lambda>s. s\<lparr>state := SYN_SENT\<rparr>)
      ((host_of s)\<lparr>outbox := outbox (host_of s) @ [(conn (sock (host_of s)), d)]\<rparr>)"
    "st' = Calling (Some d)" "c = Check_death" "sg = False"
    using client_starts_ok [OF u(1) True] sec True u(3) by auto
  have "goes_on own peer t ex (ep (view own peer s)) (ep (view own peer (moved s w st' c sg)))"
    by (rule goes_on_packets [OF e]) (use d syns_valid st in \<open>auto simp: datagrams_def\<close>)
  then show ?thesis
    using d u True st
    by (auto simp: keeps_def local_ok_def unready_def datagrams_moved arrived_def datagrams_def)
next
  case False
  then have w: "w = upd_sock (\<lambda>s. s\<lparr>state := LISTEN\<rparr>) (host_of s)" "st' = Listening" "c = pc (thr s)" "sg = False"
    using sec by auto
  have "goes_on own peer t ex (ep (view own peer s)) (ep (view own peer (moved s w st' c sg)))"
    by (rule goes_on_packets [OF e]) (use w st in \<open>auto simp: datagrams_def\<close>)
  then show ?thesis
    using w ok st False
    by (auto simp: keeps_def local_ok_def unready_def datagrams_moved arrived_def datagrams_def sent_def)
qed

lemma calling_keeps:
  assumes e: "sending own (ep (view own peer s))" "receiving peer t (ep (view own peer s))"
      "base_seq (ep (view own peer s)) < ex"
    and ok: "local_ok own peer s" and st: "stage s = Calling packet"
    and arr: "arrived (end_of s) \<subseteq> synacks peer own" and own: "peer < - 1"
    and sec: "session_section timed_out (Calling packet) (pc (thr s)) (host_of s) = Inr (w, st', c, sg)"
  shows "keeps own peer t ex s (moved s w st' c sg) \<and> (st' = Calling packet \<or> st' = Running \<and> arrived (end_of s) \<noteq> {})"
proof -
  obtain d where u: "unready own (host_of s)" "datagrams (end_of s) \<subseteq> syns own" "pc (thr s) = Check_death"
    "state (sock (host_of s)) \<noteq> ESTABLISHED" "d \<in> syns own" "packet = Some d"
    using ok st by (auto simp: local_ok_def)
  show ?thesis
  proof (cases "timed_out \<or> inbox (host_of s) = []")
    case True
    then have w: "w = (host_of s)\<lparr>outbox := outbox (host_of s) @ [(conn (sock (host_of s)), d)]\<rparr>"
      "st' = Calling packet" "c = Check_death" "sg = False"
      using client_turn_resends [OF u(1,5) True] sec u(3,4,6) by auto
    have "goes_on own peer t ex (ep (view own peer s)) (ep (view own peer (moved s w st' c sg)))"
      by (rule goes_on_packets [OF e]) (use w u syns_valid st in \<open>auto simp: datagrams_def\<close>)
    then show ?thesis
      using w u st
      by (auto simp: keeps_def local_ok_def unready_def datagrams_moved arrived_def datagrams_def)
  next
    case False
    then obtain a p rest where ib: "inbox (host_of s) = (a, p) # rest" "\<not> timed_out" by (cases "inbox (host_of s)") auto
    then have p: "p \<in> synacks peer own" using arr by (auto simp: arrived_def)
    let ?a = "control_header (my_port (sock (host_of s))) a (own + 1) (peer + 1) ACK_FLAG_MASK"
    define w1 where "w1 = (host_of s)\<lparr>sock := (sock (completed own peer (host_of s)))\<lparr>conn := a\<rparr>, inbox := rest,
        outbox := outbox (host_of s) @ [(a, ?a)]\<rparr>"
    have "client_turn (host_of s) packet 25 timed_out = Inr w1" "state (sock w1) = ESTABLISHED"
      unfolding w1_def by (rule client_turn_connects [OF u(1) ib(2,1) p]) (simp add: completed_def)
    then have w: "w = upd_sock (\<lambda>s. s\<lparr>initialized := True\<rparr>) w1" "st' = Running" "c = Check_death" "sg = False"
      using sec u(3) by simp_all
    have v: "valid_datagram own (sent (end_of s)) peer (next_seq (ep (view own peer s))) ?a"
      by (rule control_valid) (use e(2) st below_minus1 [OF own] in \<open>simp add: receiving_def\<close>)
    have o: "outbox w = outbox (host_of s) @ [(a, ?a)]" "inbox w = rest" "segs w = segs (host_of s)"
      "send_buf (sock w) = send_buf (sock (host_of s))" "recv_buf (sock w) = recv_buf (sock (completed own peer (host_of s)))"
      "window (sock w) = window (sock (completed own peer (host_of s)))"
      by (simp_all add: w(1) w1_def)
    have "goes_on own peer t ex (ep (view own peer s)) (ep (view own peer (moved s w st' c sg)))"
      by (rule goes_on_packets [OF e]) (simp_all add: w(2) o st v datagrams_def)
    then show ?thesis
      by (auto simp: keeps_def local_ok_def datagrams_moved arrived_def w(2,3) o ib)
  qed
qed

lemma listening_keeps:
  assumes e: "sending own (ep (view own peer s))" "receiving peer t (ep (view own peer s))"
      "base_seq (ep (view own peer s)) < ex"
    and ok: "local_ok own peer s" and st: "stage s = Listening"
    and arr: "arrived (end_of s) \<subseteq> syns peer"
    and sec: "session_section timed_out Listening (pc (thr s)) (host_of s) = Inr (w, st', c, sg)"
  shows "keeps own peer t ex s (moved s w st' c sg) \<and> st' = Greeting peer"
proof -
  have u: "unready own (host_of s)" "datagrams (end_of s) = {}" "pc (thr s) = Check_death" "sent (end_of s) = []"
    using ok st by (auto simp: local_ok_def)
  obtain a p rest where ib: "inbox (host_of s) = (a, p) # rest"
    using sec by (cases "inbox (host_of s)") (auto simp: take_syn_def recvfrom_def)
  then have p: "p \<in> syns peer" using arr by (auto simp: arrived_def)
  have w: "w = upd_sock (\<lambda>s. s\<lparr>conn := a, initialized := True,
      recv_buf := (recv_buf s)\<lparr>last_byte_read_seqnum := peer, last_byte_read_index := 0,
        next_byte_expected_index := 1\<rparr>\<rparr>) ((host_of s)\<lparr>inbox := rest\<rparr>)"
    "st' = Greeting peer" "c = Check_death" "sg = False"
    using take_syn_ok [OF u(1) ib p] sec u(3) by auto
  have "goes_on own peer t ex (ep (view own peer s)) (ep (view own peer (moved s w st' c sg)))"
    by (rule goes_on_packets [OF e]) (use w st in \<open>auto simp: datagrams_def\<close>)
  then show ?thesis
    using w u st ib
    by (auto simp: keeps_def local_ok_def datagrams_moved arrived_def datagrams_def sent_def unready_def)
qed

lemma greeting_keeps:
  assumes e: "sending own (ep (view own peer s))" "receiving peer t (ep (view own peer s))"
      "base_seq (ep (view own peer s)) < ex"
    and ok: "local_ok own peer s" and st: "stage s = Greeting q"
    and sec: "session_section timed_out (Greeting q) (pc (thr s)) (host_of s) = Inr (w, st', c, sg)"
  shows "keeps own peer t ex s (moved s w st' c sg) \<and> (\<exists>p. st' = Answering p)"
proof -
  have u: "q = peer" "last_ack_received (window (sock (host_of s))) = own" "counter3 (host_of s) = 0"
    "datagrams (end_of s) = {}" "pc (thr s) = Check_death" "sent (end_of s) = []"
    using ok st by (auto simp: local_ok_def)
  obtain d where d: "d \<in> synacks own peer" "answer_syn (host_of s) peer =
    Inr (upd_sock (\<lambda>s. s\<lparr>state := SYN_RCVD, window := (window s)\<lparr>next_seq_expected := peer + 1\<rparr>\<rparr>)
      ((host_of s)\<lparr>outbox := outbox (host_of s) @ [(conn (sock (host_of s)), d)]\<rparr>), Some d)"
    using answer_syn_ok [OF u(2,3)] by blast
  then have w: "w = upd_sock (\<lambda>s. s\<lparr>state := SYN_RCVD, window := (window s)\<lparr>next_seq_expected := peer + 1\<rparr>\<rparr>)
      ((host_of s)\<lparr>outbox := outbox (host_of s) @ [(conn (sock (host_of s)), d)]\<rparr>)"
    "st' = Answering (Some d)" "c = Check_death" "sg = False"
    using sec u by auto
  have "goes_on own peer t ex (ep (view own peer s)) (ep (view own peer (moved s w st' c sg)))"
    by (rule goes_on_packets [OF e]) (use w st d(1) synacks_valid in \<open>auto simp: datagrams_def\<close>)
  then show ?thesis
    using w u st d(1)
    by (auto simp: keeps_def local_ok_def datagrams_moved arrived_def datagrams_def sent_def)
qed

lemma answering_keeps:
  assumes e: "sending own (ep (view own peer s))" "receiving peer t (ep (view own peer s))"
      "base_seq (ep (view own peer s)) < ex"
    and ok: "local_ok own peer s" and st: "stage s = Answering packet"
    and inb: "\<forall>d \<in> arrived (end_of s). valid_datagram peer t own ex d \<and> mild peer d"
    and sec: "session_section timed_out (Answering packet) (pc (thr s)) (host_of s) = Inr (w, st', c, sg)"
  shows "keeps own peer t ex s (moved s w st' c sg)
    \<and> (st' = Answering packet \<or> st' = Confirming \<and> \<not> arrived (end_of s) \<subseteq> syns peer)"
proof -
  let ?w = "host_of s"
  obtain k where u: "k \<in> synacks own peer" "packet = Some k" "datagrams (end_of s) \<subseteq> synacks own peer"
    "sent (end_of s) = []" "last_ack_received (window (sock ?w)) = own"
    "next_seq_expected (window (sock ?w)) = peer + 1" "counter3 ?w = 0" "pc (thr s) = Check_death"
    using ok st by (auto simp: local_ok_def)
  have lk: "length k = 25" using u(1) by (auto simp: synacks_iff)
  obtain a d rest where ib: "inbox ?w = (a, d) # rest"
    using sec by (cases "inbox ?w") (auto simp: take_confirmation_def recvfrom_peek_def)
  then have d: "d \<in> arrived (end_of s)" by (auto simp: arrived_def)
  then obtain src dst seq ack flags adv p where p: "d = peer_packet src dst seq ack flags adv p"
    and v: "valid_fields peer t own ex seq ack flags p" using inb unfolding valid_datagram_def by blast
  have lp: "length p + 25 < 2 ^ 16" using v by (simp add: valid_fields_def)
  note tc = take_confirmation_ok [OF u(5,7) lk ib [unfolded p] lp]
  show ?thesis
  proof (cases "flags AND ACK_FLAG_MASK \<noteq> 0 \<and> ack = own + 1")
    case True
    then have w: "w = upd_sock (\<lambda>s. s\<lparr>conn := a, state := ESTABLISHED\<rparr>) (?w\<lparr>inbox := rest\<rparr>)"
      "st' = Confirming" "c = Handle d" "sg = False"
      using sec u(2) tc p by auto
    have "goes_on own peer t ex (ep (view own peer s)) (ep (view own peer (moved s w st' c sg)))"
      by (rule goes_on_packets [OF e]) (simp_all add: w st datagrams_def)
    moreover have "d \<notin> syns peer"
    proof
      assume "d \<in> syns peer"
      then have "get_flags d = Inr SYN_FLAG_MASK" by (auto simp: syns_iff)
      then show False using True peer_packet_fields(1) [OF lp] by (simp add: p flag_tests)
    qed
    moreover from this have "get_flags d = Inr ACK_FLAG_MASK" using inb d by (auto simp: mild_def)
    moreover have "get_ack d = Inr (own + 1)" using True peer_packet_fields(2) [OF lp] by (simp add: p)
    moreover have "held peer t own ex (Handle d)" using inb d by simp
    ultimately show ?thesis
      using d by (auto simp: keeps_def local_ok_def datagrams_moved arrived_def w ib u(5,6))
  next
    case False
    then have w: "w = upd_sock (\<lambda>s. s\<lparr>conn := a\<rparr>) (?w\<lparr>inbox := rest, outbox := outbox ?w @ [(a, k)]\<rparr>)"
      "st' = Answering packet" "c = Check_death" "sg = False"
      using sec u(2,8) tc p by (auto split: if_splits)
    have "goes_on own peer t ex (ep (view own peer s)) (ep (view own peer (moved s w st' c sg)))"
      by (rule goes_on_packets [OF e]) (use synacks_valid [OF u(1)] in \<open>auto simp: w st datagrams_def\<close>)
    then show ?thesis
      using u by (auto simp: keeps_def local_ok_def datagrams_moved arrived_def w ib datagrams_def sent_def)
  qed
qed

lemma view_settled:
  assumes "stage s = Running \<or> stage s = Confirming \<and> (\<forall>pkt. pc (thr s) \<noteq> Handle pkt)"
  shows "view own peer s = thr s"
  using assms by (auto simp: view_def through_def split: control.split)

lemma confirming_keeps:
  assumes e: "sending own (ep (view own peer s))" "receiving peer t (ep (view own peer s))"
      "base_seq (ep (view own peer s)) < ex"
    and exb: "ex \<le> unat own + 1 + length (sent (end_of s))"
    and bi: "unat own + length (wrote (end_of s)) + MSS < 2 ^ 32" and bj: "unat peer + length t + MSS < 2 ^ 32"
    and ok: "local_ok own peer s" and st: "stage s = Confirming" and own: "own < - 1"
    and h: "held peer t own ex (pc (thr s))"
    and sec: "session_section timed_out Confirming (pc (thr s)) (host_of s) = Inr (w, st', c, sg)"
  shows "keeps own peer t ex s (moved s w st' c sg) \<and> st' \<in> {Confirming, Running}"
proof -
  let ?e = "ep (view own peer s)"
  obtain w1 c1 sg1 where t: "thread_section (pc (thr s)) (host_of s) = Inr (w1, c1, sg1)"
    "(if c1 = Transmit then (w1, Running, Check_death, sg1) else (w1, Confirming, c1, sg1)) = (w, st', c, sg)"
    using sec by auto
  then have sec1: "thread_section (pc (thr s)) (host_of s) = Inr (w, c1, sg)"
    and st': "st' = (if c1 = Transmit then Running else Confirming)"
    and c: "c = (if c1 = Transmit then Check_death else c1)"
    by (auto split: if_splits)
  have finish: "?thesis"
    if g: "goes_on own peer t ex ?e (?e\<lparr>proc := w\<rparr>)" "arrived (?e\<lparr>proc := w\<rparr>) = arrived ?e" "held peer t own ex c1"
      and c1: "(\<exists>pkt n. c1 = Store pkt n) \<or> c1 = Answer \<or> c1 = Transmit"
  proof -
    have v: "ep (view own peer (moved s w st' c sg)) = ?e\<lparr>proc := w\<rparr>"
      using c1 by (auto simp: st' c view_def through_def moved_def)
    have "local_ok own peer (moved s w st' c sg)" "held peer t own ex c"
      using c1 g(3) by (auto simp: local_ok_def st' c)
    moreover have "arrived (end_of (moved s w st' c sg)) = arrived (end_of s)"
      using g(2) by (simp add: arrived_def)
    ultimately show ?thesis using g(1) unfolding keeps_def v by (simp add: st')
  qed
  show ?thesis
  proof (cases "pc (thr s)")
    case (Handle pkt)
    have k: "get_flags pkt = Inr ACK_FLAG_MASK" "get_ack pkt = Inr (own + 1)" "last_ack_received (window (sock (host_of s))) = own"
      "next_seq_expected (window (sock (host_of s))) = peer + 1" "state (sock (host_of s)) = ESTABLISHED"
      using ok st Handle by (simp_all add: local_ok_def)
    have pv: "proc ?e = agreed own peer (host_of s)" using st Handle by simp
    have "acked_to ?e = unat own + 1" using pv below_minus1 [OF own] by (simp add: acked_to_def)
    then have "base_seq ?e = unat own" using e(1) by (simp add: sending_def)
    then have base: "last_byte_acked_seqnum (send_buf (sock (host_of s))) = own"
      by (intro u32_eqI) (simp add: base_seq_def)
    have sec2: "thread_section (Handle pkt) (proc ?e) = Inr (w, c1, sg)"
      using sec1 handle_header_agreed [OF k(2,5,3,4) base own k(1)] unfolding pv by (simp add: Handle)
    have "held peer t own ex (Handle pkt)" using h Handle by simp
    from handle_section [OF e _ _ this sec2] exb bi sec1
    show ?thesis by (intro finish) (auto simp: Handle split: if_splits)
  next
    case (Store pkt n)
    have pv: "proc ?e = host_of s" using st Store by simp
    have "held peer t own ex (Store pkt n)" using h Store by simp
    from store_section [OF e bj this, unfolded pv, OF sec1 [unfolded Store]]
    show ?thesis by (intro finish) (auto simp: pv)
  next
    case Answer
    have pv: "proc ?e = host_of s" using st Answer by simp
    from answer_section [OF e, unfolded pv, OF sec1 [unfolded Answer]]
    show ?thesis by (intro finish) (auto simp: pv)
  qed (use ok st in \<open>simp_all add: local_ok_def\<close>)
qed

lemma running_keeps:
  assumes e: "sending own (ep (view own peer s))" "receiving peer t (ep (view own peer s))"
      "base_seq (ep (view own peer s)) < ex"
    and exb: "ex \<le> unat own + 1 + length (sent (end_of s))"
    and bi: "unat own + length (wrote (end_of s)) + MSS < 2 ^ 32" and bj: "unat peer + length t + MSS < 2 ^ 32"
    and st: "stage s = Running"
    and inb: "\<forall>d \<in> arrived (end_of s). valid_datagram peer t own ex d"
    and h: "held peer t own ex (pc (thr s))"
    and sec: "session_section timed_out Running (pc (thr s)) (host_of s) = Inr (w, st', c, sg)"
  shows "keeps own peer t ex s (moved s w st' c sg) \<and> st' = Running"
proof -
  have v: "view own peer s = thr s" by (rule view_settled) (simp add: st)
  have sec1: "thread_section (pc (thr s)) (host_of s) = Inr (w, c, sg)" "st' = Running" using sec by auto
  have v': "view own peer (moved s w st' c sg) = thr (moved s w st' c sg)"
    by (rule view_settled) (simp add: sec1(2))
  have step: "thread_step {} (thr s) (thr (moved s w st' c sg))"
    using thread_step.backend [OF sec1(1), where net = "{}"] by (simp add: moved_def)
  have "goes_on own peer t ex (end_of s) (end_of (moved s w st' c sg))
    \<and> arrived (end_of (moved s w st' c sg)) \<subseteq> arrived (end_of s) \<union> {} \<and> held peer t own ex (pc (thr (moved s w st' c sg)))"
    by (rule thread_step_goes_on [OF step]) (use e exb bi bj inb h in \<open>simp_all add: v\<close>)
  then show ?thesis unfolding keeps_def v v' by (simp add: local_ok_def sec1(2))
qed

lemma beside_keeps:
  assumes e: "sending own (ep (view own peer s))" "receiving peer t (ep (view own peer s))"
      "base_seq (ep (view own peer s)) < ex"
    and exb: "ex \<le> unat own + 1 + length (sent (end_of s))"
    and bi: "unat own + length (wrote (ep u)) + MSS < 2 ^ 32" and bj: "unat peer + length t + MSS < 2 ^ 32"
    and ok: "local_ok own peer s"
    and inb: "\<forall>d \<in> net \<union> arrived (end_of s). valid_datagram peer t own ex d"
    and h: "held peer t own ex (pc (thr s))"
    and step: "aside_step net (thr s) u"
  shows "goes_on own peer t ex (ep (view own peer s)) (ep (view own peer (s\<lparr>thr := u\<rparr>)))
    \<and> arrived (ep u) \<subseteq> arrived (end_of s) \<union> net \<and> held peer t own ex (pc u) \<and> local_ok own peer (s\<lparr>thr := u\<rparr>)"
proof -
  note a = aside_view [OF ok step e(1)]
  have "goes_on own peer t ex (ep (view own peer s)) (ep (view own peer (s\<lparr>thr := u\<rparr>)))
    \<and> arrived (ep (view own peer (s\<lparr>thr := u\<rparr>))) \<subseteq> arrived (ep (view own peer s)) \<union> net
    \<and> held peer t own ex (pc (view own peer (s\<lparr>thr := u\<rparr>)))"
    by (rule thread_step_goes_on [OF thread_step.beside [OF conjunct1 [OF a]] e])
      (use exb bi bj inb h in simp_all)
  then show ?thesis using a by simp
qed

end
