(* ===== verification/Session_Pairs.thy ===== *)
theory Session_Pairs
  imports Session_Steps
begin

text \<open>
  The invariant of a whole session: the two views are linked, and the places of the two
  threads fit the packets that are on their way.
\<close>

section \<open>One side\<close>

text \<open>The order of the places, and what a change of place tells.\<close>

fun advances :: "u32 \<Rightarrow> session \<Rightarrow> stage \<Rightarrow> stage \<Rightarrow> bool" where
  "advances peer s Starting st \<longleftrightarrow>
     (if sock_type (sock (host_of s)) = TCP_INITIATOR then \<exists>p. st = Calling p else st = Listening)"
| "advances peer s (Calling p) st \<longleftrightarrow> st = Calling p \<or> st = Running \<and> arrived (end_of s) \<noteq> {}"
| "advances peer s Listening st \<longleftrightarrow> st = Greeting peer"
| "advances peer s (Greeting q) st \<longleftrightarrow> (\<exists>p. st = Answering p)"
| "advances peer s (Answering p) st \<longleftrightarrow> st = Answering p \<or> st = Confirming \<and> \<not> arrived (end_of s) \<subseteq> syns peer"
| "advances peer s Confirming st \<longleftrightarrow> st \<in> {Confirming, Running}"
| "advances peer s Running st \<longleftrightarrow> st = Running"

lemma section_keeps:
  assumes e: "sending own (ep (view own peer s))" "receiving peer t (ep (view own peer s))"
      "base_seq (ep (view own peer s)) < ex"
    and exb: "ex \<le> unat own + 1 + length (sent (end_of s))"
    and bi: "unat own + length (wrote (end_of s)) + MSS < 2 ^ 32" and bj: "unat peer + length t + MSS < 2 ^ 32"
    and ok: "local_ok own peer s" and own: "own < - 1" "peer < - 1"
    and inb: "\<forall>d \<in> arrived (end_of s). valid_datagram peer t own ex d"
    and calling: "(\<exists>p. stage s = Calling p) \<longrightarrow> arrived (end_of s) \<subseteq> synacks peer own"
    and listening: "stage s = Listening \<longrightarrow> arrived (end_of s) \<subseteq> syns peer"
    and answering: "(\<exists>p. stage s = Answering p) \<longrightarrow> (\<forall>d \<in> arrived (end_of s). mild peer d)"
    and h: "held peer t own ex (pc (thr s))"
    and sec: "session_section timed_out (stage s) (pc (thr s)) (host_of s) = Inr (w, st', c, sg)"
  shows "keeps own peer t ex s (moved s w st' c sg) \<and> advances peer s (stage s) st'"
proof (cases "stage s")
  case Starting
  then show ?thesis using starting_keeps [OF e ok Starting sec [unfolded Starting]] by auto
next
  case (Calling p)
  then show ?thesis using calling_keeps [OF e ok Calling _ own(2) sec [unfolded Calling]] calling by simp
next
  case Listening
  then show ?thesis using listening_keeps [OF e ok Listening _ sec [unfolded Listening]] listening Listening by auto
next
  case (Greeting q)
  then show ?thesis using greeting_keeps [OF e ok Greeting sec [unfolded Greeting]] by simp
next
  case (Answering p)
  then show ?thesis using answering_keeps [OF e ok Answering _ sec [unfolded Answering]] answering inb by simp
next
  case Confirming
  then show ?thesis using confirming_keeps [OF e exb bi bj ok Confirming own(1) h sec [unfolded Confirming]] by simp
next
  case Running
  then show ?thesis using running_keeps [OF e exb bi bj Running inb h sec [unfolded Running]] Running by auto
qed

section \<open>Both sides\<close>

fun caller :: "stage \<Rightarrow> bool" where
  "caller Starting \<longleftrightarrow> True" | "caller (Calling p) \<longleftrightarrow> True" | "caller Running \<longleftrightarrow> True" | "caller _ \<longleftrightarrow> False"

fun unanswered :: "stage \<Rightarrow> bool" where
  "unanswered Starting \<longleftrightarrow> True" | "unanswered Listening \<longleftrightarrow> True" | "unanswered (Greeting q) \<longleftrightarrow> True"
| "unanswered _ \<longleftrightarrow> False"

text \<open>
  The client is on the left. Until it has the SYN-ACK, only its SYNs and the server's SYN-ACKs
  are on the way, and the server is not beyond \<open>SYN_RCVD\<close>; until the server has answered,
  nothing has arrived at the client.
\<close>

definition session_ok :: "u32 \<Rightarrow> u32 \<Rightarrow> session \<Rightarrow> session \<Rightarrow> bool" where
  "session_ok i j l r \<longleftrightarrow> threads_linked i j (view i j l) (view j i r) \<and> local_ok i j l \<and> local_ok j i r
     \<and> caller (stage l) \<and> (\<forall>p. stage r \<noteq> Calling p)
     \<and> (stage l = Starting \<longrightarrow> sock_type (sock (host_of l)) = TCP_INITIATOR)
     \<and> (stage r = Starting \<longrightarrow> sock_type (sock (host_of r)) = TCP_LISTENER)
     \<and> (stage l \<noteq> Running \<longrightarrow> arrived (end_of r) \<subseteq> syns i \<and> arrived (end_of l) \<subseteq> synacks j i
          \<and> stage r \<noteq> Confirming \<and> stage r \<noteq> Running)
     \<and> (\<forall>d \<in> datagrams (end_of l) \<union> arrived (end_of r). mild i d)
     \<and> (unanswered (stage r) \<longrightarrow> stage l \<noteq> Running \<and> arrived (end_of l) = {})"

lemma session_step_wrote: "session_step net s s' \<Longrightarrow> prefix (wrote (end_of s)) (wrote (end_of s'))"
proof (induction rule: session_step.induct)
  case (beside s t)
  then show ?case using thread_step_wrote [OF thread_step.beside] by simp
qed simp

lemma caller_datagrams:
  "local_ok i j l \<Longrightarrow> caller (stage l) \<Longrightarrow> stage l \<noteq> Running \<Longrightarrow> datagrams (end_of l) \<subseteq> syns i"
  by (cases "stage l") (auto simp: local_ok_def)

lemma answerer_datagrams:
  assumes "local_ok j i r" and "\<forall>p. stage r \<noteq> Calling p"
  shows "unanswered (stage r) \<Longrightarrow> datagrams (end_of r) = {}"
    and "stage r \<noteq> Confirming \<Longrightarrow> stage r \<noteq> Running \<Longrightarrow> datagrams (end_of r) \<subseteq> synacks j i"
  using assms by (cases "stage r"; auto simp: local_ok_def)+

lemma session_step_half:
  assumes lk: "threads_linked own peer (view own peer s) (view peer own z)"
    and bi: "unat own + length (wrote (end_of s')) + MSS < 2 ^ 32"
    and bj: "unat peer + length (wrote (end_of z)) + MSS < 2 ^ 32"
    and ok: "local_ok own peer s" and own: "own < - 1" "peer < - 1"
    and calling: "(\<exists>p. stage s = Calling p) \<longrightarrow> arrived (end_of s) \<subseteq> synacks peer own"
    and listening: "stage s = Listening \<longrightarrow> arrived (end_of s) \<subseteq> syns peer"
    and answering: "(\<exists>p. stage s = Answering p) \<longrightarrow> (\<forall>d \<in> arrived (end_of s). mild peer d)"
    and step: "session_step (datagrams (end_of z)) s s'"
  shows "threads_linked own peer (view own peer s') (view peer own z) \<and> local_ok own peer s'"
    and "arrived (end_of s') \<subseteq> arrived (end_of s) \<union> datagrams (end_of z)"
    and "stage s' = stage s \<and> sock_type (sock (host_of s')) = sock_type (sock (host_of s)) \<or> advances peer s (stage s) (stage s')"
proof -
  let ?t = "sent (end_of z)" and ?ex = "next_seq (ep (view peer own z))"
  have e: "sending own (ep (view own peer s))" "receiving peer ?t (ep (view own peer s))"
    "base_seq (ep (view own peer s)) < ?ex" "receiving own (sent (end_of s)) (ep (view peer own z))"
    and h: "held peer ?t own ?ex (pc (thr s))"
    and inb: "\<forall>d \<in> datagrams (end_of z) \<union> arrived (end_of s). valid_datagram peer ?t own ?ex d"
    using lk by (auto simp: threads_linked_def linked_def linked_to_def)
  have bt: "unat peer + length ?t + MSS < 2 ^ 32" using bj by (simp add: sent_def)
  have exb: "?ex \<le> unat own + 1 + length (sent (end_of s))" using readable_prefix(3) [OF e(4)] by simp
  have "goes_on own peer ?t ?ex (ep (view own peer s)) (ep (view own peer s'))
    \<and> arrived (end_of s') \<subseteq> arrived (end_of s) \<union> datagrams (end_of z) \<and> held peer ?t own ?ex (pc (thr s'))
    \<and> local_ok own peer s' \<and> (stage s' = stage s \<and> sock_type (sock (host_of s')) = sock_type (sock (host_of s))
         \<or> advances peer s (stage s) (stage s'))"
    using step
  proof cases
    case (backend timed_out w st c sg)
    have "unat own + length (wrote (end_of s)) + MSS < 2 ^ 32" using bi backend(1) by simp
    from section_keeps [OF e(1-3) exb this bt ok own _ calling listening answering h backend(2)] inb
    show ?thesis unfolding backend(1) keeps_def by (simp, blast)
  next
    case (beside u)
    from beside_keeps [OF e(1-3) exb _ bt ok inb h beside(2)] bi aside_frame [OF beside(2)]
    show ?thesis unfolding beside(1) by auto
  qed
  then show "threads_linked own peer (view own peer s') (view peer own z) \<and> local_ok own peer s'"
    and "arrived (end_of s') \<subseteq> arrived (end_of s) \<union> datagrams (end_of z)"
    and "stage s' = stage s \<and> sock_type (sock (host_of s')) = sock_type (sock (host_of s)) \<or> advances peer s (stage s) (stage s')"
    using threads_linked_goes_on [OF lk, of "view own peer s'"] by auto
qed

text \<open>What is sent: the SYNs, the answers to them, and from then on packets with just the ACK flag.\<close>

definition plain :: "u8 list \<Rightarrow> bool" where
  "plain d \<longleftrightarrow> (\<exists>src dst seq ack adv p. length p \<le> MSS \<and> d = peer_packet src dst seq ack ACK_FLAG_MASK adv p)"

lemma step_packets:
  assumes lk: "threads_linked own peer (view own peer s) (view peer own z)"
    and bi: "unat own + length (wrote (end_of s)) + MSS < 2 ^ 32"
    and ok: "local_ok own peer s" "local_ok own peer s'"
    and calling: "(\<exists>p. stage s = Calling p) \<longrightarrow> arrived (end_of s) \<subseteq> synacks peer own"
    and step: "session_step net s s'"
    and d: "d \<in> datagrams (end_of s')" "d \<notin> datagrams (end_of s)"
  shows "d \<in> syns own \<and> (\<exists>p. stage s' = Calling p) \<or> d \<in> synacks own peer \<and> (\<exists>p. stage s' = Answering p) \<or> plain d"
  using step
proof cases
  case (beside t)
  then show ?thesis using aside_frame [OF beside(2)] d by (simp add: datagrams_def)
next
  case (backend timed_out w st c sg)
  have announced: "plain d" if "thread_section (pc (thr s)) (host_of s) = Inr (w, c', sg)"
    and "stage s = Running \<or> stage s = Confirming \<and> (\<forall>pkt. pc (thr s) \<noteq> Handle pkt)" for c'
  proof -
    have "sending own (end_of s)"
      using lk view_settled [OF that(2)] by (simp add: threads_linked_def linked_def linked_to_def)
    from step_announces [OF thread_step.backend [OF that(1), of "{}"] this bi, of d] d
    have "announces (end_of s) d" unfolding backend(1) by (simp add: moved_def)
    then show ?thesis unfolding announces_def plain_def by blast
  qed
  show ?thesis
  proof (cases "stage s")
    case (Calling p)
    show ?thesis
    proof (cases "timed_out \<or> inbox (host_of s) = []")
      case True
      obtain k where "unready own (host_of s)" "k \<in> syns own" "p = Some k" "state (sock (host_of s)) \<noteq> ESTABLISHED"
        using ok(1) Calling by (auto simp: local_ok_def)
      then have "st = Calling p" using client_turn_resends [of own "host_of s" k, OF _ _ True] backend(2) Calling by auto
      then show ?thesis using ok(2) d(1) backend(1) by (auto simp: local_ok_def)
    next
      case False
      then obtain a q rest where ib: "inbox (host_of s) = (a, q) # rest" "\<not> timed_out" by (cases "inbox (host_of s)") auto
      have u: "unready own (host_of s)" "q \<in> synacks peer own"
        using ok(1) calling Calling ib by (auto simp: local_ok_def arrived_def)
      have "outbox w = outbox (host_of s) @
          [(a, control_header (my_port (sock (host_of s))) a (own + 1) (peer + 1) ACK_FLAG_MASK)]"
        using client_turn_connects [OF u(1) ib(2,1) u(2)] backend(2) Calling by (auto split: if_splits)
      then have "d = control_header (my_port (sock (host_of s))) a (own + 1) (peer + 1) ACK_FLAG_MASK"
        using d backend(1) by (auto simp: datagrams_def)
      then show ?thesis unfolding control_packet plain_def by (metis le0 list.size(3))
    qed
  next
    case (Answering p)
    show ?thesis
    proof (cases "st = Confirming")
      case True
      then have "outbox w = outbox (host_of s)" using backend(2) Answering
        by (auto simp: take_confirmation_def recvfrom_peek_def recv_packet_def split: option.splits list.splits if_splits)
      then show ?thesis using d backend(1) by (simp add: datagrams_def)
    next
      case False
      then have "st = Answering p" using backend(2) Answering by (auto split: option.splits)
      then show ?thesis using ok(2) d(1) backend(1) by (auto simp: local_ok_def)
    qed
  next
    case Confirming
    show ?thesis
    proof (cases "\<exists>pkt. pc (thr s) = Handle pkt")
      case True
      then obtain pkt c' where "thread_section (Handle pkt) (host_of s) = Inr (w, c', sg)"
        using backend(2) Confirming by (auto split: if_splits)
      then have "outbox w = outbox (host_of s)" by (rule section_outbox) simp_all
      then show ?thesis using d backend(1) by (simp add: datagrams_def)
    next
      case False
      then show ?thesis using announced backend(2) Confirming by (auto split: if_splits)
    qed
  next
    case Running
    then show ?thesis using announced backend(2) by auto
  next
    case (Greeting q)
    then have "\<exists>p. st = Answering p" using backend(2) by auto
    then show ?thesis using ok(2) d(1) backend(1) by (auto simp: local_ok_def)
  next
    case Starting
    then have "(\<exists>p. st = Calling p) \<or> st = Listening" using backend(2) by (auto split: if_splits)
    then show ?thesis using ok(2) d(1) backend(1) by (auto simp: local_ok_def)
  next
    case Listening
    then have "\<exists>q. st = Greeting q" using backend(2) by auto
    then show ?thesis using ok(2) d(1) backend(1) by (auto simp: local_ok_def)
  qed
qed

lemma plain_mild: "plain d \<Longrightarrow> mild own d"
  by (auto simp: plain_def mild_def peer_packet_fields)

lemma session_ok_left:
  assumes ok: "session_ok i j l r" and ij: "i < - 1" "j < - 1"
    and bi: "unat i + length (wrote (end_of l')) + MSS < 2 ^ 32"
    and bj: "unat j + length (wrote (end_of r)) + MSS < 2 ^ 32"
    and step: "session_step (datagrams (end_of r)) l l'"
  shows "session_ok i j l' r"
proof -
  have h: "threads_linked i j (view i j l) (view j i r)" "local_ok i j l" "local_ok j i r" "caller (stage l)"
    "\<forall>p. stage r \<noteq> Calling p"
    using ok by (simp_all add: session_ok_def)
  have c: "(\<exists>p. stage l = Calling p) \<longrightarrow> arrived (end_of l) \<subseteq> synacks j i"
    "stage l = Listening \<longrightarrow> arrived (end_of l) \<subseteq> syns j"
    "(\<exists>p. stage l = Answering p) \<longrightarrow> (\<forall>d \<in> arrived (end_of l). mild j d)"
    using ok by (auto simp: session_ok_def)
  note s = session_step_half [OF h(1) bi bj h(2) ij c step]
  have d: "datagrams (end_of r) \<subseteq> synacks j i" if "stage r \<noteq> Confirming" "stage r \<noteq> Running"
    using answerer_datagrams(2) [OF h(3,5) that] .
  have d0: "datagrams (end_of r) = {}" if "unanswered (stage r)"
    using answerer_datagrams(1) [OF h(3,5) that] .
  have st: "caller (stage l') \<and> (stage l = Running \<longrightarrow> stage l' = Running) \<and> (stage l' = Starting \<longrightarrow> stage l = Starting \<and> sock_type (sock (host_of l')) = sock_type (sock (host_of l)))
      \<and> (stage l \<noteq> Running \<and> stage l' = Running \<longrightarrow> arrived (end_of l) \<noteq> {})"
    using s(3) h(4) ok by (cases "stage l") (auto simp: session_ok_def)
  have a: "stage l' \<noteq> Running \<and> arrived (end_of l') = {}" if "unanswered (stage r)"
    using ok s(2) d0 [OF that] st that by (auto simp: session_ok_def)
  have b: "arrived (end_of r) \<subseteq> syns i" "arrived (end_of l') \<subseteq> synacks j i" "stage r \<noteq> Confirming" "stage r \<noteq> Running"
    if "stage l' \<noteq> Running"
  proof -
    have "stage l \<noteq> Running" using st that by blast
    with ok show "arrived (end_of r) \<subseteq> syns i" "stage r \<noteq> Confirming" "stage r \<noteq> Running"
      by (simp_all add: session_ok_def)
    with d s(2) ok \<open>stage l \<noteq> Running\<close> show "arrived (end_of l') \<subseteq> synacks j i" by (auto simp: session_ok_def)
  qed
  have "\<forall>d \<in> datagrams (end_of l') \<union> arrived (end_of r). mild i d"
  proof
    fix d assume "d \<in> datagrams (end_of l') \<union> arrived (end_of r)"
    moreover have "unat i + length (wrote (end_of l)) + MSS < 2 ^ 32"
      using bi prefix_length_le [OF session_step_wrote [OF step]] by simp
    from step_packets [OF h(1) this h(2) conjunct2 [OF s(1)] c(1) step, of d] st
    have "mild i d" if "d \<in> datagrams (end_of l')" "d \<notin> datagrams (end_of l)"
      using that plain_mild by (auto simp: mild_def)
    ultimately show "mild i d" using ok by (auto simp: session_ok_def)
  qed
  then show ?thesis using a b s(1) h(3,5) st ok by (simp add: session_ok_def)
qed

lemma session_ok_right:
  assumes ok: "session_ok i j l r" and ij: "i < - 1" "j < - 1"
    and bi: "unat i + length (wrote (end_of l)) + MSS < 2 ^ 32"
    and bj: "unat j + length (wrote (end_of r')) + MSS < 2 ^ 32"
    and step: "session_step (datagrams (end_of l)) r r'"
  shows "session_ok i j l r'"
proof -
  have h: "threads_linked j i (view j i r) (view i j l)" "local_ok j i r" "local_ok i j l" "caller (stage l)"
    "\<forall>p. stage r \<noteq> Calling p"
    using ok threads_linked_sym by (simp_all add: session_ok_def)
  have c: "(\<exists>p. stage r = Calling p) \<longrightarrow> arrived (end_of r) \<subseteq> synacks i j"
    "stage r = Listening \<longrightarrow> arrived (end_of r) \<subseteq> syns i"
    "(\<exists>p. stage r = Answering p) \<longrightarrow> (\<forall>d \<in> arrived (end_of r). mild i d)"
    using ok by (auto simp: session_ok_def)
  note s = session_step_half [OF h(1) bj bi h(2) ij(2,1) c step]
  have d: "datagrams (end_of l) \<subseteq> syns i" if "stage l \<noteq> Running"
    using caller_datagrams [OF h(3,4) that] .
  have st: "(\<forall>p. stage r' \<noteq> Calling p)
      \<and> (stage r' = Starting \<longrightarrow> stage r = Starting \<and> sock_type (sock (host_of r')) = sock_type (sock (host_of r)))
      \<and> (unanswered (stage r') \<longrightarrow> unanswered (stage r))
      \<and> (stage r' \<in> {Confirming, Running} \<longrightarrow> stage r \<in> {Confirming, Running} \<or> \<not> arrived (end_of r) \<subseteq> syns i)"
    using s(3) h(5) ok by (cases "stage r") (auto simp: session_ok_def split: if_splits)
  have "threads_linked i j (view i j l) (view j i r')" using s(1) threads_linked_sym by blast
  moreover have "stage l \<noteq> Running \<and> arrived (end_of l) = {}" if "unanswered (stage r')"
    using ok st that by (simp add: session_ok_def)
  moreover have "arrived (end_of r') \<subseteq> syns i" "arrived (end_of l) \<subseteq> synacks j i" "stage r' \<noteq> Confirming" "stage r' \<noteq> Running"
    if "stage l \<noteq> Running"
    using ok st d [OF that] s(2) that by (auto simp: session_ok_def)
  moreover have "\<forall>d \<in> datagrams (end_of l) \<union> arrived (end_of r'). mild i d"
    using ok s(2) by (auto simp: session_ok_def)
  ultimately show ?thesis using s(1) h(3,4) st ok by (simp add: session_ok_def)
qed

end
