(* ===== verification/Session_Facts.thy ===== *)
theory Session_Facts
  imports Session_Pairs
begin

text \<open>
  A session from \<open>cmu_socket\<close> on satisfies the invariant; its applications wait only when there is
  nothing to read, its threads end only when everything is sent and acknowledged.
\<close>

section \<open>From \<open>cmu_socket\<close> on\<close>

text \<open>A process before it calls \<open>cmu_socket\<close>: nothing arrived, nothing sent, nothing on the heap.\<close>

definition new_process :: "host \<Rightarrow> bool" where
  "new_process w \<longleftrightarrow> inbox w = [] \<and> outbox w = [] \<and> heap_ok (segs w) []
     \<and> counter1 w = 0 \<and> counter2 w = 0 \<and> counter3 w = 0"

lemma cmu_socket_fresh:
  assumes "cmu_socket inet_addr os w ty port ip = Inr (w', EXIT_SUCCESS)" and "new_process w"
    and "rand_value os < - 1"
  shows "fresh_socket (rand_value os) w' \<and> sock_type (sock w') = ty \<and> inbox w' = [] \<and> \<not> initialized (sock w')
    \<and> dying (sock w') = 0 \<and> s_capacity (send_buf (sock w')) = 1024"
proof -
  let ?sb = "send_buffer_create (mem_junk w) (send_buf (sock w)) 1024"
  obtain sb where sb: "send_buffer_initialize (clock w) ?sb (rand_value os) = Inr sb"
    "sb_wf sb" "s_capacity sb = 1024" "sb_abs sb = \<lparr>q_base = rand_value os, q_inflight = [], q_fresh = []\<rparr>"
    using send_buffer_initialize_abs [of ?sb "clock w" "rand_value os"]
    by (auto simp: send_buffer_create_def)
  obtain w1 where w1: "init_socket os w ty = Inr w1"
    and f: "fresh_socket (rand_value os) w1 \<and> sock_type (sock w1) = ty \<and> inbox w1 = [] \<and> \<not> initialized (sock w1)
      \<and> dying (sock w1) = 0 \<and> s_capacity (send_buf (sock w1)) = 1024"
    using sb assms(2,3)
    by (simp add: init_socket_def DEFAULT_BUFF_SIZE_def Let_def recv_buffer_create_def fresh_socket_def
        new_process_def cap_def rb_nat malloc_def)
  have "socket_ok os" "cond_ok os" using assms(1) by (auto simp: cmu_socket_def EXIT_SUCCESS_def EXIT_ERROR_def split: if_splits)
  then have "\<exists>a p. w' = upd_sock (\<lambda>s. s\<lparr>conn := a, my_port := p\<rparr>) w1"
    using assms(1) w1
    by (auto simp: cmu_socket_def EXIT_SUCCESS_def EXIT_ERROR_def Let_def upd_sock_def
        split: if_splits cmu_socket_type_t.splits option.splits)
  then show ?thesis using f by (auto simp: fresh_socket_def)
qed

lemma opened_ok:
  assumes c: "fresh_socket i c" "sock_type (sock c) = TCP_INITIATOR" "inbox c = []" "\<not> initialized (sock c)"
    and s: "fresh_socket j s" "sock_type (sock s) = TCP_LISTENER" "inbox s = []" "\<not> initialized (sock s)"
  shows "session_ok i j (opened c) (opened s)"
proof -
  have ij: "i < - 1" "j < - 1" and o: "outbox c = []" "outbox s = []" using c s by (simp_all add: fresh_socket_def)
  let ?l = "ep (view i j (opened c))" and ?r = "ep (view j i (opened s))"
  have l: "sending i ?l" "base_seq ?l = unat i" "sent ?l = []"
    by (rule initial_sender [OF c(1)]; simp add: opened_def)+
  have r: "sending j ?r" "base_seq ?r = unat j" "sent ?r = []"
    by (rule initial_sender [OF s(1)]; simp add: opened_def)+
  have lr: "receiving j [] ?l" "next_seq ?l = unat j + 1"
    by (rule initial_receiver [OF c(1) ij(2)]; simp add: opened_def)+
  have rr: "receiving i [] ?r" "next_seq ?r = unat i + 1"
    by (rule initial_receiver [OF s(1) ij(1)]; simp add: opened_def)+
  have "linked i j ?l ?r"
    using l r lr rr c(3) s(3) o by (simp add: linked_def linked_to_def datagrams_def arrived_def opened_def)
  then have "threads_linked i j (view i j (opened c)) (view j i (opened s))"
    by (simp add: threads_linked_def opened_def)
  moreover have "local_ok i j (opened c)" "local_ok j i (opened s)"
    using c s o by (simp_all add: local_ok_def opened_def unready_def fresh_socket_def datagrams_def)
  ultimately show ?thesis
    using c s o by (simp add: session_ok_def opened_def arrived_def datagrams_def)
qed

lemma sessions_ok:
  assumes "sessions l0 r0 l r" and "session_ok i j l0 r0" and "i < - 1" and "j < - 1"
    and "unat i + length (wrote (end_of l)) + MSS < 2 ^ 32" and "unat j + length (wrote (end_of r)) + MSS < 2 ^ 32"
  shows "session_ok i j l r"
  using assms
proof (induction rule: sessions.induct)
  case start
  then show ?case by simp
next
  case (left l r l')
  have "length (wrote (end_of l)) \<le> length (wrote (end_of l'))"
    using left.hyps(2) by (intro prefix_length_le session_step_wrote)
  then show ?case using left by (intro session_ok_left [OF _ _ _ _ _ left.hyps(2)]) simp_all
next
  case (right l r r')
  have "length (wrote (end_of r)) \<le> length (wrote (end_of r'))"
    using right.hyps(2) by (intro prefix_length_le session_step_wrote)
  then show ?case using right by (intro session_ok_right [OF _ _ _ _ _ right.hyps(2)]) simp_all
qed

section \<open>Waiting and ending\<close>

fun unopened :: "stage \<Rightarrow> bool" where
  "unopened Starting \<longleftrightarrow> True" | "unopened (Calling p) \<longleftrightarrow> True" | "unopened Listening \<longleftrightarrow> True" | "unopened _ \<longleftrightarrow> False"

text \<open>The application waits only when there is nothing to read, and only once it may call at all.\<close>

definition alert :: "session \<Rightarrow> bool" where
  "alert s \<longleftrightarrow> (initialized (sock (host_of s)) \<longleftrightarrow> \<not> unopened (stage s))
     \<and> (waiting (thr s) \<longrightarrow> initialized (sock (host_of s)) \<and> recv_buffer_max_read (recv_buf (sock (host_of s))) = 0)"

lemma sends_frame:
  "send_syn w p n = Inr w' \<Longrightarrow> sock w' = sock w" "send_syn_ack w p n = Inr w' \<Longrightarrow> sock w' = sock w"
  by (auto simp: send_syn_def send_syn_ack_def dest: sendto_frame split: if_splits)

lemma client_syn_ack_frame: "client_syn_ack w hdr = Inr w' \<Longrightarrow> initialized (sock w') = initialized (sock w)
    \<and> dying (sock w') = dying (sock w) \<and> s_capacity (send_buf (sock w')) = s_capacity (send_buf (sock w))"
  by (auto simp: client_syn_ack_def Let_def upd_window_def dest!: sendto_frame split: if_splits)

lemma client_turn_frame: "client_turn w p n to = Inr w' \<Longrightarrow> initialized (sock w') = initialized (sock w)
    \<and> dying (sock w') = dying (sock w) \<and> s_capacity (send_buf (sock w')) = s_capacity (send_buf (sock w))"
  by (auto simp: client_turn_def recvfrom_peek_def recvfrom_def dest!: sends_frame client_syn_ack_frame
      split: if_splits list.splits option.splits)

lemma session_section_alert:
  assumes "session_section timed_out st c w = Inr (w', st', c', sg)"
    and "initialized (sock w) \<longleftrightarrow> \<not> unopened st"
  shows "(initialized (sock w') \<longleftrightarrow> \<not> unopened st') \<and> dying (sock w') = dying (sock w) \<and> s_capacity (send_buf (sock w')) = s_capacity (send_buf (sock w))
    \<and> (initialized (sock w) \<longrightarrow> initialized (sock w') \<and> (\<not> sg \<longrightarrow> recv_buf (sock w') = recv_buf (sock w)))"
proof (cases st)
  case Starting
  then show ?thesis using assms by (auto simp: client_starts_def dest!: sends_frame split: if_splits)
next
  case (Calling p)
  then show ?thesis using assms by (auto dest!: client_turn_frame split: if_splits)
next
  case Listening
  then show ?thesis using assms by (auto simp: take_syn_def recvfrom_def split: list.splits)
next
  case (Greeting q)
  then show ?thesis using assms by (auto simp: answer_syn_def Let_def upd_window_def dest!: sends_frame)
next
  case (Answering p)
  obtain v q where q: "take_confirmation w p = Inr (v, q)"
    "(case q of None \<Rightarrow> (v, Answering p, c, False) | Some pkt \<Rightarrow> (v, Confirming, Handle pkt, False)) = (w', st', c', sg)"
    using assms(1) Answering by auto
  then show ?thesis using take_confirmation_frame [OF q(1)] assms(2) Answering by (cases q) auto
next
  case Confirming
  then show ?thesis using assms by (auto dest!: thread_section_frame split: if_splits)
next
  case Running
  then show ?thesis using assms by (auto dest!: thread_section_frame split: if_splits)
qed

lemma alert_step:
  assumes "session_step net s s'" and "alert s"
  shows "alert s'"
  using assms(1)
proof cases
  case (backend timed_out w st c sg)
  have "initialized (sock (host_of s)) \<longleftrightarrow> \<not> unopened (stage s)" using assms(2) by (simp add: alert_def)
  from session_section_alert [OF backend(2) this] assms(2) show ?thesis
    unfolding backend(1) alert_def by auto
next
  case (beside t)
  have "waiting t \<longrightarrow> recv_buffer_max_read (rb_of (ep t)) = 0"
    using waits_step [OF thread_step.beside [OF beside(2)]] assms(2) by (simp add: alert_def)
  then show ?thesis
    using aside_frame [OF beside(2)] aside_uninitialised [OF beside(2)] assms(2) unfolding beside(1) alert_def by auto
qed

lemma alert_run:
  assumes "sessions l0 r0 l r" and "alert l0" and "alert r0"
  shows "alert l \<and> alert r"
  using assms by (induction rule: sessions.induct) (auto dest: alert_step)

definition closes_well :: "session \<Rightarrow> bool" where
  "closes_well s \<longleftrightarrow> (stage s = Running \<longrightarrow> ends_well (pc (thr s)) (thr s))"

lemma closes_well_step:
  assumes step: "session_step net s s'" and ok: "local_ok own peer s" "sending own (ep (view own peer s))"
    and w: "closes_well s"
  shows "closes_well s'"
  using step
proof cases
  case (backend timed_out v st c sg)
  show ?thesis
  proof (cases "stage s = Running")
    case True
    then have "thread_section (pc (thr s)) (host_of s) = Inr (v, c, sg)" "st = Running" using backend(2) by auto
    from thread_step.backend [OF this(1), of "{}"]
    have "thread_step {} (thr s) (thr s')" unfolding backend(1) by (simp add: moved_def)
    moreover have "sb_wf (sb_of (end_of s))" using ok(2) True by (auto simp: view_settled elim: sendingE)
    ultimately show ?thesis using ends_well_step w True by (simp add: closes_well_def)
  next
    case False
    then have "st = Running \<longrightarrow> c = Check_death"
      using backend(2) ok(1) by (cases "stage s") (auto simp: local_ok_def split: if_splits option.splits)
    then show ?thesis by (auto simp: closes_well_def backend(1))
  qed
next
  case (beside t)
  show ?thesis
  proof (cases "stage s = Running")
    case True
    then have "sb_wf (sb_of (end_of s))" using ok(2) by (auto simp: view_settled elim: sendingE)
    then show ?thesis using ends_well_step [OF thread_step.beside [OF beside(2)]] w True
      by (simp add: closes_well_def beside(1))
  qed (simp add: closes_well_def beside(1))
qed

lemma session_ok_parts:
  assumes "session_ok i j l r"
  shows "local_ok i j l" "local_ok j i r" "sending i (ep (view i j l))" "sending j (ep (view j i r))"
    "linked i j (ep (view i j l)) (ep (view j i r))"
  using assms by (simp_all add: session_ok_def threads_linked_def linked_def linked_to_def)

lemma closes_well_run:
  assumes "sessions l0 r0 l r" and "session_ok i j l0 r0" and "i < - 1" and "j < - 1"
    and "unat i + length (wrote (end_of l)) + MSS < 2 ^ 32" and "unat j + length (wrote (end_of r)) + MSS < 2 ^ 32"
    and "closes_well l0" and "closes_well r0"
  shows "closes_well l \<and> closes_well r"
  using assms
proof (induction rule: sessions.induct)
  case start
  then show ?case by simp
next
  case (left l r l')
  have "length (wrote (end_of l)) \<le> length (wrote (end_of l'))"
    using left.hyps(2) by (intro prefix_length_le session_step_wrote)
  then have "session_ok i j l r" using sessions_ok [OF left.hyps(1)] left.prems by simp
  from closes_well_step [OF left.hyps(2) session_ok_parts(1,3) [OF this]] left show ?case
    using \<open>length (wrote (end_of l)) \<le> length (wrote (end_of l'))\<close> by simp
next
  case (right l r r')
  have "length (wrote (end_of r)) \<le> length (wrote (end_of r'))"
    using right.hyps(2) by (intro prefix_length_le session_step_wrote)
  then have "session_ok i j l r" using sessions_ok [OF right.hyps(1)] right.prems by simp
  from closes_well_step [OF right.hyps(2) session_ok_parts(2,4) [OF this]] right show ?case
    using \<open>length (wrote (end_of r)) \<le> length (wrote (end_of r'))\<close> by simp
qed

section \<open>The streams\<close>

text \<open>What the application could read at once: nothing before the socket is initialised.\<close>

definition available :: "session \<Rightarrow> u8 list" where
  "available s = (if initialized (sock (host_of s)) then readable (end_of s) else [])"

lemma available_view:
  assumes ok: "alert s"
  shows "readable (ep (view own peer s)) = available s"
proof (cases "unopened (stage s)")
  case True
  then have "last_byte_read_index (rb_of (ep (view own peer s))) = 0"
    "next_byte_expected_index (rb_of (ep (view own peer s))) = 1"
    by (cases "stage s"; simp)+
  then have "readable (ep (view own peer s)) = []"
    by (simp add: readable_def expected_seq_def expected_dist_def dist1_def rb_nat)
  moreover have "available s = []" using ok True by (simp add: available_def alert_def)
  ultimately show ?thesis by simp
next
  case False
  then have "rb_of (ep (view own peer s)) = rb_of (end_of s)" by (cases "stage s") (auto split: control.splits)
  then show ?thesis using ok False by (simp add: available_def alert_def readable_def)
qed

end
