(* ===== verification/Session_Progress.thy ===== *)
theory Session_Progress
  imports Session_Facts
begin

text \<open>
  The handshake within a session: its sections succeed or wait for a datagram, and it can be
  completed after losses, as long as the client's last packet comes through.
\<close>

section \<open>The handshake does not fail\<close>

lemma caller_succeeds:
  assumes ok: "session_ok i j l r" and st: "stage l \<noteq> Running"
  shows "\<exists>x. session_section timed_out (stage l) (pc (thr l)) (host_of l) = Inr x"
proof -
  have h: "local_ok i j l" "caller (stage l)" "stage l = Starting \<longrightarrow> sock_type (sock (host_of l)) = TCP_INITIATOR"
    "arrived (end_of l) \<subseteq> synacks j i" using ok st by (simp_all add: session_ok_def)
  show ?thesis
  proof (cases "stage l")
    case Starting
    then show ?thesis using h client_starts_ok [of i "host_of l"] by (auto simp: local_ok_def)
  next
    case (Calling p)
    obtain d where u: "unready i (host_of l)" "d \<in> syns i" "p = Some d" using h(1) Calling by (auto simp: local_ok_def)
    show ?thesis
    proof (cases "timed_out \<or> inbox (host_of l) = []")
      case True
      then show ?thesis using client_turn_resends [OF u(1,2) True] Calling u(3) by auto
    next
      case False
      then obtain a q rest where ib: "inbox (host_of l) = (a, q) # rest" "\<not> timed_out" by (cases "inbox (host_of l)") auto
      then have q: "q \<in> synacks j i" using h(4) by (auto simp: arrived_def)
      show ?thesis using client_turn_connects [OF u(1) ib(2,1) q] Calling by auto
    qed
  qed (use st h(2) in simp_all)
qed

text \<open>An acknowledgement that reaches a server in \<open>SYN_RCVD\<close> is the one it waits for.\<close>

lemma mild_at_answerer:
  assumes v: "valid_datagram peer t own (unat own + 1) d" and m: "mild peer d" and s: "d \<notin> syns peer"
  shows "\<exists>src dst seq adv p. d = peer_packet src dst seq (own + 1) ACK_FLAG_MASK adv p \<and> length p + 25 < 2 ^ 16"
proof -
  obtain src dst seq ack flags adv p where p: "d = peer_packet src dst seq ack flags adv p"
    and f: "valid_fields peer t own (unat own + 1) seq ack flags p" using v unfolding valid_datagram_def by blast
  have lp: "length p + 25 < 2 ^ 16" using f by (simp add: valid_fields_def)
  have fl: "flags = ACK_FLAG_MASK" using m s peer_packet_fields(1) [OF lp] by (simp add: mild_def p)
  then have "unat ack = unat own + 1" using f by (simp add: valid_fields_def flag_tests)
  moreover from this have "unat (own + 1) = unat own + 1"
    using unat_u32_less [of ack] by (simp add: unat_word_ariths)
  ultimately have "ack = own + 1" by (intro u32_eqI) simp
  then show ?thesis using p fl lp by blast
qed

lemma answering_turn:
  assumes ok: "session_ok i j l r" and j: "j < - 1" and st: "stage r = Answering packet" and ib: "inbox (host_of r) = (a, d) # rest"
  shows "take_confirmation (host_of r) packet =
    (if d \<in> syns i then Inr (upd_sock (\<lambda>s. s\<lparr>conn := a\<rparr>) ((host_of r)\<lparr>inbox := rest,
        outbox := outbox (host_of r) @ [(a, the packet)]\<rparr>), None)
     else Inr (upd_sock (\<lambda>s. s\<lparr>conn := a, state := ESTABLISHED\<rparr>) ((host_of r)\<lparr>inbox := rest\<rparr>), Some d))"
proof -
  have h: "local_ok j i r" "\<forall>d \<in> arrived (end_of r). mild i d" "linked i j (ep (view i j l)) (ep (view j i r))"
    using ok by (simp_all add: session_ok_def threads_linked_def)
  obtain k where u: "k \<in> synacks j i" "packet = Some k" "last_ack_received (window (sock (host_of r))) = j"
    "counter3 (host_of r) = 0" "sent (end_of r) = []"
    using h(1) st by (auto simp: local_ok_def)
  have lk: "length k = 25" using u(1) by (auto simp: synacks_iff)
  have d: "d \<in> arrived (end_of r)" using ib by (auto simp: arrived_def)
  have "receiving j (sent (end_of r)) (ep (view i j l))"
    and v: "valid_datagram i (sent (end_of l)) j (next_seq (ep (view i j l))) d"
    using h(3) d by (auto simp: linked_def linked_to_def)
  from readable_prefix(3) [OF this(1)] have le: "next_seq (ep (view i j l)) \<le> unat j + 1" using u(5) by simp
  have v: "valid_datagram i (sent (end_of l)) j (unat j + 1) d"
    by (rule valid_datagram_mono [OF v _ le]) simp
  show ?thesis
  proof (cases "d \<in> syns i")
    case True
    then obtain src dst where k: "d = peer_packet src dst i 0 SYN_FLAG_MASK (of_nat CP1_WINDOW_SIZE) []"
      by (auto simp: syns_iff control_packet)
    show ?thesis using take_confirmation_ok [OF u(3,4) lk ib [unfolded k]] True by (simp add: u(2) flag_tests)
  next
    case False
    obtain src dst seq adv p where k: "d = peer_packet src dst seq (j + 1) ACK_FLAG_MASK adv p" "length p + 25 < 2 ^ 16"
      using mild_at_answerer [OF v _ False] h(2) d by blast
    show ?thesis using take_confirmation_ok [OF u(3,4) lk ib [unfolded k(1)] k(2)] False by (simp add: u(2) k(1) flag_tests)
  qed
qed

lemma confirming_succeeds:
  assumes ok: "session_ok i j l r" and ij: "i < - 1" "j < - 1"
    and bi: "unat i + length (wrote (end_of l)) + MSS < 2 ^ 32" and bj: "unat j + length (wrote (end_of r)) + MSS < 2 ^ 32"
    and st: "stage r = Confirming"
  shows "\<exists>x. thread_section (pc (thr r)) (host_of r) = Inr x"
proof -
  have lk: "threads_linked j i (view j i r) (view i j l)" and lo: "local_ok j i r"
    using ok threads_linked_sym by (simp_all add: session_ok_def)
  have pc: "pc (thr r) \<noteq> Ended" "pc (thr r) \<noteq> Transmit" 
    and fl: "\<And>pkt. pc (thr r) = Handle pkt \<Longrightarrow> get_flags pkt = Inr ACK_FLAG_MASK"
    using lo st by (auto simp: local_ok_def)
  have "\<exists>x. thread_section (pc (view j i r)) (proc (ep (view j i r))) = Inr x"
    by (rule section_succeeds [OF lk]) (use bi bj pc fl in simp_all)
  then show ?thesis
  proof (cases "\<exists>pkt. pc (thr r) = Handle pkt")
    case True
    then obtain pkt where c: "pc (thr r) = Handle pkt" ..
    have k: "get_flags pkt = Inr ACK_FLAG_MASK" "get_ack pkt = Inr (j + 1)" "last_ack_received (window (sock (host_of r))) = j"
      "next_seq_expected (window (sock (host_of r))) = i + 1" "state (sock (host_of r)) = ESTABLISHED"
      using lo st c by (simp_all add: local_ok_def)
    have "sending j (ep (view j i r))" "acked_to (ep (view j i r)) = unat j + 1"
      using lk st c below_minus1 [OF ij(2)] by (simp_all add: threads_linked_def linked_def linked_to_def acked_to_def)
    then have "base_seq (ep (view j i r)) = unat j" by (simp add: sending_def)
    then have "last_byte_acked_seqnum (send_buf (sock (host_of r))) = j" by (intro u32_eqI) (simp add: base_seq_def)
    from handle_header_agreed [OF k(2,5,3,4) this ij(2) k(1)]
    show ?thesis using \<open>\<exists>x. thread_section (pc (view j i r)) (proc (ep (view j i r))) = Inr x\<close> st c by simp
  next
    case False
    then have "view j i r = thr r" by (intro view_settled) (simp add: st)
    with \<open>\<exists>x. thread_section (pc (view j i r)) (proc (ep (view j i r))) = Inr x\<close> show ?thesis by simp
  qed
qed

lemma answerer_succeeds:
  assumes ok: "session_ok i j l r" and ij: "i < - 1" "j < - 1"
    and bi: "unat i + length (wrote (end_of l)) + MSS < 2 ^ 32" and bj: "unat j + length (wrote (end_of r)) + MSS < 2 ^ 32"
    and st: "stage r \<noteq> Running"
  shows "(\<exists>x. session_section timed_out (stage r) (pc (thr r)) (host_of r) = Inr x)
    \<or> session_section timed_out (stage r) (pc (thr r)) (host_of r) = Inl Blocked \<and> inbox (host_of r) = []
      \<and> (stage r = Listening \<or> (\<exists>p. stage r = Answering p))"
proof (cases "stage r")
  case Starting
  then show ?thesis using ok by (auto simp: session_ok_def)
next
  case (Calling p)
  then show ?thesis using ok by (simp add: session_ok_def)
next
  case Listening
  have h: "unready j (host_of r)" "arrived (end_of r) \<subseteq> syns i"
    using ok Listening by (auto simp: session_ok_def local_ok_def)
  show ?thesis
  proof (cases "inbox (host_of r)")
    case Nil
    then show ?thesis using Listening by (simp add: take_syn_def recvfrom_def)
  next
    case (Cons x rest)
    obtain a d where x: "x = (a, d)" by (cases x)
    then have "d \<in> syns i" using h(2) Cons by (auto simp: arrived_def)
    from take_syn_ok [OF h(1) Cons [unfolded x] this] show ?thesis using Listening by auto
  qed
next
  case (Greeting q)
  then have "q = i" "last_ack_received (window (sock (host_of r))) = j" "counter3 (host_of r) = 0"
    using ok by (auto simp: session_ok_def local_ok_def)
  then show ?thesis using answer_syn_ok [of "host_of r" j i] Greeting by auto
next
  case (Answering p)
  show ?thesis
  proof (cases "inbox (host_of r)")
    case Nil
    then show ?thesis using Answering by (simp add: take_confirmation_def recvfrom_peek_def)
  next
    case (Cons x rest)
    obtain a d where x: "x = (a, d)" by (cases x)
    from answering_turn [OF ok ij(2) Answering Cons [unfolded x]] show ?thesis using Answering by auto
  qed
next
  case Confirming
  obtain w c sg where "thread_section (pc (thr r)) (host_of r) = Inr (w, c, sg)"
    using confirming_succeeds [OF ok ij bi bj Confirming] by auto
  then show ?thesis by (simp add: Confirming)
qed (use st in simp)


section \<open>The handshake can be completed\<close>

text \<open>
  Both sides as the invariant has them, within the bounds; and runs that keep them so, in
  which the applications do nothing.
\<close>

definition ready :: "u32 \<Rightarrow> u32 \<Rightarrow> session \<Rightarrow> session \<Rightarrow> bool" where
  "ready i j l r \<longleftrightarrow> session_ok i j l r \<and> alert l \<and> alert r \<and> i < - 1 \<and> j < - 1
     \<and> unat i + length (wrote (end_of l)) + MSS < 2 ^ 32 \<and> unat j + length (wrote (end_of r)) + MSS < 2 ^ 32"

definition idle :: "session \<Rightarrow> session \<Rightarrow> bool" where
  "idle s s' \<longleftrightarrow> wrote (end_of s') = wrote (end_of s) \<and> got (end_of s') = got (end_of s)
     \<and> dying (sock (host_of s')) = dying (sock (host_of s))
     \<and> s_capacity (send_buf (sock (host_of s'))) = s_capacity (send_buf (sock (host_of s))) \<and> (waiting (thr s') \<longrightarrow> waiting (thr s))"

lemma idle_trans: "idle s s1 \<Longrightarrow> idle s1 s' \<Longrightarrow> idle s s'"
  by (simp add: idle_def)

text \<open>
  Runs after losses: everything that is on its way in the states \<open>l0\<close> and \<open>r0\<close> is lost, but for
  the datagrams of the client in \<open>kept\<close>. What comes in later was sent later.
\<close>

definition sent_since :: "session \<Rightarrow> session \<Rightarrow> u8 list set" where
  "sent_since s0 s = snd ` set (drop (length (outbox (host_of s0))) (outbox (host_of s)))"

inductive after_losses :: "u8 list set \<Rightarrow> session \<Rightarrow> session \<Rightarrow> session \<Rightarrow> session \<Rightarrow> bool" for kept l0 r0 where
  start: "after_losses kept l0 r0 l0 r0"
| left: "after_losses kept l0 r0 l r \<Longrightarrow> session_step (sent_since r0 r) l l' \<Longrightarrow> after_losses kept l0 r0 l' r"
| right: "after_losses kept l0 r0 l r \<Longrightarrow> session_step (kept \<union> sent_since l0 l) r r' \<Longrightarrow> after_losses kept l0 r0 l r'"

lemma aside_step_mono: "aside_step net s t \<Longrightarrow> net \<subseteq> net' \<Longrightarrow> aside_step net' s t"
  by (induction rule: aside_step.induct) (blast intro: aside_step.intros)+

lemma session_step_mono:
  assumes "session_step net s s'" and "net \<subseteq> net'"
  shows "session_step net' s s'"
  using assms(1)
proof cases
  case backend
  then show ?thesis using session_step.backend by simp
next
  case (beside t)
  then show ?thesis using session_step.beside [OF aside_step_mono] assms(2) by simp
qed

text \<open>What was sent stays sent.\<close>

lemma take_syn_outbox: "take_syn w = Inr (w', q) \<Longrightarrow> outbox w' = outbox w"
  by (auto simp: take_syn_def recvfrom_def split: list.splits if_splits)

lemma client_turn_sends: "client_turn w p n timed_out = Inr w' \<Longrightarrow> prefix (outbox w) (outbox w')"
  by (auto simp: client_turn_def recvfrom_peek_def recvfrom_def client_syn_ack_def send_syn_def Let_def
      dest!: sendto_frame split: list.splits if_splits)

lemma session_section_sends:
  assumes "session_section timed_out st c w = Inr (w', st', c', sg)"
  shows "prefix (outbox w) (outbox w')"
proof (cases st)
  case Starting
  then show ?thesis using assms by (auto simp: client_starts_def send_syn_def dest!: sendto_frame split: if_splits)
next
  case (Calling p)
  then show ?thesis using assms by (auto dest!: client_turn_sends split: if_splits)
next
  case Listening
  then show ?thesis using assms by (auto dest!: take_syn_outbox)
next
  case (Greeting q)
  then show ?thesis using assms by (auto simp: answer_syn_def send_syn_ack_def Let_def dest!: sendto_frame split: if_splits)
next
  case (Answering p)
  then show ?thesis
    using assms by (auto simp: take_confirmation_def recvfrom_peek_def recv_packet_def send_syn_ack_def dest!: sendto_frame
      split: list.splits if_splits option.splits)
qed (use assms in \<open>auto dest!: section_sends split: if_splits\<close>)

lemma session_step_sends:
  assumes "session_step net s s'"
  shows "prefix (outbox (host_of s)) (outbox (host_of s'))"
  using assms
proof cases
  case backend
  then show ?thesis using session_section_sends by simp
next
  case (beside t)
  then show ?thesis using aside_frame [OF beside(2)] by simp
qed

lemma sent_since_datagrams: "sent_since s0 s \<subseteq> datagrams (end_of s)"
  using set_drop_subset by (fastforce simp: sent_since_def datagrams_def)

lemma datagrams_mono: "prefix (outbox (host_of s)) (outbox (host_of s')) \<Longrightarrow> datagrams (end_of s) \<subseteq> datagrams (end_of s')"
  by (auto simp: datagrams_def prefix_def)

text \<open>
  Such a run that has come to a state within the bounds, in which the applications have done
  nothing.
\<close>

definition leads :: "u8 list set \<Rightarrow> u32 \<Rightarrow> u32 \<Rightarrow> session \<Rightarrow> session \<Rightarrow> session \<Rightarrow> session \<Rightarrow> bool" where
  "leads kept i j l0 r0 l r \<longleftrightarrow> after_losses kept l0 r0 l r \<and> sessions l0 r0 l r \<and> ready i j l r \<and> idle l0 l \<and> idle r0 r
     \<and> prefix (outbox (host_of l0)) (outbox (host_of l)) \<and> prefix (outbox (host_of r0)) (outbox (host_of r))
     \<and> kept \<subseteq> datagrams (end_of l0)"

lemma sessions_trans:
  assumes "sessions l r l' r'" and "sessions l0 r0 l r"
  shows "sessions l0 r0 l' r'"
  using assms by (induction rule: sessions.induct) (auto intro: sessions.left sessions.right)

lemma leads_refl: "ready i j l r \<Longrightarrow> kept \<subseteq> datagrams (end_of l) \<Longrightarrow> leads kept i j l r l r"
  by (simp add: leads_def sessions.start after_losses.start idle_def)

lemma leads_left:
  assumes "leads kept i j l0 r0 l r" and "session_step (sent_since r0 r) l l'" and "idle l l'"
  shows "leads kept i j l0 r0 l' r"
proof -
  note st = session_step_mono [OF assms(2) sent_since_datagrams]
  show ?thesis
    using assms session_ok_left [of i j l r l'] alert_step [OF st] st session_step_sends [OF st]
      sessions.left [OF _ st] after_losses.left [OF _ assms(2)] idle_trans prefix_order.trans
    unfolding leads_def ready_def by (auto simp: idle_def)
qed

lemma leads_right:
  assumes "leads kept i j l0 r0 l r" and "session_step (kept \<union> sent_since l0 l) r r'" and "idle r r'"
  shows "leads kept i j l0 r0 l r'"
proof -
  have "kept \<subseteq> datagrams (end_of l)" using assms(1) datagrams_mono unfolding leads_def by blast
  then have "kept \<union> sent_since l0 l \<subseteq> datagrams (end_of l)" using sent_since_datagrams by blast
  note st = session_step_mono [OF assms(2) this]
  show ?thesis
    using assms session_ok_right [of i j l r r'] alert_step [OF st] st session_step_sends [OF st]
      sessions.right [OF _ st] after_losses.right [OF _ assms(2)] idle_trans prefix_order.trans
    unfolding leads_def ready_def by (auto simp: idle_def)
qed

lemma ready_leads: "leads kept i j l0 r0 l r \<Longrightarrow> ready i j l r"
  by (simp add: leads_def)

lemma ready_ok: "ready i j l r \<Longrightarrow> session_ok i j l r"
  by (simp add: ready_def)

lemma sent_now:
  assumes "leads kept i j l0 r0 l r" and "(a, d) \<in> set ms"
  shows "outbox (host_of l') = outbox (host_of l) @ ms \<Longrightarrow> d \<in> sent_since l0 l'"
    and "outbox (host_of r') = outbox (host_of r) @ ms \<Longrightarrow> d \<in> sent_since r0 r'"
  using assms by (force simp: leads_def sent_since_def prefix_def)+

text \<open>A datagram comes in at the end of the queue.\<close>

definition brought :: "u8 list \<Rightarrow> session \<Rightarrow> session" where
  "brought d s = s\<lparr>thr := (thr s)\<lparr>ep := (end_of s)\<lparr>proc := (host_of s)\<lparr>inbox := inbox (host_of s) @ [(conn (sock (host_of s)), d)]\<rparr>\<rparr>\<rparr>\<rparr>"

lemma brought_simps [simp]:
  "stage (brought d s) = stage s" "pc (thr (brought d s)) = pc (thr s)" "wrote (end_of (brought d s)) = wrote (end_of s)"
  "host_of (brought d s) = (host_of s)\<lparr>inbox := inbox (host_of s) @ [(conn (sock (host_of s)), d)]\<rparr>"
  "datagrams (end_of (brought d s)) = datagrams (end_of s)" "idle s (brought d s)"
  by (simp_all add: brought_def datagrams_def idle_def)

lemma brought_step: "d \<in> net \<Longrightarrow> session_step net s (brought d s)"
  unfolding brought_def by (intro session_step.beside aside_step.arrive)

lemma leads_brought:
  "leads kept i j l0 r0 l r \<Longrightarrow> d \<in> sent_since r0 r \<Longrightarrow> leads kept i j l0 r0 (brought d l) r"
  "leads kept i j l0 r0 l r \<Longrightarrow> d \<in> kept \<union> sent_since l0 l \<Longrightarrow> leads kept i j l0 r0 l (brought d r)"
  by (erule leads_left leads_right; simp add: brought_step)+

text \<open>A section of a thread, named by its result.\<close>

lemma section_idle:
  assumes "session_section timed_out (stage s) (pc (thr s)) (host_of s) = Inr (w, st, c, sg)" and "alert s"
  shows "idle s (moved s w st c sg)"
  using session_section_alert [OF assms(1)] assms(2) by (simp add: idle_def alert_def)

lemma leads_section:
  assumes "leads kept i j l0 r0 l r"
  shows "session_section timed_out (stage l) (pc (thr l)) (host_of l) = Inr (w, st, c, sg) \<Longrightarrow>
      leads kept i j l0 r0 (moved l w st c sg) r"
    and "session_section timed_out (stage r) (pc (thr r)) (host_of r) = Inr (w, st, c, sg) \<Longrightarrow>
      leads kept i j l0 r0 l (moved r w st c sg)"
proof -
  have al: "alert l" "alert r" using assms by (simp_all add: leads_def ready_def)
  show "session_section timed_out (stage l) (pc (thr l)) (host_of l) = Inr (w, st, c, sg) \<Longrightarrow>
      leads kept i j l0 r0 (moved l w st c sg) r"
    by (rule leads_left [OF assms session_step.backend]) (simp_all add: section_idle al(1))
  show "session_section timed_out (stage r) (pc (thr r)) (host_of r) = Inr (w, st, c, sg) \<Longrightarrow>
      leads kept i j l0 r0 l (moved r w st c sg)"
    by (rule leads_right [OF assms session_step.backend]) (simp_all add: section_idle al(2))
qed

text \<open>The client sends its SYN.\<close>

lemma client_calls:
  assumes ld: "leads kept i j l0 r0 l r" and st: "stage l \<noteq> Running"
  shows "\<exists>l' p. leads kept i j l0 r0 l' r \<and> stage l' = Calling p \<and> sent_since l0 l' \<noteq> {}"
proof -
  note ok = ready_ok [OF ready_leads [OF ld]]
  have h: "local_ok i j l" "caller (stage l)" "stage l = Starting \<longrightarrow> sock_type (sock (host_of l)) = TCP_INITIATOR"
    using ok by (simp_all add: session_ok_def)
  obtain w p a d where w: "session_section True (stage l) (pc (thr l)) (host_of l) = Inr (w, Calling p, pc (thr l), False)"
    "outbox w = outbox (host_of l) @ [(a, d)]"
  proof (cases "stage l")
    case Starting
    then obtain d where "client_starts (host_of l) = Inr (upd_sock (\<lambda>s. s\<lparr>state := SYN_SENT\<rparr>)
        ((host_of l)\<lparr>outbox := outbox (host_of l) @ [(conn (sock (host_of l)), d)]\<rparr>), Some d)"
      using h client_starts_ok [of i "host_of l"] by (auto simp: local_ok_def)
    then show ?thesis using that Starting h(3) by simp
  next
    case (Calling p)
    obtain d where u: "unready i (host_of l)" "d \<in> syns i" "p = Some d" "state (sock (host_of l)) \<noteq> ESTABLISHED"
      using h(1) Calling by (auto simp: local_ok_def)
    then show ?thesis using that client_turn_resends [OF u(1,2), of True] Calling by simp
  qed (use st h(2) in simp_all)
  have "d \<in> sent_since l0 (moved l w (Calling p) (pc (thr l)) False)"
    by (rule sent_now(1) [OF ld]) (auto simp: w(2))
  then show ?thesis using leads_section(1) [OF ld w(1)] by (intro exI conjI) auto
qed

text \<open>The server, which has that SYN on its way, answers.\<close>

lemma greeting_answers:
  assumes ld: "leads kept i j l0 r0 l r" and st: "stage r = Greeting q"
  shows "\<exists>r'. leads kept i j l0 r0 l r' \<and> (\<exists>p. stage r' = Answering p)"
proof -
  have "q = i" "last_ack_received (window (sock (host_of r))) = j" "counter3 (host_of r) = 0"
    using ready_ok [OF ready_leads [OF ld]] st by (auto simp: session_ok_def local_ok_def)
  then obtain w d where "session_section True (stage r) (pc (thr r)) (host_of r) = Inr (w, Answering (Some d), pc (thr r), False)"
    using answer_syn_ok [of "host_of r" j i] st by auto
  from leads_section(2) [OF ld this] show ?thesis by (intro exI conjI) auto
qed

lemma listening_answers:
  assumes ld: "leads kept i j l0 r0 l r" and st: "stage r = Listening" and d: "d \<in> sent_since l0 l"
  shows "\<exists>r'. leads kept i j l0 r0 l r' \<and> (\<exists>p. stage r' = Answering p)"
proof -
  have br: "leads kept i j l0 r0 l (brought d r)" using leads_brought(2) [OF ld] d by blast
  have h: "unready j (host_of (brought d r))" "arrived (end_of (brought d r)) \<subseteq> syns i"
    using ready_ok [OF ready_leads [OF br]] st by (auto simp: session_ok_def local_ok_def)
  obtain a e rest where ib: "inbox (host_of (brought d r)) = (a, e) # rest"
    by (cases "inbox (host_of r)") auto
  then have "e \<in> syns i" using h(2) by (auto simp: arrived_def)
  from take_syn_ok [OF h(1) ib this]
  obtain w where "session_section True (stage (brought d r)) (pc (thr (brought d r))) (host_of (brought d r))
      = Inr (w, Greeting i, pc (thr r), False)"
    using st by auto
  from greeting_answers [OF leads_section(2) [OF br this] moved_simps(6)] show ?thesis .
qed

lemma server_answers:
  assumes ld: "leads kept i j l0 r0 l r" and un: "unanswered (stage r)" and d: "d \<in> sent_since l0 l"
  shows "\<exists>r'. leads kept i j l0 r0 l r' \<and> (\<exists>p. stage r' = Answering p)"
proof (cases "stage r")
  case Starting
  have "sock_type (sock (host_of r)) = TCP_LISTENER"
    using ready_ok [OF ready_leads [OF ld]] Starting by (simp add: session_ok_def)
  then have "session_section True (stage r) (pc (thr r)) (host_of r)
      = Inr (upd_sock (\<lambda>s. s\<lparr>state := LISTEN\<rparr>) (host_of r), Listening, pc (thr r), False)"
    using Starting by simp
  from listening_answers [OF leads_section(2) [OF ld this] moved_simps(6) d] show ?thesis .
next
  case Listening
  then show ?thesis using listening_answers [OF ld Listening d] by blast
next
  case (Greeting q)
  then show ?thesis using greeting_answers [OF ld] by blast
qed (use un in simp_all)

text \<open>The client's SYN makes the server answer again; the client takes the answer and confirms.\<close>

lemma acknowledgement_no_syn: "control_header src dst seq ack ACK_FLAG_MASK \<notin> syns i"
proof
  assume "control_header src dst seq ack ACK_FLAG_MASK \<in> syns i"
  then obtain src' dst' where "control_header src dst seq ack ACK_FLAG_MASK = control_header src' dst' i 0 SYN_FLAG_MASK"
    by (auto simp: syns_iff)
  from arg_cong [OF this, of get_flags] show False by (simp add: ACK_FLAG_MASK_def SYN_FLAG_MASK_def)
qed

lemma client_turn_confirms:
  assumes "unready own w" and "\<not> timed_out" and "inbox w = (a, d) # rest" and "d \<in> synacks peer own"
  shows "\<exists>w1 src. client_turn w packet 25 timed_out = Inr w1 \<and> state (sock w1) = ESTABLISHED
    \<and> outbox w1 = outbox w @ [(a, control_header src a (own + 1) (peer + 1) ACK_FLAG_MASK)]"
  using client_turn_connects [OF assms] by (auto simp: completed_def)

lemma client_takes_answer:
  assumes ld: "leads kept i j l0 r0 l r" and st: "stage l = Calling p" and k: "k \<in> sent_since r0 r"
  shows "\<exists>l' d. leads kept i j l0 r0 l' r \<and> stage l' = Running \<and> d \<in> sent_since l0 l' \<and> d \<notin> syns i \<and> pc (thr l') = Check_death"
proof -
  note br = leads_brought(1) [OF ld k]
  have h: "unready i (host_of (brought k l))" "arrived (end_of (brought k l)) \<subseteq> synacks j i" "pc (thr l) = Check_death"
    using ready_ok [OF ready_leads [OF br]] st by (auto simp: session_ok_def local_ok_def)
  obtain a e rest where ib: "inbox (host_of (brought k l)) = (a, e) # rest" by (cases "inbox (host_of l)") auto
  then have e: "e \<in> synacks j i" using h(2) by (auto simp: arrived_def)
  obtain w src where w: "client_turn (host_of (brought k l)) p 25 False = Inr w" "state (sock w) = ESTABLISHED"
    "outbox w = outbox (host_of (brought k l)) @ [(a, control_header src a (i + 1) (j + 1) ACK_FLAG_MASK)]"
    using client_turn_confirms [OF h(1) _ ib e] by blast
  let ?w = "upd_sock (\<lambda>s. s\<lparr>initialized := True\<rparr>) w"
  let ?l = "moved (brought k l) ?w Running (pc (thr l)) False"
  have "session_section False (stage (brought k l)) (pc (thr (brought k l))) (host_of (brought k l))
      = Inr (?w, Running, pc (thr l), False)" using st w(1,2) by simp
  from leads_section(1) [OF br this] have "leads kept i j l0 r0 ?l r" .
  moreover have "control_header src a (i + 1) (j + 1) ACK_FLAG_MASK \<in> sent_since l0 ?l"
    by (rule sent_now(1) [OF br]) (auto simp: w(3))
  ultimately show ?thesis using h(3) acknowledgement_no_syn
    by (intro exI [of _ ?l] exI [of _ "control_header src a (i + 1) (j + 1) ACK_FLAG_MASK"]) simp
qed

lemma client_connects:
  assumes ld: "leads kept i j l0 r0 l r" and st: "stage l = Calling p" and d: "d \<in> sent_since l0 l" and sr: "stage r = Answering q"
  shows "\<exists>l' r' d. leads kept i j l0 r0 l' r' \<and> stage l' = Running \<and> d \<in> sent_since l0 l' \<and> d \<notin> syns i \<and> pc (thr l') = Check_death"
proof -
  have br: "leads kept i j l0 r0 l (brought d r)" using leads_brought(2) [OF ld] d by blast
  have h: "arrived (end_of (brought d r)) \<subseteq> syns i" and j: "j < - 1"
    using ready_ok [OF ready_leads [OF br]] ready_leads [OF ld] st by (auto simp: session_ok_def ready_def)
  obtain a e rest where ib: "inbox (host_of (brought d r)) = (a, e) # rest" by (cases "inbox (host_of r)") auto
  then have e: "e \<in> syns i" using h by (auto simp: arrived_def)
  obtain w where w: "session_section True (stage (brought d r)) (pc (thr (brought d r))) (host_of (brought d r))
      = Inr (w, Answering q, pc (thr r), False)" "outbox w = outbox (host_of (brought d r)) @ [(a, the q)]"
    using answering_turn [OF ready_ok [OF ready_leads [OF br]] j _ ib, of q] sr e by simp
  let ?r = "moved (brought d r) w (Answering q) (pc (thr r)) False"
  have "the q \<in> sent_since r0 ?r" by (rule sent_now(2) [OF br]) (auto simp: w(2))
  from client_takes_answer [OF leads_section(2) [OF br w(1)] st this] show ?thesis by blast
qed

text \<open>The server works off what has arrived until it comes to the confirmation.\<close>

lemma server_takes_confirmation:
  assumes "leads kept i j l0 r0 l r" and "stage r = Answering q" and "\<exists>d \<in> arrived (end_of r). d \<notin> syns i"
  shows "\<exists>r'. leads kept i j l0 r0 l r' \<and> stage r' = Confirming"
  using assms
proof (induction "length (inbox (host_of r))" arbitrary: r)
  case 0
  then show ?case by (simp add: arrived_def)
next
  case (Suc n)
  note rd = ready_leads [OF Suc.prems(1)]
  have j: "j < - 1" using rd by (simp add: ready_def)
  obtain a e rest where ib: "inbox (host_of r) = (a, e) # rest" using Suc.hyps(2) by (cases "inbox (host_of r)") auto
  note turn = answering_turn [OF ready_ok [OF rd] j Suc.prems(2) ib]
  show ?case
  proof (cases "e \<in> syns i")
    case False
    then obtain w where "session_section True (stage r) (pc (thr r)) (host_of r) = Inr (w, Confirming, Handle e, False)"
      using turn Suc.prems(2) by simp
    from leads_section(2) [OF Suc.prems(1) this] show ?thesis by (intro exI conjI) auto
  next
    case True
    then obtain w where w: "session_section True (stage r) (pc (thr r)) (host_of r) = Inr (w, Answering q, pc (thr r), False)"
      "inbox w = rest" using turn Suc.prems(2) by simp
    have "\<exists>d \<in> arrived (end_of (moved r w (Answering q) (pc (thr r)) False)). d \<notin> syns i"
      using Suc.prems(3) True by (auto simp: datagrams_moved w(2) arrived_def ib)
    moreover have "n = length (inbox (host_of (moved r w (Answering q) (pc (thr r)) False)))"
      using Suc.hyps(2) by (simp add: w(2) ib)
    ultimately show ?thesis by (intro Suc.hyps(1) [OF _ leads_section(2) [OF Suc.prems(1) w(1)] moved_simps(6)])
  qed
qed

lemma confirming_section:
  assumes ld: "leads kept i j l0 r0 l r" and st: "stage r = Confirming"
  shows "\<exists>w c sg. thread_section (pc (thr r)) (host_of r) = Inr (w, c, sg)
    \<and> leads kept i j l0 r0 l (if c = Transmit then moved r w Running Check_death sg else moved r w Confirming c sg)"
proof -
  obtain w c sg where w: "thread_section (pc (thr r)) (host_of r) = Inr (w, c, sg)"
    using confirming_succeeds [of i j l r] ready_leads [OF ld] st unfolding ready_def by auto
  then have "session_section True (stage r) (pc (thr r)) (host_of r) =
      Inr (if c = Transmit then (w, Running, Check_death, sg) else (w, Confirming, c, sg))"
    using st by simp
  then show ?thesis using w leads_section(2) [OF ld] by (intro exI [of _ w] exI [of _ c] exI [of _ sg]) (cases "c = Transmit"; simp)
qed

lemma answer_runs:
  assumes ld: "leads kept i j l0 r0 l r" and st: "stage r = Confirming" and c: "pc (thr r) = Answer"
  shows "\<exists>r'. leads kept i j l0 r0 l r' \<and> stage r' = Running"
proof -
  obtain w c sg where "thread_section Answer (host_of r) = Inr (w, c, sg)"
    "leads kept i j l0 r0 l (if c = Transmit then moved r w Running Check_death sg else moved r w Confirming c sg)"
    using confirming_section [OF ld st] c by auto
  moreover from this(1) have "c = Transmit" by auto
  ultimately show ?thesis by (intro exI conjI) auto
qed

lemma store_runs:
  assumes ld: "leads kept i j l0 r0 l r" and st: "stage r = Confirming" and c: "pc (thr r) = Store pkt n"
  shows "\<exists>r'. leads kept i j l0 r0 l r' \<and> stage r' = Running"
proof -
  obtain w c sg where w: "thread_section (Store pkt n) (host_of r) = Inr (w, c, sg)"
    "leads kept i j l0 r0 l (if c = Transmit then moved r w Running Check_death sg else moved r w Confirming c sg)"
    using confirming_section [OF ld st] c by auto
  moreover from this(1) have "c = Answer" by auto
  ultimately have "leads kept i j l0 r0 l (moved r w Confirming Answer sg)" by simp
  from answer_runs [OF this moved_simps(6,4)] show ?thesis .
qed

lemma confirming_runs:
  assumes ld: "leads kept i j l0 r0 l r" and st: "stage r = Confirming"
  shows "\<exists>r'. leads kept i j l0 r0 l r' \<and> stage r' = Running"
proof (cases "pc (thr r)")
  case (Handle pkt)
  obtain w c sg where w: "thread_section (Handle pkt) (host_of r) = Inr (w, c, sg)"
    "leads kept i j l0 r0 l (if c = Transmit then moved r w Running Check_death sg else moved r w Confirming c sg)"
    using confirming_section [OF ld st] Handle by auto
  from w(1) consider n where "c = Store pkt n" | "c = Transmit" by (auto split: if_splits)
  then show ?thesis
  proof cases
    case 1
    then have "leads kept i j l0 r0 l (moved r w Confirming (Store pkt n) sg)" using w(2) by simp
    from store_runs [OF this moved_simps(6,4)] show ?thesis .
  next
    case 2
    then show ?thesis using w(2) by (intro exI conjI) auto
  qed
next
  case (Store pkt n)
  then show ?thesis by (rule store_runs [OF ld st])
next
  case Answer
  then show ?thesis by (rule answer_runs [OF ld st])
qed (use ready_ok [OF ready_leads [OF ld]] st in \<open>auto simp: session_ok_def local_ok_def\<close>)

lemma server_connects:
  assumes ld: "leads kept i j l0 r0 l r" and st: "stage l = Running" and d: "d \<in> kept \<union> sent_since l0 l" "d \<notin> syns i"
  shows "\<exists>r'. leads kept i j l0 r0 l r' \<and> stage r' = Running"
proof (cases "stage r")
  case (Answering q)
  note br = leads_brought(2) [OF ld d(1)]
  have "d \<in> arrived (end_of (brought d r))" by (auto simp: arrived_def)
  then obtain r' where r': "leads kept i j l0 r0 l r'" "stage r' = Confirming"
    using server_takes_confirmation [OF br] d(2) Answering by auto
  from confirming_runs [OF r'] show ?thesis .
next
  case Confirming
  then show ?thesis by (rule confirming_runs [OF ld])
next
  case Running
  then show ?thesis using ld by blast
qed (use ready_ok [OF ready_leads [OF ld]] st in \<open>auto simp: session_ok_def\<close>)

text \<open>
  The client is still in its handshake: whatever is on its way may be lost. Or it is in its main
  loop: then one of its acknowledgements has to come through.
\<close>

lemma both_connect:
  assumes rd: "ready i j l r" and st: "stage l \<noteq> Running"
  shows "\<exists>l' r'. leads {} i j l r l' r' \<and> stage l' = Running \<and> stage r' = Running \<and> pc (thr l') = Check_death"
proof -
  have ld: "leads {} i j l r l r" by (rule leads_refl [OF rd]) simp
  obtain l1 p d where l1: "leads {} i j l r l1 r" "stage l1 = Calling p" "d \<in> sent_since l l1"
    using client_calls [OF ld st] by blast
  have "\<exists>r1 q. leads {} i j l r l1 r1 \<and> stage r1 = Answering q"
  proof (cases "unanswered (stage r)")
    case True
    then show ?thesis using server_answers [OF l1(1) _ l1(3)] by blast
  next
    case False
    then obtain q where "stage r = Answering q"
      using ready_ok [OF rd] st by (cases "stage r") (auto simp: session_ok_def)
    then show ?thesis using l1(1) by blast
  qed
  then obtain r1 q where r1: "leads {} i j l r l1 r1" "stage r1 = Answering q" by blast
  obtain l2 r2 d2 where l2: "leads {} i j l r l2 r2" "stage l2 = Running" "d2 \<in> sent_since l l2" "d2 \<notin> syns i"
    "pc (thr l2) = Check_death"
    using client_connects [OF r1(1) l1(2,3) r1(2)] by blast
  obtain r3 where "leads {} i j l r l2 r3" "stage r3 = Running"
    using server_connects [OF l2(1,2) _ l2(4)] l2(3) by blast
  then show ?thesis using l2(2,5) by blast
qed

lemma server_catches_up:
  assumes rd: "ready i j l r" and st: "stage l = Running" and d: "d \<in> datagrams (end_of l)" "d \<notin> syns i"
  shows "\<exists>r'. leads {d} i j l r l r' \<and> stage r' = Running"
proof -
  have "leads {d} i j l r l r" by (rule leads_refl [OF rd]) (simp add: d(1))
  from server_connects [OF this st _ d(2)] show ?thesis by simp
qed

text \<open>A client that runs has confirmed.\<close>

definition confirmed :: "u32 \<Rightarrow> session \<Rightarrow> bool" where
  "confirmed i l \<longleftrightarrow> (stage l = Running \<longrightarrow> (\<exists>d \<in> datagrams (end_of l). d \<notin> syns i))"

lemma confirmed_step:
  assumes ok: "session_ok i j l r" and step: "session_step (datagrams (end_of r)) l l'" and cf: "confirmed i l"
  shows "confirmed i l'"
  using step
proof cases
  case (backend timed_out w st c sg)
  show ?thesis
  proof (cases "stage l")
    case Starting
    then show ?thesis using backend by (auto simp: confirmed_def split: if_splits)
  next
    case (Calling p)
    have u: "unready i (host_of l)" "\<exists>d \<in> syns i. p = Some d" "arrived (end_of l) \<subseteq> synacks j i" "state (sock (host_of l)) \<noteq> ESTABLISHED"
      using ok Calling by (auto simp: local_ok_def session_ok_def)
    show ?thesis
    proof (cases "timed_out \<or> inbox (host_of l) = []")
      case True
      obtain k where k: "k \<in> syns i" "p = Some k" using u(2) by blast
      have "st \<noteq> Running"
        using client_turn_resends [OF u(1) k(1) True] backend(2) Calling k(2) u(4) by auto
      then show ?thesis by (simp add: confirmed_def backend(1))
    next
      case False
      then obtain a q rest where ib: "inbox (host_of l) = (a, q) # rest" "\<not> timed_out" by (cases "inbox (host_of l)") auto
      then have q: "q \<in> synacks j i" using u(3) by (auto simp: arrived_def)
      obtain w1 src where w1: "client_turn (host_of l) p 25 timed_out = Inr w1"
        "outbox w1 = outbox (host_of l) @ [(a, control_header src a (i + 1) (j + 1) ACK_FLAG_MASK)]"
        using client_turn_confirms [OF u(1) ib(2,1) q] by blast
      then have "outbox w = outbox w1" using backend(2) Calling by (auto split: if_splits)
      then have "control_header src a (i + 1) (j + 1) ACK_FLAG_MASK \<in> snd ` set (outbox w)" using w1(2) by simp
      then show ?thesis unfolding confirmed_def backend(1) datagrams_moved using acknowledgement_no_syn by blast
    qed
  next
    case Running
    then show ?thesis using cf datagrams_mono [OF session_step_sends [OF step]] by (auto simp: confirmed_def)
  qed (use ok in \<open>simp_all add: session_ok_def\<close>)
next
  case (beside t)
  then show ?thesis using aside_frame [OF beside(2)] cf by (simp add: confirmed_def datagrams_def)
qed

lemma confirmed_run:
  assumes "sessions l0 r0 l r" and "session_ok i j l0 r0" and "i < - 1" and "j < - 1"
    and "unat i + length (wrote (end_of l)) + MSS < 2 ^ 32" and "unat j + length (wrote (end_of r)) + MSS < 2 ^ 32"
    and "confirmed i l0"
  shows "confirmed i l"
  using assms
proof (induction rule: sessions.induct)
  case start
  then show ?case by simp
next
  case (left l r l')
  have le: "length (wrote (end_of l)) \<le> length (wrote (end_of l'))"
    using left.hyps(2) by (intro prefix_length_le session_step_wrote)
  then have "session_ok i j l r" using sessions_ok [OF left.hyps(1)] left.prems by simp
  from confirmed_step [OF this left.hyps(2)] left le show ?case by simp
next
  case (right l r r')
  have "length (wrote (end_of r)) \<le> length (wrote (end_of r'))"
    using right.hyps(2) by (intro prefix_length_le session_step_wrote)
  then show ?case using right by simp
qed

end
