(* ===== verification/Dialogues.thy ===== *)
theory Dialogues
  imports Session_Progress
begin

text \<open>
  Sessions of a client and a server from \<open>cmu_socket\<close> on: the invariant holds in all of their
  states, so each direction is a byte stream; what their packets are; and the two threads, once
  in their main loops, are the machine of \<open>Threads\<close>.
\<close>

section \<open>The packets\<close>

text \<open>Every packet of a session, of either side.\<close>

lemma packets_run:
  assumes "sessions l0 r0 l r" and "session_ok i j l0 r0" and "i < - 1" and "j < - 1"
    and "unat i + length (wrote (end_of l)) + MSS < 2 ^ 32" and "unat j + length (wrote (end_of r)) + MSS < 2 ^ 32"
    and "\<forall>d \<in> datagrams (end_of l0) \<union> datagrams (end_of r0). d \<in> syns i \<or> d \<in> synacks j i \<or> plain d"
  shows "\<forall>d \<in> datagrams (end_of l) \<union> datagrams (end_of r). d \<in> syns i \<or> d \<in> synacks j i \<or> plain d"
  using assms
proof (induction rule: sessions.induct)
  case start
  then show ?case by blast
next
  case (left l r l')
  have le: "length (wrote (end_of l)) \<le> length (wrote (end_of l'))"
    using left.hyps(2) by (intro prefix_length_le session_step_wrote)
  then have ok: "session_ok i j l r" using sessions_ok [OF left.hyps(1)] left.prems by simp
  have ok': "session_ok i j l' r" using sessions_ok [OF sessions.left [OF left.hyps]] left.prems by simp
  have "d \<in> syns i \<or> plain d" if "d \<in> datagrams (end_of l')" "d \<notin> datagrams (end_of l)" for d
    using step_packets [OF _ _ session_ok_parts(1) [OF ok] session_ok_parts(1) [OF ok'] _ left.hyps(2) that, of r]
      ok ok' left.prems(4) le by (auto simp: session_ok_def)
  moreover have "\<forall>d \<in> datagrams (end_of l) \<union> datagrams (end_of r). d \<in> syns i \<or> d \<in> synacks j i \<or> plain d"
    using left le by simp
  ultimately show ?case by blast
next
  case (right l r r')
  have le: "length (wrote (end_of r)) \<le> length (wrote (end_of r'))"
    using right.hyps(2) by (intro prefix_length_le session_step_wrote)
  then have ok: "session_ok i j l r" using sessions_ok [OF right.hyps(1)] right.prems by simp
  have ok': "session_ok i j l r'" using sessions_ok [OF sessions.right [OF right.hyps]] right.prems by simp
  have tl: "threads_linked j i (view j i r) (view i j l)" using ok threads_linked_sym by (simp add: session_ok_def)
  have st: "\<forall>p. stage r' \<noteq> Calling p" using ok' by (simp add: session_ok_def)
  have bj: "unat j + length (wrote (end_of r)) + MSS < 2 ^ 32" using right.prems(5) le by simp
  have c: "(\<exists>p. stage r = Calling p) \<longrightarrow> arrived (end_of r) \<subseteq> synacks i j" using ok by (simp add: session_ok_def)
  have "d \<in> synacks j i \<or> plain d" if "d \<in> datagrams (end_of r')" "d \<notin> datagrams (end_of r)" for d
    using step_packets [OF tl bj session_ok_parts(2) [OF ok] session_ok_parts(2) [OF ok'] c right.hyps(2) that] st
    by auto
  moreover have "\<forall>d \<in> datagrams (end_of l) \<union> datagrams (end_of r). d \<in> syns i \<or> d \<in> synacks j i \<or> plain d"
    using right le by simp
  ultimately show ?case by blast
qed

section \<open>A dialogue\<close>

text \<open>
  A client and a server, each of which called \<open>cmu_socket\<close> in a new process and got the initial
  sequence numbers \<open>i\<close> and \<open>j\<close>, have come to the states \<open>l\<close> and \<open>r\<close>.
\<close>

inductive dialogue :: "u32 \<Rightarrow> u32 \<Rightarrow> session \<Rightarrow> session \<Rightarrow> bool" where
  dialogue: "new_process c \<Longrightarrow> new_process s \<Longrightarrow>
    cmu_socket inet_addr_c os_c c TCP_INITIATOR port_c ip_c = Inr (c', EXIT_SUCCESS) \<Longrightarrow>
    cmu_socket inet_addr_s os_s s TCP_LISTENER port_s ip_s = Inr (s', EXIT_SUCCESS) \<Longrightarrow>
    rand_value os_c < - 1 \<Longrightarrow> rand_value os_s < - 1 \<Longrightarrow> sessions (opened c') (opened s') l r \<Longrightarrow>
    dialogue (rand_value os_c) (rand_value os_s) l r"

lemma opened_simps [simp]:
  "stage (opened w) = Starting" "thr (opened w) = enters w"
  by (simp_all add: opened_def)

lemma dialogue_alert:
  assumes "dialogue i j l r"
  shows "alert l \<and> alert r"
  using assms
proof cases
  case (dialogue c s inet_addr_c os_c port_c ip_c c' inet_addr_s os_s port_s ip_s s')
  have "alert (opened c')" "alert (opened s')"
    using cmu_socket_fresh [OF dialogue(5,3,7)] cmu_socket_fresh [OF dialogue(6,4,8)] by (simp_all add: alert_def)
  then show ?thesis using alert_run [OF dialogue(9)] by blast
qed

lemma dialogue_ready:
  assumes "dialogue i j l r"
    and "unat i + length (wrote (end_of l)) + MSS < 2 ^ 32" and "unat j + length (wrote (end_of r)) + MSS < 2 ^ 32"
  shows "ready i j l r \<and> closes_well l \<and> closes_well r \<and> confirmed i l"
  using assms
proof cases
  case (dialogue c s inet_addr_c os_c port_c ip_c c' inet_addr_s os_s port_s ip_s s')
  note b = assms(2,3) [unfolded dialogue(1,2)]
  have ok: "session_ok (rand_value os_c) (rand_value os_s) (opened c') (opened s')"
    using cmu_socket_fresh [OF dialogue(5,3,7)] cmu_socket_fresh [OF dialogue(6,4,8)]
    by (intro opened_ok; simp)
  have "closes_well (opened c')" "closes_well (opened s')" "confirmed (rand_value os_c) (opened c')"
    by (simp_all add: closes_well_def confirmed_def)
  then show ?thesis
    using sessions_ok [OF dialogue(9) ok dialogue(7,8) b] dialogue_alert [OF assms(1)]
      closes_well_run [OF dialogue(9) ok dialogue(7,8) b] confirmed_run [OF dialogue(9) ok dialogue(7,8) b] dialogue(7,8) b
    unfolding dialogue(1,2) by (simp add: ready_def)
qed

lemma dialogue_packets:
  assumes "dialogue i j l r"
    and "unat i + length (wrote (end_of l)) + MSS < 2 ^ 32" and "unat j + length (wrote (end_of r)) + MSS < 2 ^ 32"
    and "d \<in> datagrams (end_of l) \<union> datagrams (end_of r)"
  shows "\<exists>src dst seq ack flags adv p. length p \<le> MSS \<and> d = peer_packet src dst seq ack flags adv p
    \<and> flags \<in> {SYN_FLAG_MASK, SYN_FLAG_MASK OR ACK_FLAG_MASK, ACK_FLAG_MASK}"
  using assms(1)
proof cases
  case (dialogue c s inet_addr_c os_c port_c ip_c c' inet_addr_s os_s port_s ip_s s')
  note b = assms(2,3) [unfolded dialogue(1,2)]
  note f = cmu_socket_fresh [OF dialogue(5,3,7)] cmu_socket_fresh [OF dialogue(6,4,8)]
  have "session_ok (rand_value os_c) (rand_value os_s) (opened c') (opened s')" using f by (intro opened_ok; simp)
  moreover have "datagrams (end_of (opened c')) = {}" "datagrams (end_of (opened s')) = {}"
    using f by (simp_all add: datagrams_def fresh_socket_def)
  ultimately have "d \<in> syns i \<or> d \<in> synacks j i \<or> plain d"
    using packets_run [OF dialogue(9) _ dialogue(7,8) b] assms(4) unfolding dialogue(1,2) by auto
  then show ?thesis
  proof (elim disjE)
    assume "d \<in> syns i"
    then show ?thesis unfolding syns_iff control_packet by (metis insertI1 le0 list.size(3))
  next
    assume "d \<in> synacks j i"
    then show ?thesis unfolding synacks_iff control_packet by (metis insertI1 insertI2 le0 list.size(3))
  next
    assume "plain d"
    then show ?thesis unfolding plain_def by (metis insertI1 insertI2)
  qed
qed

lemma dialogue_goes_on: "dialogue i j l r \<Longrightarrow> sessions l r l' r' \<Longrightarrow> dialogue i j l' r'"
  using sessions_trans by (elim dialogue.cases) (auto intro: dialogue.dialogue)

lemma available_views:
  assumes "ready i j l r"
  shows "readable (ep (view i j l)) = available l" "readable (ep (view j i r)) = available r"
  using assms available_view by (simp_all add: ready_def)

lemma ready_linked:
  assumes "ready i j l r"
  shows "linked i j (ep (view i j l)) (ep (view j i r))"
  using session_ok_parts(5) assms by (simp add: ready_def)

text \<open>Each direction is a byte stream, from the first line of the two threads on.\<close>

interpretation session_stream: byte_stream "\<lambda>(l, r). ready i j l r" "\<lambda>(l, r). wrote (end_of l)"
  "\<lambda>(l, r). got (end_of r) @ available r"
  "\<lambda>(l, r). q_inflight (sb_abs (sb_of (end_of l))) @ q_fresh (sb_abs (sb_of (end_of l)))"
  for i j
proof (unfold_locales, goal_cases)
  case (1 s)
  then obtain l r where s: "s = (l, r)" "ready i j l r" by (auto split: prod.splits)
  show ?case using linked_prefix [OF ready_linked [OF s(2)]] by (simp add: s(1) available_views [OF s(2)])
next
  case (2 s)
  then obtain l r where s: "s = (l, r)" "ready i j l r" by (auto split: prod.splits)
  show ?case using linked_no_loss [OF ready_linked [OF s(2)]] by (auto simp: s(1) available_views [OF s(2)])
qed

interpretation session_stream_back: byte_stream "\<lambda>(l, r). ready i j l r" "\<lambda>(l, r). wrote (end_of r)"
  "\<lambda>(l, r). got (end_of l) @ available l"
  "\<lambda>(l, r). q_inflight (sb_abs (sb_of (end_of r))) @ q_fresh (sb_abs (sb_of (end_of r)))"
  for i j
proof (unfold_locales, goal_cases)
  case (1 s)
  then obtain l r where s: "s = (l, r)" "ready i j l r" by (auto split: prod.splits)
  have "linked j i (ep (view j i r)) (ep (view i j l))" using ready_linked [OF s(2)] linked_sym by blast
  from linked_prefix [OF this] show ?case by (simp add: s(1) available_views [OF s(2)])
next
  case (2 s)
  then obtain l r where s: "s = (l, r)" "ready i j l r" by (auto split: prod.splits)
  have "linked j i (ep (view j i r)) (ep (view i j l))" using ready_linked [OF s(2)] linked_sym by blast
  from linked_no_loss [OF this] show ?case by (auto simp: s(1) available_views [OF s(2)])
qed

text \<open>In their main loops the two are the machine of \<open>Threads\<close>.\<close>

lemma running_sessions:
  assumes "threads_run (thr l) (thr r) u v" and "stage l = Running" and "stage r = Running"
  shows "sessions l r (l\<lparr>thr := u\<rparr>) (r\<lparr>thr := v\<rparr>)"
proof -
  show ?thesis using assms(1)
  proof (induction rule: threads_run.induct)
    case start
    then show ?case using sessions.start [of l r] by simp
  next
    case (left u v u')
    then show ?case using sessions.left [OF left.IH] running_step [OF left.hyps(2) assms(2)] by simp
  next
    case (right u v v')
    then show ?case using sessions.right [OF right.IH] running_step [OF right.hyps(2) assms(3)] by simp
  qed
qed

end
