(* ===== verification/Session_Theorems.thy ===== *)
theory Session_Theorems
  imports Dialogues Connection_Theorems
begin

text \<open>
  The properties of whole sessions: a client and a server from \<open>cmu_socket\<close> on, each with its
  application and its thread, any network. The handshake is part of the session.
\<close>

section \<open>Properties\<close>

text \<open>
  C1: In order, from \<open>cmu_socket\<close> on. A client and a server each call \<open>cmu_socket\<close>; from then on
  the sections of the threads, the handshake's and the main loop's, and the calls of the
  applications interleave in any way, while the network loses, repeats and reorders SYNs,
  answers, data and acknowledgements alike. What one application has read, followed by what it
  could read at once, is a prefix of what the other has written, in both directions.
\<close>

theorem session_in_order:
  assumes "dialogue i j l r"
    and "unat i + length (wrote (end_of l)) + MSS < 2 ^ 32" and "unat j + length (wrote (end_of r)) + MSS < 2 ^ 32"
  shows "prefix (got (end_of r) @ available r) (wrote (end_of l)) \<and> prefix (got (end_of l) @ available l) (wrote (end_of r))"
proof -
  have rd: "ready i j l r" using dialogue_ready [OF assms] by blast
  from session_stream.in_order [of i j "(l, r)"] session_stream_back.in_order [of i j "(l, r)"] rd
  show ?thesis by simp
qed

text \<open>
  C5: No loss, from \<open>cmu_socket\<close> on. In every state of a session the bytes that the send
  buffer of one side no longer holds are bytes that the application of the other has read or
  can read at once.
\<close>

theorem session_no_loss:
  assumes "dialogue i j l r"
    and "unat i + length (wrote (end_of l)) + MSS < 2 ^ 32" and "unat j + length (wrote (end_of r)) + MSS < 2 ^ 32"
  shows "(\<exists>acked. wrote (end_of l) = acked @ q_inflight (sb_abs (sb_of (end_of l))) @ q_fresh (sb_abs (sb_of (end_of l)))
      \<and> prefix acked (got (end_of r) @ available r))
    \<and> (\<exists>acked. wrote (end_of r) = acked @ q_inflight (sb_abs (sb_of (end_of r))) @ q_fresh (sb_abs (sb_of (end_of r)))
      \<and> prefix acked (got (end_of l) @ available l))"
  using session_stream.accounted [of i j "(l, r)"] session_stream_back.accounted [of i j "(l, r)"]
    dialogue_ready [OF assms] by simp

text \<open>
  C6: A clean end. The thread reads \<open>dying\<close> and then, in another section, whether the send
  buffer is empty. When the thread of one side has come to the end of \<open>begin_backend\<close>, its
  application has asked for it, and everything it ever wrote has been read by the peer's
  application or is there for it to read.
\<close>

theorem session_end_complete:
  assumes "dialogue i j l r"
    and "unat i + length (wrote (end_of l)) + MSS < 2 ^ 32" and "unat j + length (wrote (end_of r)) + MSS < 2 ^ 32"
  shows "(stage l = Running \<and> pc (thr l) = Ended \<longrightarrow>
      dying (sock (host_of l)) \<noteq> 0 \<and> got (end_of r) @ available r = wrote (end_of l))
    \<and> (stage r = Running \<and> pc (thr r) = Ended \<longrightarrow>
      dying (sock (host_of r)) \<noteq> 0 \<and> got (end_of l) @ available l = wrote (end_of r))"
proof -
  have rd: "ready i j l r" and cw: "closes_well l" "closes_well r" using dialogue_ready [OF assms] by blast+
  from rd cw show ?thesis
    using session_stream.complete [of i j "(l, r)"] session_stream_back.complete [of i j "(l, r)"]
    by (auto simp: closes_well_def drained_def)
qed

text \<open>
  C7: No lost wake-up. A reader that found nothing and waits for \<open>wait_cond\<close> is woken by whatever
  makes data readable. As long as it waits, the handshake has given it a stream and there is
  nothing to read: in every state of every session, at every place of the thread.
\<close>

theorem session_no_lost_wakeup:
  assumes "dialogue i j l r"
  shows "(waiting (thr l) \<longrightarrow> initialized (sock (host_of l)) \<and> recv_buffer_max_read (recv_buf (sock (host_of l))) = 0)
    \<and> (waiting (thr r) \<longrightarrow> initialized (sock (host_of r)) \<and> recv_buffer_max_read (recv_buf (sock (host_of r))) = 0)"
  using dialogue_alert [OF assms] unfolding alert_def by blast

text \<open>
  C9: The handshake does not fail. Whatever the network does to the packets of the two, and
  whatever the applications do meanwhile, in every state of a session the next section of
  a client in its handshake succeeds, and that of a server in its handshake succeeds, or the server
  waits in \<open>recvfrom\<close> for a datagram: no assertion fails and no block is left.
\<close>

theorem handshake_never_fails:
  assumes "dialogue i j l r"
    and "unat i + length (wrote (end_of l)) + MSS < 2 ^ 32" and "unat j + length (wrote (end_of r)) + MSS < 2 ^ 32"
  shows "(stage l \<noteq> Running \<longrightarrow> (\<exists>x. session_section timed_out (stage l) (pc (thr l)) (host_of l) = Inr x))
    \<and> (stage r \<noteq> Running \<longrightarrow> (\<exists>x. session_section timed_out (stage r) (pc (thr r)) (host_of r) = Inr x)
        \<or> session_section timed_out (stage r) (pc (thr r)) (host_of r) = Inl Blocked \<and> inbox (host_of r) = [])"
proof -
  have rd: "session_ok i j l r" "i < - 1" "j < - 1" using dialogue_ready [OF assms] by (simp_all add: ready_def)
  show ?thesis using caller_succeeds [OF rd(1)] answerer_succeeds [OF rd assms(2,3)] by blast
qed

text \<open>
  C8: The handshake recovers from losses, all but one. As long as the client is in its
  handshake, everything that is on its way in either direction may be lost: there is a
  continuation, in which only what is sent from then on comes in and the applications do
  nothing, that brings both threads to their main loops, because the client sends its SYN again
  and the server answers it again. Once the client is in its main loop, it has sent an
  acknowledgement, and one of the packets it has sent, other than a SYN, has to come through:
  then there is such a continuation too, in which everything else on its way may be lost.
\<close>

theorem handshake_can_complete:
  assumes "dialogue i j l r"
    and "unat i + length (wrote (end_of l)) + MSS < 2 ^ 32" and "unat j + length (wrote (end_of r)) + MSS < 2 ^ 32"
  shows "(stage l \<noteq> Running \<longrightarrow> (\<exists>l' r'. after_losses {} l r l' r' \<and> sessions l r l' r'
      \<and> stage l' = Running \<and> stage r' = Running
      \<and> wrote (end_of l') = wrote (end_of l) \<and> wrote (end_of r') = wrote (end_of r)
      \<and> got (end_of l') = got (end_of l) \<and> got (end_of r') = got (end_of r)))
    \<and> (stage l = Running \<longrightarrow> (\<exists>d \<in> datagrams (end_of l). d \<notin> syns i)
      \<and> (\<forall>d \<in> datagrams (end_of l). d \<notin> syns i \<longrightarrow> (\<exists>l' r'. after_losses {d} l r l' r' \<and> sessions l r l' r'
        \<and> stage l' = Running \<and> stage r' = Running
        \<and> wrote (end_of l') = wrote (end_of l) \<and> wrote (end_of r') = wrote (end_of r)
        \<and> got (end_of l') = got (end_of l) \<and> got (end_of r') = got (end_of r))))"
proof -
  have rd: "ready i j l r" and cf: "confirmed i l" using dialogue_ready [OF assms] by blast+
  show ?thesis
    using both_connect [OF rd] server_catches_up [OF rd] cf
    unfolding leads_def idle_def confirmed_def by (intro conjI impI ballI) blast+
qed

text \<open>
  C21: Packets of the declared format. Every datagram of a session, of the handshake and after
  it, is a packet as \<open>cmu_packet.h\<close> describes it: the identifier in front, a header of 25 bytes
  without extension, a length field that is the length of the datagram, at most \<open>MAX_LEN\<close>, and
  the flags SYN, SYN and ACK, or ACK.
\<close>

theorem session_packets:
  assumes "dialogue i j l r"
    and "unat i + length (wrote (end_of l)) + MSS < 2 ^ 32" and "unat j + length (wrote (end_of r)) + MSS < 2 ^ 32"
    and "d \<in> datagrams (end_of l) \<union> datagrams (end_of r)"
  shows "take 4 d = be32 IDENTIFIER \<and> get_hlen d = Inr 25 \<and> get_extension_length d = Inr 0
    \<and> get_plen d = Inr (of_nat (length d)) \<and> 25 \<le> length d \<and> length d \<le> MAX_LEN
    \<and> get_payload d = Inr 25 \<and> get_payload_len d = Inr (of_nat (length d - 25))
    \<and> (\<exists>flags \<in> {SYN_FLAG_MASK, SYN_FLAG_MASK OR ACK_FLAG_MASK, ACK_FLAG_MASK}. get_flags d = Inr flags)"
proof -
  obtain src dst seq ack flags adv p where p: "length p \<le> MSS" "d = peer_packet src dst seq ack flags adv p"
    "flags \<in> {SYN_FLAG_MASK, SYN_FLAG_MASK OR ACK_FLAG_MASK, ACK_FLAG_MASK}"
    using dialogue_packets [OF assms] by blast
  have "take 4 d = be32 IDENTIFIER" by (simp add: p(2) peer_packet_def wire_header_def)
  moreover have "get_flags d = Inr flags" using p(1) peer_packet_fields(1) [of p] by (simp add: p(2))
  ultimately show ?thesis
    using p(1,3) peer_packet_fields [of p] by (simp add: p(2) peer_packet_def get_wire_header MAX_LEN_def)
qed

text \<open>
  C19: The thread as it is written. A run of the C function \<open>begin_backend\<close> to its end, handshake
  and loop, with other steps of the process in between the turns of the loop only, is a run of
  the sections from the first place to the last with the same final state: the machine of
  sections does all that the sequential code does.
\<close>

theorem begin_backend_refines:
  assumes "begin_backend (host_of s) polls turns others = Inr w" and "stage s = Starting" and "pc (thr s) = Check_death"
    and "\<forall>f \<in> set others. besides net f"
  shows "\<exists>s'. (session_step net)\<^sup>*\<^sup>* s s' \<and> stage s' = Running \<and> pc (thr s') = Ended \<and> host_of s' = w"
  by (rule begin_backend_run [OF assms])

section \<open>Witnesses\<close>

definition answers :: "u32 \<Rightarrow> os_answers" where
  "answers n = \<lparr>socket_ok = True, cond_ok = True, bind_ok = True, rand_value = n, bound_port = 9\<rparr>"

lemma first_dialogue:
  "\<exists>l r. dialogue 7 9 l r \<and> stage l = Starting \<and> wrote (end_of l) = [] \<and> wrote (end_of r) = []
    \<and> got (end_of l) = [] \<and> got (end_of r) = [] \<and> \<not> waiting (thr l) \<and> dying (sock (host_of l)) = 0
    \<and> s_capacity (send_buf (sock (host_of l))) = 1024"
proof -
  have n: "new_process host_example" using empty_heap_ok by (simp add: new_process_def) (simp add: host_example_def)
  obtain c s where c: "cmu_socket (\<lambda>_. 1) (answers 7) host_example TCP_INITIATOR 15441 (Some ''10.0.1.1'') = Inr (c, EXIT_SUCCESS)"
    and s: "cmu_socket (\<lambda>_. 1) (answers 9) host_example TCP_LISTENER 15441 None = Inr (s, EXIT_SUCCESS)"
    using cmu_socket_correct [of "\<lambda>_. 1" "answers 7" host_example TCP_INITIATOR 15441 "Some ''10.0.1.1''"]
      cmu_socket_correct [of "\<lambda>_. 1" "answers 9" host_example TCP_LISTENER 15441 None]
    by (auto simp: answers_def)
  have "dialogue (rand_value (answers 7)) (rand_value (answers 9)) (opened c) (opened s)"
    by (rule dialogue.dialogue [OF n n c s _ _ sessions.start]) (simp_all add: answers_def)
  moreover have "dying (sock c) = 0" "s_capacity (send_buf (sock c)) = 1024" using cmu_socket_fresh [OF c n] by (simp_all add: answers_def)
  ultimately show ?thesis by (intro exI [of _ "opened c"] exI [of _ "opened s"]) (simp add: answers_def)
qed

lemma running_dialogue:
  "\<exists>l r. dialogue 7 9 l r \<and> stage l = Running \<and> stage r = Running \<and> pc (thr l) = Check_death
    \<and> wrote (end_of l) = [] \<and> wrote (end_of r) = [] \<and> got (end_of l) = [] \<and> got (end_of r) = []
    \<and> \<not> waiting (thr l) \<and> dying (sock (host_of l)) = 0
    \<and> s_capacity (send_buf (sock (host_of l))) = 1024 \<and> ready 7 9 l r"
proof -
  obtain l r where f: "dialogue 7 9 l r" "stage l = Starting" "wrote (end_of l) = []" "wrote (end_of r) = []"
    "got (end_of l) = []" "got (end_of r) = []" "\<not> waiting (thr l)" "dying (sock (host_of l)) = 0"
    "s_capacity (send_buf (sock (host_of l))) = 1024" using first_dialogue by blast
  have "ready 7 9 l r" using dialogue_ready [OF f(1)] f(3,4) by simp
  from both_connect [OF this] f(2) obtain l' r' where c: "leads {} 7 9 l r l' r'" "stage l' = Running" "stage r' = Running"
    "pc (thr l') = Check_death" by auto
  moreover have "dialogue 7 9 l' r'" using dialogue_goes_on f(1) c(1) unfolding leads_def by blast
  ultimately show ?thesis using f unfolding leads_def idle_def by (intro exI [of _ l'] exI [of _ r']) simp
qed

lemma writing_dialogue:
  "\<exists>l r. dialogue 7 9 l r \<and> wrote (end_of l) = [1, 2, 3] \<and> wrote (end_of r) = []"
proof -
  obtain l r where f: "dialogue 7 9 l r" "stage l = Running" "stage r = Running"
    "wrote (end_of l) = []" "wrote (end_of r) = []" "\<not> waiting (thr l)" "dying (sock (host_of l)) = 0" "ready 7 9 l r"
    "s_capacity (send_buf (sock (host_of l))) = 1024" using running_dialogue by blast
  have "sending 7 (ep (view 7 9 l))" using session_ok_parts(3) [OF ready_ok [OF f(8)]] .
  then have wf: "sb_wf (send_buf (sock (host_of l)))" and e: "q_inflight (sb_abs (sb_of (end_of l))) = []"
    "q_fresh (sb_abs (sb_of (end_of l))) = []" using f(2,4) by (auto elim!: sendingE simp: view_settled)
  obtain sb where w: "cmu_write_turn (host_of l) [1, 2, 3] 0 3 = Inr (upd_sock (\<lambda>s. s\<lparr>send_buf := sb\<rparr>) (host_of l), 3, 0)"
    using cmu_write_turn_ok [OF wf, of 3 0 "[1, 2, 3]"] e f(9) by (auto simp: cap_def)
  have "initialized (sock (host_of l))" using f(2,8) by (simp add: ready_def alert_def)
  from session_step.beside [OF aside_step.app_write [OF _ this w]] obtain l' where
    l': "session_step (datagrams (end_of r)) l l'" "wrote (end_of l') = [1, 2, 3]"
    using f(4,6,7) by (fastforce simp: app_free_def)
  have "dialogue 7 9 l' r" using dialogue_goes_on [OF f(1)] sessions.left [OF sessions.start l'(1)] by blast
  then show ?thesis using l'(2) f(5) by (intro exI [of _ l'] exI [of _ r]) simp
qed

text \<open>A client with nothing to send, already asked to close, and the answer to its SYN.\<close>

theorem begin_backend_refines_witness:
  "\<exists>w s'. begin_backend (upd_sock (\<lambda>s. s\<lparr>dying := 1\<rparr>) client_start) [True, False] 0 [] = Inr w
    \<and> (session_step {})\<^sup>*\<^sup>* (opened (upd_sock (\<lambda>s. s\<lparr>dying := 1\<rparr>) client_start)) s'
    \<and> stage s' = Running \<and> pc (thr s') = Ended \<and> host_of s' = w"
proof -
  let ?c = "upd_sock (\<lambda>s. s\<lparr>dying := 1\<rparr>) client_start"
  have c: "fresh_socket 100 ?c" "sock_type (sock ?c) = TCP_INITIATOR"
    using start_facts(1,2) by (simp_all add: fresh_socket_def)
  then have rdy: "client_ready ?c" by (rule fresh_socket_ready)
  have "inbox ?c = (srv_addr, control_header (my_port (sock server_example)) cl_addr 100 (last_ack_received (window (sock ?c)) + 1)
      (SYN_FLAG_MASK OR ACK_FLAG_MASK)) # []"
    using c(1) start_facts(3) by (simp add: client_start_def server_start_def server_syn_ack_def fresh_socket_def)
  from init_handshake_client_ok [OF rdy this, of 1 "[]"] obtain w where w: "init_handshake_client ?c [True, False] = Inr w"
    "sock w = client_established ?c srv_addr 100" by simp
  have "backend_ends w"
    using c(1) backend_ends_iff [of w] by (simp add: w(2) client_established_def fresh_socket_def)
  then have "begin_backend ?c [True, False] 0 [] = Inr w"
    using w(1) c(2) by (simp add: begin_backend_def backend_loop.simps)
  with begin_backend_refines [of "opened ?c" "[True, False]" 0 "[]" w "{}"] show ?thesis by auto
qed

theorem session_packets_witness:
  "\<exists>l r d. dialogue 7 9 l r \<and> d \<in> datagrams (end_of l) \<and> get_plen d = Inr (of_nat (length d)) \<and> length d \<le> MAX_LEN"
proof -
  obtain l r where f: "dialogue 7 9 l r" "stage l = Running" "wrote (end_of l) = []" "wrote (end_of r) = []"
    using running_dialogue by blast
  then obtain d where d: "d \<in> datagrams (end_of l)" using dialogue_ready [OF f(1)] by (auto simp: confirmed_def)
  from session_packets [OF f(1), of d] f d show ?thesis by auto
qed

theorem session_end_complete_witness:
  "\<exists>l r. dialogue 7 9 l r \<and> pc (thr l) = Ended \<and> dying (sock (host_of l)) \<noteq> 0
    \<and> got (end_of r) @ available r = wrote (end_of l)"
proof -
  obtain l r where f: "dialogue 7 9 l r" "stage l = Running" "stage r = Running" "pc (thr l) = Check_death"
    "wrote (end_of l) = []" "wrote (end_of r) = []" "\<not> waiting (thr l)" "dying (sock (host_of l)) = 0" "ready 7 9 l r"
    using running_dialogue by blast
  have "sending 7 (ep (view 7 9 l))" using session_ok_parts(3) [OF ready_ok [OF f(9)]] .
  then have wf: "sb_wf (send_buf (sock (host_of l)))" and e: "q_inflight (sb_abs (sb_of (end_of l))) = []"
    "q_fresh (sb_abs (sb_of (end_of l))) = []" using f(2,5) by (auto elim!: sendingE simp: view_settled)
  have "initialized (sock (host_of l))" using f(2,9) by (simp add: ready_def alert_def)
  then obtain w where w: "cmu_close_request (host_of l) = Inr w" "dying (sock w) \<noteq> 0" "send_buf (sock w) = sb_of (end_of l)"
    by (simp add: cmu_close_request_def)
  let ?l1 = "(thr l)\<lparr>ep := (end_of l)\<lparr>proc := w\<rparr>\<rparr>"
  have "thread_step (datagrams (end_of r)) (thr l) ?l1"
    using f(7,8) by (intro thread_step.beside aside_step.app_close w(1)) (simp add: app_free_def)
  then have run1: "threads_run (thr l) (thr r) ?l1 (thr r)" by (rule threads_run.left [OF threads_run.start])
  have ends: "backend_ends w" using backend_ends_iff [of w] w wf e by simp
  have "reaches (datagrams (end_of r)) ?l1 Check_death w"
    using reaches_start [of "datagrams (end_of r)" ?l1] f(4) by simp
  from reaches_end [OF this ends] obtain l2 where
    l2: "(thread_step (datagrams (end_of r)))\<^sup>*\<^sup>* ?l1 l2" "pc l2 = Ended" "wrote (ep l2) = wrote (ep ?l1)"
    unfolding reaches_def by blast
  have "threads_run (thr l) (thr r) l2 (thr r)" by (rule threads_run_left_steps [OF l2(1) run1])
  from dialogue_goes_on [OF f(1) running_sessions [OF this f(2,3)]]
  have d: "dialogue 7 9 (l\<lparr>thr := l2\<rparr>) r" by simp
  have "dying (sock (host_of (l\<lparr>thr := l2\<rparr>))) \<noteq> 0 \<and> got (end_of r) @ available r = wrote (end_of (l\<lparr>thr := l2\<rparr>))"
    using session_end_complete [OF d] l2 f(2,5,6) by simp
  then show ?thesis using d l2(2) by (intro exI [of _ "l\<lparr>thr := l2\<rparr>"] exI [of _ r]) simp
qed

theorem session_no_lost_wakeup_witness:
  "\<exists>l r. dialogue 7 9 l r \<and> waiting (thr l) \<and> recv_buffer_max_read (recv_buf (sock (host_of l))) = 0"
proof -
  obtain l r where f: "dialogue 7 9 l r" "stage l = Running" "stage r = Running"
    "wrote (end_of r) = []" "\<not> waiting (thr l)" "dying (sock (host_of l)) = 0" "ready 7 9 l r"
    using running_dialogue by blast
  have "linked 7 9 (ep (view 7 9 l)) (ep (view 9 7 r))" by (rule ready_linked [OF f(7)])
  then have "receiving 9 (sent (end_of r)) (end_of l)"
    using f(2) by (simp add: linked_def linked_to_def view_settled)
  then have wf: "rb_wf (rb_of (end_of l))" by (auto simp: receiving_def rb_ok_def)
  have i: "initialized (sock (host_of l))" using f(2,7) by (simp add: ready_def alert_def)
  have "available l = []" using session_stream_back.in_order [of 7 9 "(l, r)"] f(4,7) by simp
  then have "expected_seq (rb_of (end_of l)) \<le> read_seq (rb_of (end_of l)) + 1"
    using i by (auto simp: available_def readable_def)
  then have "unat (recv_buffer_max_read (rb_of (end_of l))) = 0" using max_read [OF wf] by simp
  then have "recv_buffer_max_read (rb_of (end_of l)) = 0" by (simp add: unat_eq_0)
  then have "session_step (datagrams (end_of r)) l (l\<lparr>thr := (thr l)\<lparr>waiting := True\<rparr>\<rparr>)"
    using f(5,6) i by (intro session_step.beside aside_step.app_waits) (simp_all add: app_free_def)
  then have "dialogue 7 9 (l\<lparr>thr := (thr l)\<lparr>waiting := True\<rparr>\<rparr>) r"
    using dialogue_goes_on [OF f(1)] sessions.left [OF sessions.start] by blast
  from session_no_lost_wakeup [OF this] this show ?thesis
    by (intro exI [of _ "l\<lparr>thr := (thr l)\<lparr>waiting := True\<rparr>\<rparr>"] exI [of _ r]) simp
qed

theorem session_in_order_witness:
  "\<exists>l r. dialogue 7 9 l r \<and> wrote (end_of l) = [1, 2, 3] \<and> prefix (got (end_of r) @ available r) [1, 2, 3]"
proof -
  obtain l r where f: "dialogue 7 9 l r" "wrote (end_of l) = [1, 2, 3]" "wrote (end_of r) = []"
    using writing_dialogue by blast
  from session_in_order [OF f(1)] f show ?thesis by auto
qed

theorem session_no_loss_witness:
  "\<exists>l r acked. dialogue 7 9 l r \<and> wrote (end_of l) = [1, 2, 3]
    \<and> wrote (end_of l) = acked @ q_inflight (sb_abs (sb_of (end_of l))) @ q_fresh (sb_abs (sb_of (end_of l)))
    \<and> prefix acked (got (end_of r) @ available r)"
proof -
  obtain l r where f: "dialogue 7 9 l r" "wrote (end_of l) = [1, 2, 3]" "wrote (end_of r) = []"
    using writing_dialogue by blast
  from session_no_loss [OF f(1)] f show ?thesis by (intro exI [of _ l] exI [of _ r]) simp
qed

theorem handshake_can_complete_witness:
  "\<exists>l r l' r'. dialogue 7 9 l r \<and> stage l = Starting \<and> after_losses {} l r l' r' \<and> stage l' = Running \<and> stage r' = Running"
proof -
  obtain l r where f: "dialogue 7 9 l r" "stage l = Starting" "wrote (end_of l) = []" "wrote (end_of r) = []"
    using first_dialogue by blast
  from handshake_can_complete [OF f(1)] f show ?thesis by auto
qed

theorem handshake_never_fails_witness:
  "\<exists>l r x. dialogue 7 9 l r \<and> stage l = Starting \<and> session_section False Starting (pc (thr l)) (host_of l) = Inr x"
proof -
  obtain l r where f: "dialogue 7 9 l r" "stage l = Starting" "wrote (end_of l) = []" "wrote (end_of r) = []"
    using first_dialogue by blast
  from handshake_never_fails [OF f(1), of False] f(2-4)
  have "\<exists>x. session_section False Starting (pc (thr l)) (host_of l) = Inr x" by (simp del: session_section.simps)
  then show ?thesis using f(1,2) by blast
qed

end
