(* ===== verification/Lost_Ack.thy ===== *)
theory Lost_Ack
  imports Full_Window
begin

text \<open>
  The last packet of the handshake has no retransmission: the server waits for it in
  \<open>recvfrom\<close> without a timeout, and the client, which takes the connection for established,
  sends again only when its application writes.
\<close>

section \<open>The two sides\<close>

lemma server_waits:
  assumes "state (sock w) = SYN_RCVD" and "inbox w = []"
  shows "server_loop (Suc n) w packet = Inl Blocked"
  using assms by (simp add: server_syn_rcvd_def recvfrom_peek_def)

text \<open>The server after one or more SYNs and nothing else.\<close>

lemma server_blocked:
  assumes rdy: "server_ready w" and inb: "inbox w = replicate (Suc m) (cl, control_header src peer i a SYN_FLAG_MASK)"
    and turns: "m + 1 < turns"
  shows "init_handshake_server w turns = Inl Blocked"
proof -
  obtain n where n: "turns = Suc (m + Suc n)"
    using less_imp_Suc_add [OF turns] by auto
  define w0 where "w0 = upd_sock (\<lambda>s. s\<lparr>state := LISTEN\<rparr>) w"
  have w0: "server_ready w0" "state (sock w0) = LISTEN" "inbox w0 = inbox w"
    using rdy by (simp_all add: w0_def server_ready_def)
  let ?p = "server_syn_ack w0 cl i"
  define w1 where "w1 = w0\<lparr>sock := server_received w0 cl i,
      inbox := replicate m (cl, control_header src peer i a SYN_FLAG_MASK), outbox := outbox w0 @ [(cl, ?p)]\<rparr>"
  have w1: "state (sock w1) = SYN_RCVD" "conn (sock w1) = cl" "counter3 w1 = 0"
    "inbox w1 = replicate m (cl, control_header src peer i a SYN_FLAG_MASK) @ []"
    using w0(1) by (simp_all add: w1_def server_received_def server_ready_def)
  have l: "server_listen w0 = Inr (w1, Some ?p)"
    using server_listen_ok [OF w0(1), of cl src peer i a] inb w0(3) by (simp add: w1_def)
  have "init_handshake_server w turns = server_loop turns w0 None"
    using rdy by (simp add: init_handshake_server_def w0_def server_ready_def)
  also have "\<dots> = server_loop (m + Suc n) w1 (Some ?p)" using l w0(2) by (simp add: n)
  also have "\<dots> = server_loop (Suc n) (w1\<lparr>inbox := [], outbox := outbox w1 @ replicate m (cl, ?p)\<rparr>) (Some ?p)"
    by (rule server_resends_loop [OF w1(3) _ w1(1,2,4)]) (simp add: server_syn_ack_def)
  also have "\<dots> = Inl Blocked" using w1(1) by (intro server_waits) simp_all
  finally show ?thesis .
qed

lemma fresh_silent:
  assumes f: "fresh_socket i w" and e: "send_buf (sock w') = send_buf (sock w)" "inbox w' = []"
  shows "silent (established w')"
  using assms by (simp add: silent_def fresh_socket_def)

text \<open>
  C20: The last packet of the handshake is not repeated. The client, having resent its SYN any
  number of times, gets the SYN-ACK and its acknowledgement is lost. The client is
  established and, whatever else happens and however much time passes, sends nothing as long
  as its application does not write. The server, with any number of the client's SYNs
  received, is blocked in \<open>recvfrom\<close>, which has no timeout: no byte that its application
  has written meanwhile is ever sent.
\<close>

theorem lost_ack_stalls:
  assumes "fresh_socket i c" and "sock_type (sock c) = TCP_INITIATOR"
    and "fresh_socket j s" and "sock_type (sock s) = TCP_LISTENER"
    and "inbox c = [(srv, server_syn_ack s cl i)]"
    and "inbox s = replicate (Suc m) (cl, client_syn c)"
  shows "\<exists>c'. init_handshake_client c (replicate k True @ [False]) = Inr c' \<and> state (sock c') = ESTABLISHED
    \<and> (\<forall>e. (endpoint_step {})\<^sup>*\<^sup>* (established c') e \<longrightarrow> wrote e = [] \<longrightarrow> outbox (proc e) = outbox c')
    \<and> (\<forall>turns. m + 1 < turns \<longrightarrow> init_handshake_server s turns = Inl Blocked)"
proof -
  have rdy: "client_ready c" "server_ready s" using assms(1-4) fresh_socket_ready by blast+
  have n: "last_ack_received (window (sock c)) = i" "last_ack_received (window (sock s)) = j"
    using assms(1,3) by (simp_all add: fresh_socket_def)
  obtain out where c': "init_handshake_client c (replicate k True @ [False]) =
      Inr (c\<lparr>sock := client_established c srv j, inbox := [], outbox := out\<rparr>)"
    using init_handshake_client_ok [OF rdy(1), of srv "my_port (sock s)" cl j "[]" k "[]"] assms(5) n
    by (simp add: server_syn_ack_def)
  let ?c = "c\<lparr>sock := client_established c srv j, inbox := [], outbox := out\<rparr>"
  have "silent (established ?c)" by (rule fresh_silent [OF assms(1)]) (simp_all add: client_established_def)
  from nothing_to_send_run [OF _ this]
  have "outbox (proc e) = outbox ?c" if "(endpoint_step {})\<^sup>*\<^sup>* (established ?c) e" "wrote e = []" for e
    using that by fastforce
  moreover have "init_handshake_server s turns = Inl Blocked" if "m + 1 < turns" for turns
    by (rule server_blocked [OF rdy(2) assms(6) [unfolded client_syn_def] that])
  ultimately show ?thesis using c' by (intro exI [of _ ?c]) (simp add: client_established_def)
qed

definition unanswered_server :: host where
  "unanswered_server = server_start\<lparr>inbox := [(cl_addr, client_syn client_start)]\<rparr>"

theorem lost_ack_stalls_witness:
  "\<exists>c'. init_handshake_client client_start [True, False] = Inr c' \<and> state (sock c') = ESTABLISHED
    \<and> init_handshake_server unanswered_server 10 = Inl Blocked"
proof -
  have f: "fresh_socket 100 unanswered_server" "sock_type (sock unanswered_server) = TCP_LISTENER"
    using start_facts(3,4) by (simp_all add: unanswered_server_def fresh_socket_def)
  have "inbox client_start = [(srv_addr, server_syn_ack unanswered_server cl_addr 100)]"
    by (simp add: client_start_def unanswered_server_def server_start_def server_syn_ack_def)
  from lost_ack_stalls [OF start_facts(1,2) f this, of 0 1]
  show ?thesis by (auto simp: unanswered_server_def)
qed

end
