(* ===== verification/Applications.thy ===== *)
theory Applications
  imports Connection
begin

text \<open>
  \<open>src/client.c\<close> and \<open>src/server.c\<close>: the two example applications, as the calls they make,
  with the buffer on the stack they read into and what they print of it. The environment
  variables, the file and the answers of the operating system are arguments.
\<close>

section \<open>The state of an application\<close>

text \<open>
  A plan says, for each call, what the backend and the network do before it and, for
  \<open>cmu_write\<close>, between the turns of its loop.
\<close>

type_synonym meanwhile = "(host \<Rightarrow> host res) list"

record app =
  app_host :: host
  app_plan :: "(meanwhile \<times> meanwhile) list"
  app_buf :: "u8 list"
  app_shown :: "u8 list list"

fun run_meanwhile :: "meanwhile \<Rightarrow> host \<Rightarrow> host res" where
  "run_meanwhile [] w = Inr w"
| "run_meanwhile (f # fs) w = bindF (f w) (run_meanwhile fs)"

definition call_write :: "u8 list \<Rightarrow> int \<Rightarrow> app \<Rightarrow> app res" where
  "call_write bs len s =
     (case app_plan s of [] \<Rightarrow> Inl Blocked
      | (first, inside) # plan \<Rightarrow>
          bindF (run_meanwhile first (app_host s)) (\<lambda>w.
          bindF (cmu_write inside w bs len) (\<lambda>(w, _).
            Inr (s\<lparr>app_host := w, app_plan := plan\<rparr>))))"

definition call_read :: "int \<Rightarrow> cmu_read_mode_t \<Rightarrow> app \<Rightarrow> (app \<times> int) res" where
  "call_read len flags s =
     (case app_plan s of [] \<Rightarrow> Inl Blocked
      | (first, inside) # plan \<Rightarrow>
          bindF (run_meanwhile first (app_host s)) (\<lambda>w.
          bindF (cmu_read w (app_buf s) len flags) (\<lambda>(w, b, n).
            Inr (s\<lparr>app_host := w, app_plan := plan, app_buf := b\<rparr>, n))))"

text \<open>
  \<open>printf("%s", buf)\<close> prints up to the first zero byte, and reads on past the buffer if it
  holds none. A string literal ends in one.
\<close>

definition printf_s :: "u8 list \<Rightarrow> u8 list res" where
  "printf_s buf = (if 0 \<in> set buf then Inr (takeWhile (\<lambda>b. b \<noteq> 0) buf) else Inl OutOfBounds)"

definition print_buf :: "app \<Rightarrow> app res" where
  "print_buf s = bindF (printf_s (app_buf s)) (\<lambda>t. Inr (s\<lparr>app_shown := app_shown s @ [t]\<rparr>))"

definition c_string :: "string \<Rightarrow> u8 list" where
  "c_string s = map of_char s @ [0]"

section \<open>The client\<close>

text \<open>The texts it writes first, with the lengths it gives: without the final zero, but for the last.\<close>

definition client_texts :: "(string \<times> int) list" where
  "client_texts =
     [(''hi there'', 8),
      ('' https://www.youtube.com/watch?v=dQw4w9WgXcQ'', 44),
      ('' https://www.youtube.com/watch?v=Yb6dZ1IFlKc'', 44),
      ('' https://www.youtube.com/watch?v=xvFZjo5PgG0'', 44),
      ('' https://www.youtube.com/watch?v=8ybW48rKBME'', 44),
      ('' https://www.youtube.com/watch?v=xfr64zoBTAQ'', 45)]"

fun write_texts :: "(string \<times> int) list \<Rightarrow> app \<Rightarrow> app res" where
  "write_texts [] s = Inr s"
| "write_texts ((t, len) # ts) s = bindF (call_write (c_string t) len s) (write_texts ts)"

text \<open>The loop that sends the file: \<open>fread\<close> of at most 2000 bytes until nothing is left.\<close>

function send_file :: "u8 list \<Rightarrow> app \<Rightarrow> app res" where
  "send_file rest s =
     (let n = length (take 2000 rest) in
      bindF (memcpy (app_buf s) 0 rest 0 n) (\<lambda>b.
      let s = s\<lparr>app_buf := b\<rparr> in
      if n > 0 then bindF (call_write (app_buf s) (int n) s) (send_file (drop 2000 rest))
      else Inr s))"
  by pat_completeness auto
termination by (relation "measure (\<lambda>(rest, s). length rest)") auto

declare send_file.simps [simp del]

definition client_functionality :: "u8 list option \<Rightarrow> app \<Rightarrow> app res" where
  "client_functionality file s =
     bindF (write_texts client_texts s) (\<lambda>s.
     bindF (call_read 200 NO_FLAG s) (\<lambda>(s, n).
     bindF (print_buf s) (\<lambda>s.
     bindF (call_write (c_string ''hi there'') 9 s) (\<lambda>s.
     bindF (call_read 200 NO_FLAG s) (\<lambda>(s, n).
     bindF (print_buf s) (\<lambda>s.
     bindF (call_read 200 NO_WAIT s) (\<lambda>(s, n).
     bindF (print_buf s) (\<lambda>s.
       case file of None \<Rightarrow> Inl NullDeref | Some contents \<Rightarrow> send_file contents s))))))))"

text \<open>
  \<open>main\<close>: the address and the port come from the environment; \<open>exit(EXIT_FAILURE)\<close> is 1.
  The thread of the backend runs from \<open>cmu_socket\<close> on, and \<open>cmu_close\<close> waits for its end.
\<close>

definition server_port :: "(string \<Rightarrow> string option) \<Rightarrow> (string \<Rightarrow> int) \<Rightarrow> int" where
  "server_port getenv atoi =
     uint (word_of_int (atoi (case getenv ''serverport15441'' of None \<Rightarrow> ''15441'' | Some p \<Rightarrow> p)) :: u16)"

definition server_address :: "(string \<Rightarrow> string option) \<Rightarrow> string" where
  "server_address getenv = (case getenv ''server15441'' of None \<Rightarrow> ''10.0.1.1'' | Some ip \<Rightarrow> ip)"

definition client_main ::
  "(string \<Rightarrow> u32) \<Rightarrow> (string \<Rightarrow> string option) \<Rightarrow> (string \<Rightarrow> int) \<Rightarrow> os_answers \<Rightarrow> u8 list option \<Rightarrow>
    meanwhile \<Rightarrow> int \<Rightarrow> app \<Rightarrow> (app \<times> int) res"
where
  "client_main inet_addr getenv atoi os file until_end close_result s =
     bindF (cmu_socket inet_addr os (app_host s) TCP_INITIATOR (server_port getenv atoi)
              (Some (server_address getenv))) (\<lambda>(w, r).
     if r < 0 then Inr (s\<lparr>app_host := w\<rparr>, 1)
     else bindF (client_functionality file (s\<lparr>app_host := w\<rparr>)) (\<lambda>s.
          bindF (cmu_close_request (app_host s)) (\<lambda>w.
          bindF (run_meanwhile until_end w) (\<lambda>w.
          if \<not> backend_ends w then Inl Blocked
          else bindF (cmu_close_finish w) (\<lambda>w.
            Inr (s\<lparr>app_host := w\<rparr>, if close_result < 0 then 1 else EXIT_SUCCESS))))))"

section \<open>The server\<close>

definition BUF_SIZE :: int where "BUF_SIZE = 10000"

text \<open>
  \<open>while (true)\<close> around a read that does not wait: it turns as long as the plan lasts, and
  what follows it in the function is never reached.
\<close>

fun server_loop_read :: "nat \<Rightarrow> app \<Rightarrow> app res" where
  "server_loop_read 0 s = Inl Blocked"
| "server_loop_read (Suc turns) s =
     bindF (call_read BUF_SIZE NO_WAIT s) (\<lambda>(s, n). bindF (print_buf s) (server_loop_read turns))"

definition server_functionality :: "nat \<Rightarrow> app \<Rightarrow> app res" where
  "server_functionality turns s =
     bindF (call_read BUF_SIZE NO_FLAG s) (\<lambda>(s, n).
     bindF (print_buf s) (\<lambda>s.
     bindF (call_write (c_string ''hi there'') 9 s) (\<lambda>s.
     bindF (call_read 200 NO_FLAG s) (\<lambda>(s, n).
     bindF (print_buf s) (\<lambda>s.
     bindF (call_write (c_string ''https://www.youtube.com/watch?v=dQw4w9WgXcQ'') 44 s) (\<lambda>s.
     bindF (call_read BUF_SIZE NO_FLAG s) (\<lambda>(s, n).
     bindF (print_buf s) (server_loop_read turns))))))))"

definition server_main ::
  "(string \<Rightarrow> u32) \<Rightarrow> (string \<Rightarrow> string option) \<Rightarrow> (string \<Rightarrow> int) \<Rightarrow> os_answers \<Rightarrow> nat \<Rightarrow>
    app \<Rightarrow> (app \<times> int) res"
where
  "server_main inet_addr getenv atoi os turns s =
     bindF (cmu_socket inet_addr os (app_host s) TCP_LISTENER (server_port getenv atoi)
              (Some (server_address getenv))) (\<lambda>(w, r).
     if r < 0 then Inr (s\<lparr>app_host := w\<rparr>, 1)
     else bindF (server_functionality turns (s\<lparr>app_host := w\<rparr>)) (\<lambda>s. Inl Diverges))"


text \<open>Whatever the plan, the server's function does not return.\<close>

lemma server_loop_read_never_returns: "server_loop_read turns s \<noteq> Inr s'"
  by (induction turns arbitrary: s) auto

lemma server_functionality_never_returns: "server_functionality turns s \<noteq> Inr s'"
  using server_loop_read_never_returns by (auto simp: server_functionality_def)

section \<open>The calls as steps of a connection\<close>

text \<open>
  What happens beside the application is a run of the connection in which it neither writes
  nor reads.
\<close>

definition outside :: "endpoint \<Rightarrow> endpoint \<Rightarrow> (host \<Rightarrow> host res) \<Rightarrow> bool" where
  "outside l0 r0 f \<longleftrightarrow> (\<forall>l r w. connection l0 r0 l r \<longrightarrow> f (proc l) = Inr w \<longrightarrow>
     (\<exists>l' r'. connection l0 r0 l' r' \<and> proc l' = w \<and> wrote l' = wrote l \<and> got l' = got l))"

definition plan_outside :: "endpoint \<Rightarrow> endpoint \<Rightarrow> app \<Rightarrow> bool" where
  "plan_outside l0 r0 s \<longleftrightarrow> (\<forall>p \<in> set (app_plan s). \<forall>f \<in> set (fst p) \<union> set (snd p). outside l0 r0 f)"

lemma outsideD:
  "outside l0 r0 f \<Longrightarrow> connection l0 r0 l r \<Longrightarrow> f (proc l) = Inr w \<Longrightarrow>
    \<exists>l' r'. connection l0 r0 l' r' \<and> proc l' = w \<and> wrote l' = wrote l \<and> got l' = got l"
  unfolding outside_def by blast

lemma run_meanwhile_outside:
  assumes "run_meanwhile fs (proc l) = Inr w" and "\<forall>f \<in> set fs. outside l0 r0 f"
    and "connection l0 r0 l r"
  shows "\<exists>l' r'. connection l0 r0 l' r' \<and> proc l' = w \<and> wrote l' = wrote l \<and> got l' = got l"
  using assms
proof (induction fs arbitrary: l r)
  case (Cons f fs)
  then obtain w1 where w1: "f (proc l) = Inr w1" "run_meanwhile fs w1 = Inr w" by auto
  with Cons.prems(2,3) obtain l1 r1 where l1: "connection l0 r0 l1 r1" "proc l1 = w1"
    "wrote l1 = wrote l" "got l1 = got l"
    unfolding outside_def by (metis list.set_intros(1))
  with Cons.IH [of l1 r1] Cons.prems(2) w1(2) show ?case by auto
qed auto

lemma cmu_write_turn_moves:
  assumes "cmu_write_turn w buf written len = Inr (w', written', len')" and "0 < len" and "len < 2 ^ 31"
  shows "\<exists>n \<le> nat len. written' = written + of_nat n \<and> len' = len - int n"
proof -
  define k where "k = (if word_of_int len > send_buffer_max_write (send_buf (sock w))
      then send_buffer_max_write (send_buf (sock w)) else word_of_int len)"
  have "unat (word_of_int len :: u32) = nat len"
    using assms(2,3) by (simp add: unsigned_of_int take_bit_int_eq_self)
  then have "unat k \<le> nat len" by (auto simp: k_def word_less_nat_alt)
  moreover have "written' = written + of_nat (unat k) \<and> len' = len - int (unat k)"
  proof -
    have "cmu_write_turn w buf written len =
        (if k > 0 then bindF (send_buffer_write (send_buf (sock w)) (drop (unat written) buf) k) (\<lambda>sb.
             Inr (upd_sock (\<lambda>s. s\<lparr>send_buf := sb\<rparr>) w, written + k, len - uint k))
         else Inr (w, written, len))"
      by (simp only: cmu_write_turn_def Let_def k_def)
    with assms(1) show ?thesis by (cases "k = 0") (auto simp: word_neq_0_conv)
  qed
  ultimately show ?thesis by blast
qed

lemma cmu_write_loop_run:
  assumes "cmu_write_loop others (proc l) buf written len = Inr (w, c)"
    and "\<forall>f \<in> set others. outside l0 r0 f" and "connection l0 r0 l r"
    and "len < 2 ^ 31" and "unat written + nat len \<le> length buf" and "length buf < 2 ^ 32"
  shows "\<exists>l' r'. connection l0 r0 l' r' \<and> proc l' = w
    \<and> wrote l' = wrote l @ take (nat len) (drop (unat written) buf) \<and> got l' = got l"
  using assms
proof (induction others arbitrary: l r written len)
  case Nil
  show ?case
  proof (cases "0 < len")
    case False
    then show ?thesis using Nil.prems(1,3) by (auto simp: cmu_write_loop.simps)
  next
    case True
    with Nil.prems(1) obtain written' len' where t: "cmu_write_turn (proc l) buf written len = Inr (w, written', len')" "len' \<le> 0"
      by (auto simp: cmu_write_loop.simps split: if_splits)
    have "connection l0 r0 (l\<lparr>proc := w, wrote := wrote l @ take (nat (len - len')) (drop (unat written) buf)\<rparr>) r"
      by (rule connection.left [OF Nil.prems(3) endpoint_step.app_write [OF t(1) True Nil.prems(4,5)]])
    moreover have "nat (len - len') = nat len"
      using cmu_write_turn_moves [OF t(1) True Nil.prems(4)] t(2) by auto
    ultimately show ?thesis by force
  qed
next
  case (Cons f others)
  show ?case
  proof (cases "0 < len")
    case False
    then show ?thesis using Cons.prems(1,3) by (auto simp: cmu_write_loop.simps)
  next
    case True
    with Cons.prems(1) obtain w1 written' len' where t: "cmu_write_turn (proc l) buf written len = Inr (w1, written', len')"
      "if len' > 0 then bindF (f w1) (\<lambda>w. cmu_write_loop others w buf written' len') = Inr (w, c) else w1 = w"
      by (subst (asm) cmu_write_loop.simps) (auto split: if_splits)
    obtain n where n: "n \<le> nat len" "written' = written + of_nat n" "len' = len - int n"
      using cmu_write_turn_moves [OF t(1) True Cons.prems(4)] by blast
    let ?l = "l\<lparr>proc := w1, wrote := wrote l @ take n (drop (unat written) buf)\<rparr>"
    have l: "connection l0 r0 ?l r"
      using connection.left [OF Cons.prems(3) endpoint_step.app_write [OF t(1) True Cons.prems(4,5)]] n(3)
      by simp
    show ?thesis
    proof (cases "len' > 0")
      case False
      then have "w1 = w" "nat len = n" using t(2) n True by auto
      then show ?thesis using l by force
    next
      case more: True
      with t(2) obtain w2 where w2: "f w1 = Inr w2" "cmu_write_loop others w2 buf written' len' = Inr (w, c)"
        by auto
      have "outside l0 r0 f" using Cons.prems(2) by simp
      from outsideD [OF this l, of w2] w2(1) obtain l2 r2 where
        l2: "connection l0 r0 l2 r2" "proc l2 = w2" "wrote l2 = wrote ?l" "got l2 = got ?l"
        by auto
      have u: "unat written' = unat written + n"
        unfolding n(2) using n(1) Cons.prems(5,6) by (subst unat_add32) (auto simp: unat_of_nat)
      have "nat len = n + nat len'" using n(1,3) more by simp
      then have "take n (drop (unat written) buf) @ take (nat len') (drop (unat written') buf) =
          take (nat len) (drop (unat written) buf)"
        unfolding u by (simp add: take_add add.commute)
      then show ?thesis
        using Cons.IH [of l2 written' len' r2] l2 w2(2) Cons.prems(2,4,5,6) u n more by auto
    qed
  qed
qed


lemma call_write_run:
  assumes "call_write bs len s = Inr s'" and "plan_outside l0 r0 s"
    and "connection l0 r0 l r" and "app_host s = proc l"
    and "len < 2 ^ 31" and "nat len \<le> length bs" and "length bs < 2 ^ 32"
  shows "plan_outside l0 r0 s' \<and> app_buf s' = app_buf s \<and> (\<exists>l' r'. connection l0 r0 l' r'
    \<and> proc l' = app_host s' \<and> wrote l' = wrote l @ take (nat len) bs \<and> got l' = got l)"
proof -
  obtain first inside plan where p: "app_plan s = (first, inside) # plan"
    using assms(1) by (auto simp: call_write_def split: list.splits)
  with assms(1,4) obtain w w' c where st: "run_meanwhile first (proc l) = Inr w"
    "cmu_write inside w bs len = Inr (w', c)" "s' = s\<lparr>app_host := w', app_plan := plan\<rparr>"
    by (auto simp: call_write_def)
  have o: "\<forall>f \<in> set first. outside l0 r0 f" "\<forall>f \<in> set inside. outside l0 r0 f" "plan_outside l0 r0 s'"
    using assms(2) p st(3) by (auto simp: plan_outside_def)
  obtain l1 r1 where l1: "connection l0 r0 l1 r1" "proc l1 = w" "wrote l1 = wrote l" "got l1 = got l"
    using run_meanwhile_outside [OF st(1) o(1) assms(3)] by blast
  have "cmu_write_loop inside (proc l1) bs 0 len = Inr (w', c)"
    using st(2) l1(2) by (auto simp: cmu_write_def split: if_splits)
  from cmu_write_loop_run [OF this o(2) l1(1) assms(5) _ assms(7)] assms(6)
  obtain l' r' where "connection l0 r0 l' r'" "proc l' = w'" "wrote l' = wrote l1 @ take (nat len) bs"
    "got l' = got l1"
    by auto
  with l1 o(3) st(3) show ?thesis by auto
qed

lemma send_file_run:
  assumes "send_file rest s = Inr s'" and "plan_outside l0 r0 s"
    and "connection l0 r0 l r" and "app_host s = proc l" and "length (app_buf s) < 2 ^ 32"
  shows "\<exists>l' r'. connection l0 r0 l' r' \<and> proc l' = app_host s'
    \<and> wrote l' = wrote l @ rest \<and> got l' = got l"
  using assms
proof (induction rest s arbitrary: l r rule: send_file.induct)
  case (1 rest s)
  let ?n = "length (take 2000 rest)"
  obtain b where b: "memcpy (app_buf s) 0 rest 0 ?n = Inr b"
    and go: "(if ?n > 0 then bindF (call_write b (int ?n) (s\<lparr>app_buf := b\<rparr>)) (send_file (drop 2000 rest))
      else Inr (s\<lparr>app_buf := b\<rparr>)) = Inr s'"
    using "1.prems"(1) by (subst (asm) send_file.simps) (auto simp: Let_def split: if_splits)
  show ?case
  proof (cases "rest = []")
    case True
    then have "s' = s\<lparr>app_buf := b\<rparr>" using go by simp
    then show ?thesis using "1.prems"(3,4) True by auto
  next
    case False
    then have n: "?n > 0" by simp
    with go obtain s1 where s1: "call_write b (int ?n) (s\<lparr>app_buf := b\<rparr>) = Inr s1"
      "send_file (drop 2000 rest) s1 = Inr s'"
      by auto
    have lb: "length b = length (app_buf s)" using b by (rule memcpy_length)
    have "?n \<le> length (app_buf s)" and b': "b = take ?n rest @ drop ?n (app_buf s)"
      using b False by (auto simp: memcpy_def split: if_splits)
    then have nb: "?n \<le> length b" using lb by simp
    have tb: "take ?n b = take 2000 rest" unfolding b' by (simp add: min_def)
    have po: "plan_outside l0 r0 (s\<lparr>app_buf := b\<rparr>)" using "1.prems"(2) by (simp add: plan_outside_def)
    have "int ?n < 2 ^ 31" by (simp add: min_def)
    from call_write_run [OF s1(1) po "1.prems"(3) _ this] "1.prems"(4,5) lb nb
    obtain l1 r1 where l1: "plan_outside l0 r0 s1" "app_buf s1 = b" "connection l0 r0 l1 r1"
      "proc l1 = app_host s1" "wrote l1 = wrote l @ take 2000 rest" "got l1 = got l"
      using tb by auto
    from "1.IH" [OF refl b refl n _ s1(2) l1(1,3)] s1(1) l1 lb "1.prems"(5)
    obtain l' r' where "connection l0 r0 l' r'" "proc l' = app_host s'"
      "wrote l' = wrote l1 @ drop 2000 rest" "got l' = got l1"
      by auto
    then show ?thesis using l1(5,6) by auto
  qed
qed

section \<open>Properties\<close>

lemma server_first_print:
  assumes "app_plan s = ([], inside) # plan" and "initialized (sock (app_host s))"
    and "rb_ok (recv_buf (sock (app_host s))) (segs (app_host s)) xs"
    and "length (app_buf s) = 10000" and "0 \<notin> set (app_buf s)"
  defines "rb \<equiv> recv_buf (sock (app_host s))"
  assumes "read_seq rb + 1 < expected_seq rb"
    and "\<forall>q. read_seq rb < q \<and> q < expected_seq rb \<longrightarrow> byte_at rb q \<noteq> 0"
  shows "server_functionality turns s = Inl OutOfBounds"
proof -
  define n where "n = min (nat 10000) (expected_seq rb - read_seq rb - 1)"
  let ?b = "map (\<lambda>k. byte_at rb (read_seq rb + 1 + k)) [0..<n] @ drop n (app_buf s)"
  obtain rb' where "cmu_read (app_host s) (app_buf s) 10000 NO_FLAG =
      Inr (upd_sock (\<lambda>s. s\<lparr>recv_buf := rb'\<rparr>) (app_host s), ?b, int n)"
    using cmu_read_ok [OF assms(2) _ assms(3), of NO_FLAG 10000 "app_buf s"] assms(4,7)
    unfolding rb_def n_def by auto
  moreover have "0 \<notin> set ?b"
  proof -
    have "byte_at rb (read_seq rb + 1 + k) \<noteq> 0" if "k < n" for k
    proof -
      have "read_seq rb < read_seq rb + 1 + k" "read_seq rb + 1 + k < expected_seq rb"
        using that by (auto simp: n_def)
      with assms(8) show ?thesis by blast
    qed
    moreover have "0 \<notin> set (drop n (app_buf s))" using assms(5) set_drop_subset by fast
    ultimately show ?thesis by (auto simp: in_set_conv_nth)
  qed
  ultimately show ?thesis
    using assms(1) by (simp add: server_functionality_def call_read_def BUF_SIZE_def print_buf_def printf_s_def
      bindF_eq_Inl)
qed

text \<open>
  The applications print the bytes they read as a string although \<open>cmu_read\<close> does not
  end them with a zero byte: when the bytes that arrived first hold none, as the first text
  of the client does, and neither does the rest of the uninitialised buffer, the server reads
  beyond its buffer.
\<close>

lemma server_prints_past_data:
  assumes "app_plan s = ([], inside) # plan" and "initialized (sock (app_host s))"
    and "rb_ok (recv_buf (sock (app_host s))) (segs (app_host s)) xs"
    and "length (app_buf s) = 10000" and "0 \<notin> set (app_buf s)"
    and "read_seq (recv_buf (sock (app_host s))) + 1 < expected_seq (recv_buf (sock (app_host s)))"
    and "\<forall>q. read_seq (recv_buf (sock (app_host s))) < q \<and> q < expected_seq (recv_buf (sock (app_host s)))
      \<longrightarrow> byte_at (recv_buf (sock (app_host s))) q \<noteq> 0"
  shows "server_functionality turns s = Inl OutOfBounds"
  by (rule server_first_print [OF assms])


lemma server_prints_past_data_witness:
  "server_functionality 5 \<lparr>app_host = upd_sock (\<lambda>s. s\<lparr>recv_buf := rb_two_bytes\<rparr>) host_example,
     app_plan = [([], [])], app_buf = replicate 10000 1, app_shown = []\<rparr> = Inl OutOfBounds"
proof -
  have "byte_at rb_two_bytes 101 = 8" "byte_at rb_two_bytes 102 = 9"
    by (simp_all add: byte_at_def ring_slot_def rb_nat rb_two_bytes_def rb_example_def)
  then have "byte_at rb_two_bytes q \<noteq> 0" if "100 < q" "q < 103" for q
  proof -
    have "q = 101 \<or> q = 102" using that by linarith
    then show ?thesis using \<open>byte_at rb_two_bytes 101 = 8\<close> \<open>byte_at rb_two_bytes 102 = 9\<close> by auto
  qed
  then show ?thesis
    using server_prints_past_data [of "\<lparr>app_host = upd_sock (\<lambda>s. s\<lparr>recv_buf := rb_two_bytes\<rparr>) host_example,
     app_plan = [([], [])], app_buf = replicate 10000 1, app_shown = []\<rparr>" "[]" "[]" "[]" 5]
    by (simp add: rb_two_bytes_ok)
qed

end
