(* ===== verification/Client_Session.thy ===== *)
theory Client_Session
  imports Applications Full_Window
begin

text \<open>
  The example programs as a whole: all calls of \<open>client.c\<close> and of the test server are a run
  of the connection in which the application writes exactly the bytes of the program, so
  what the peer reads is a prefix of them. And \<open>tests/testing_server.c\<close>, which waits for the
  first bytes and then sends a file.
\<close>

section \<open>The test server\<close>

text \<open>
  \<open>while (n == 0) n = cmu_read(...)\<close>, a number of times, then the file in pieces of 2000
  bytes by the same loop as the client's.
\<close>

fun await_first :: "nat \<Rightarrow> app \<Rightarrow> (app \<times> int) res" where
  "await_first 0 s = Inl Blocked"
| "await_first (Suc k) s =
     bindF (call_read 9898 NO_FLAG s) (\<lambda>(s, n). if n = 0 then await_first k s else Inr (s, n))"

definition test_functionality :: "nat \<Rightarrow> u8 list option \<Rightarrow> app \<Rightarrow> app res" where
  "test_functionality k file s =
     bindF (await_first k s) (\<lambda>(s, n).
       case file of None \<Rightarrow> Inl NullDeref | Some contents \<Rightarrow> send_file contents s)"

text \<open>\<open>sleep(5)\<close> and the rest of the time until the thread has ended is \<open>until_end\<close>.\<close>

definition test_main ::
  "(string \<Rightarrow> u32) \<Rightarrow> (string \<Rightarrow> string option) \<Rightarrow> (string \<Rightarrow> int) \<Rightarrow> os_answers \<Rightarrow> nat \<Rightarrow> u8 list option \<Rightarrow>
    meanwhile \<Rightarrow> meanwhile \<Rightarrow> int \<Rightarrow> app \<Rightarrow> (app \<times> int) res"
where
  "test_main inet_addr getenv atoi os k file asleep until_end close_result s =
     bindF (cmu_socket inet_addr os (app_host s) TCP_LISTENER (server_port getenv atoi)
              (Some (server_address getenv))) (\<lambda>(w, r).
     if r < 0 then Inr (s\<lparr>app_host := w\<rparr>, 1)
     else bindF (test_functionality k file (s\<lparr>app_host := w\<rparr>)) (\<lambda>s.
          bindF (run_meanwhile asleep (app_host s)) (\<lambda>w.
          bindF (cmu_close_request w) (\<lambda>w.
          bindF (run_meanwhile until_end w) (\<lambda>w.
          if \<not> backend_ends w then Inl Blocked
          else bindF (cmu_close_finish w) (\<lambda>w.
            Inr (s\<lparr>app_host := w\<rparr>, if close_result < 0 then 1 else EXIT_SUCCESS)))))))"

section \<open>The calls as runs\<close>

lemma safe_memcpy_from_length:
  "safe_memcpy_from_recvbuf rb n d = Inr d' \<Longrightarrow> length d' = length d"
  by (auto simp: safe_memcpy_from_recvbuf_def Let_def split: if_splits)
    (metis memcpy_length)+

lemma cmu_read_buffer:
  "cmu_read w buf len flags = Inr (w', buf', n) \<Longrightarrow> length buf' = length buf"
  by (auto simp: cmu_read_def recv_buffer_read_def Let_def split: if_splits dest: safe_memcpy_from_length)

text \<open>The application goes on from one state of a connection to another, having written \<open>bs\<close>.\<close>

definition app_runs :: "endpoint \<Rightarrow> endpoint \<Rightarrow> u8 list \<Rightarrow> app \<Rightarrow> bool" where
  "app_runs l0 r0 bs s \<longleftrightarrow> plan_outside l0 r0 s \<and> length (app_buf s) = 9898
     \<and> (\<exists>l r. connection l0 r0 l r \<and> proc l = app_host s \<and> wrote l = bs)"

lemma app_runs_read:
  assumes at: "app_runs l0 r0 bs s" and rd: "call_read len flags s = Inr (s', n)"
    and len: "len < 2 ^ 31" "nat len \<le> 9898"
  shows "app_runs l0 r0 bs s'"
proof -
  obtain l r where l: "plan_outside l0 r0 s" "length (app_buf s) = 9898" "connection l0 r0 l r"
    "proc l = app_host s" "wrote l = bs" using at by (auto simp: app_runs_def)
  obtain first inside plan where p: "app_plan s = (first, inside) # plan"
    using rd by (auto simp: call_read_def split: list.splits)
  then obtain w w' b where st: "run_meanwhile first (proc l) = Inr w" "cmu_read w (app_buf s) len flags = Inr (w', b, n)"
    "s' = s\<lparr>app_host := w', app_plan := plan, app_buf := b\<rparr>"
    using rd l(4) by (auto simp: call_read_def)
  have o: "\<forall>f \<in> set first. outside l0 r0 f" "plan_outside l0 r0 s'"
    using l(1) p st(3) by (auto simp: plan_outside_def)
  obtain l1 r1 where l1: "connection l0 r0 l1 r1" "proc l1 = w" "wrote l1 = wrote l"
    using run_meanwhile_outside [OF st(1) o(1) l(3)] by blast
  have "endpoint_step (datagrams r1) l1 (l1\<lparr>proc := w', got := got l1 @ take (nat n) b\<rparr>)"
    using endpoint_step.app_read [OF _ len(1), of l1 "app_buf s" flags w' b n "datagrams r1"] st(2) l1(2) len(2) l(2)
    by simp
  then have "connection l0 r0 (l1\<lparr>proc := w', got := got l1 @ take (nat n) b\<rparr>) r1"
    by (rule connection.left [OF l1(1)])
  moreover have "length b = 9898" using cmu_read_buffer [OF st(2)] l(2) by simp
  ultimately show ?thesis
    using o(2) l(5) l1(3) st(3) unfolding app_runs_def by force
qed

lemma app_runs_write:
  assumes at: "app_runs l0 r0 bs s" and wr: "call_write b len s = Inr s'"
    and len: "len < 2 ^ 31" "nat len \<le> length b" "length b < 2 ^ 32"
  shows "app_runs l0 r0 (bs @ take (nat len) b) s'"
proof -
  obtain l r where l: "plan_outside l0 r0 s" "length (app_buf s) = 9898" "connection l0 r0 l r"
    "proc l = app_host s" "wrote l = bs" using at by (auto simp: app_runs_def)
  from call_write_run [OF wr l(1,3) l(4) [symmetric] len] l show ?thesis
    unfolding app_runs_def by metis
qed

lemma app_runs_print: "app_runs l0 r0 bs s \<Longrightarrow> print_buf s = Inr s' \<Longrightarrow> app_runs l0 r0 bs s'"
  by (auto simp: app_runs_def print_buf_def plan_outside_def)

lemma app_runs_texts:
  assumes "app_runs l0 r0 bs s" and "write_texts ts s = Inr s'"
    and "\<forall>(t, len) \<in> set ts. len < 2 ^ 31 \<and> nat len \<le> length (c_string t) \<and> length (c_string t) < 2 ^ 32"
  shows "app_runs l0 r0 (bs @ concat (map (\<lambda>(t, len). take (nat len) (c_string t)) ts)) s'"
  using assms
proof (induction ts arbitrary: bs s)
  case (Cons x ts)
  obtain t len where x: "x = (t, len)" by (cases x)
  obtain s1 where s1: "call_write (c_string t) len s = Inr s1" "write_texts ts s1 = Inr s'"
    using Cons.prems(2) x by auto
  have "app_runs l0 r0 (bs @ take (nat len) (c_string t)) s1"
    by (rule app_runs_write [OF Cons.prems(1) s1(1)]) (use Cons.prems(3) x in auto)
  from Cons.IH [OF this s1(2)] Cons.prems(3) show ?case by (simp add: x)
qed simp

lemma app_runs_file:
  assumes "app_runs l0 r0 bs s" and "send_file contents s = Inr s'"
  shows "\<exists>l r. connection l0 r0 l r \<and> proc l = app_host s' \<and> wrote l = bs @ contents"
proof -
  obtain l r where l: "plan_outside l0 r0 s" "length (app_buf s) = 9898" "connection l0 r0 l r"
    "proc l = app_host s" "wrote l = bs" using assms(1) by (auto simp: app_runs_def)
  from send_file_run [OF assms(2) l(1,3) l(4) [symmetric]] l(2,5) show ?thesis by auto
qed

section \<open>The programs\<close>

text \<open>
  Everything \<open>client.c\<close> writes: one string with its final zero, a second one, and the file. The
  lengths in the calls cut off the zeros in between.
\<close>

definition client_stream :: "u8 list \<Rightarrow> u8 list" where
  "client_stream contents =
     c_string (''hi there https://www.youtube.com/watch?v=dQw4w9WgXcQ''
       @ '' https://www.youtube.com/watch?v=Yb6dZ1IFlKc https://www.youtube.com/watch?v=xvFZjo5PgG0''
       @ '' https://www.youtube.com/watch?v=8ybW48rKBME https://www.youtube.com/watch?v=xfr64zoBTAQ'')
     @ c_string ''hi there'' @ contents"

lemma client_texts_stream:
  "concat (map (\<lambda>(t, len). take (nat len) (c_string t)) client_texts) @ c_string ''hi there'' @ contents = client_stream contents"
  by (simp add: client_texts_def client_stream_def c_string_def)

lemma client_texts_lengths:
  "\<forall>(t, len) \<in> set client_texts. len < 2 ^ 31 \<and> nat len \<le> length (c_string t) \<and> length (c_string t) < 2 ^ 32"
  by (simp add: client_texts_def c_string_def)

lemma client_functionality_run:
  assumes at: "app_runs l0 r0 [] s" and f: "client_functionality (Some contents) s = Inr s'"
  shows "\<exists>l r. connection l0 r0 l r \<and> proc l = app_host s' \<and> wrote l = client_stream contents"
proof -
  obtain s1 s2 s3 s4 s5 s6 s7 s8 n n' n'' where st: "write_texts client_texts s = Inr s1"
    "call_read 200 NO_FLAG s1 = Inr (s2, n)" "print_buf s2 = Inr s3"
    "call_write (c_string ''hi there'') 9 s3 = Inr s4" "call_read 200 NO_FLAG s4 = Inr (s5, n')"
    "print_buf s5 = Inr s6" "call_read 200 NO_WAIT s6 = Inr (s7, n'')" "print_buf s7 = Inr s8"
    "send_file contents s8 = Inr s'"
    using f by (auto simp: client_functionality_def)
  let ?t = "concat (map (\<lambda>(t, len). take (nat len) (c_string t)) client_texts)"
  have "app_runs l0 r0 ?t s1" using app_runs_texts [OF at st(1) client_texts_lengths] by simp
  then have "app_runs l0 r0 ?t s2" by (rule app_runs_read [OF _ st(2)]) simp_all
  then have "app_runs l0 r0 ?t s3" by (rule app_runs_print [OF _ st(3)])
  then have "app_runs l0 r0 (?t @ take (nat 9) (c_string ''hi there'')) s4"
    by (rule app_runs_write [OF _ st(4)]) (simp_all add: c_string_def)
  then have "app_runs l0 r0 (?t @ c_string ''hi there'') s4" by (simp add: c_string_def)
  then have "app_runs l0 r0 (?t @ c_string ''hi there'') s5" by (rule app_runs_read [OF _ st(5)]) simp_all
  then have "app_runs l0 r0 (?t @ c_string ''hi there'') s6" by (rule app_runs_print [OF _ st(6)])
  then have "app_runs l0 r0 (?t @ c_string ''hi there'') s7" by (rule app_runs_read [OF _ st(7)]) simp_all
  then have "app_runs l0 r0 (?t @ c_string ''hi there'') s8" by (rule app_runs_print [OF _ st(8)])
  from app_runs_file [OF this st(9)] show ?thesis by (simp add: client_texts_stream)
qed

lemma await_first_run:
  "app_runs l0 r0 bs s \<Longrightarrow> await_first k s = Inr (s', n) \<Longrightarrow> app_runs l0 r0 bs s'"
  by (induction k arbitrary: s) (auto split: if_splits dest: app_runs_read)

lemma test_functionality_run:
  assumes at: "app_runs l0 r0 [] s" and f: "test_functionality k (Some contents) s = Inr s'"
  shows "\<exists>l r. connection l0 r0 l r \<and> proc l = app_host s' \<and> wrote l = contents"
proof -
  obtain s1 n where "await_first k s = Inr (s1, n)" "send_file contents s1 = Inr s'"
    using f by (auto simp: test_functionality_def)
  with await_first_run [OF at] app_runs_file show ?thesis by fastforce
qed


text \<open>
  The client program as a whole. Run against any backend, network and server that let its
  calls return, \<open>functionality\<close> is a run of the connection in which the application writes
  exactly the six texts with the lengths it gives, the nine bytes of its second greeting and
  the bytes of the file; so, if the two sides were linked when it began, what the server has
  read or can read is a prefix of that. (With a file of more than the two kilobytes that
  \<open>send_buffer_sends_less_than_capacity\<close> leaves a socket of 1024 bytes, they do not all return.)
\<close>

lemma client_writes_stream:
  assumes "client_functionality (Some contents) s = Inr s'"
    and "\<forall>p \<in> set (app_plan s). \<forall>f \<in> set (fst p) \<union> set (snd p). outside l r f"
    and "app_host s = proc l" and "wrote l = []" and "length (app_buf s) = 9898"
  shows "\<exists>l' r'. connection l r l' r' \<and> proc l' = app_host s' \<and> wrote l' = client_stream contents
    \<and> (\<forall>i j. linked i j l r \<longrightarrow> unat i + length (client_stream contents) + MSS < 2 ^ 32 \<longrightarrow>
        unat j + length (wrote r') + MSS < 2 ^ 32 \<longrightarrow> prefix (got r' @ readable r') (client_stream contents))"
proof -
  have "app_runs l r [] s"
    unfolding app_runs_def plan_outside_def
    using assms(2-5) connection.start [of l r] by auto
  then obtain l' r' where c: "connection l r l' r'" "proc l' = app_host s'" "wrote l' = client_stream contents"
    using client_functionality_run [OF _ assms(1)] by blast
  then show ?thesis using connection_linked [OF c(1)] linked_prefix by metis
qed

text \<open>The calls do return when there is room for all it writes and five hundred bytes to read.\<close>

definition sb_wide :: send_buffer_t where
  "sb_wide = sb_example\<lparr>s_capacity := 1024, s_buffer := replicate 1024 0\<rparr>"

definition rb_full :: recv_buffer_t where
  "rb_full = rb_example\<lparr>r_capacity := 1024, next_byte_expected_index := 501, r_buffer := replicate 1024 0\<rparr>"

definition busy_host :: host where
  "busy_host = upd_sock (\<lambda>s. s\<lparr>send_buf := sb_wide, recv_buf := rb_full\<rparr>) host_example"

definition client_can :: "nat \<Rightarrow> nat \<Rightarrow> host \<Rightarrow> bool" where
  "client_can k m w \<longleftrightarrow> initialized (sock w) \<and> sb_wf (send_buf (sock w)) \<and> cap (send_buf (sock w)) = 1024
     \<and> length (q_inflight (sb_abs (send_buf (sock w)))) + length (q_fresh (sb_abs (send_buf (sock w)))) = k
     \<and> rb_ok (recv_buf (sock w)) (segs w) [] \<and> expected_seq (recv_buf (sock w)) = read_seq (recv_buf (sock w)) + 1 + m"

lemma busy_host_can: "client_can 0 500 busy_host"
proof -
  have "sb_wf sb_wide" "cap sb_wide = 1024" "q_inflight (sb_abs sb_wide) = []" "q_fresh (sb_abs sb_wide) = []"
    by (simp_all add: sb_wide_def sb_example_def sb_wf_def sb_abs_def pending_def ring_get_def cap_def acked_idx_def
      sent_dist_def written_dist_def dist0_def dist1_def)
  moreover have "rb_ok rb_full empty_heap []" "read_seq rb_full = 100" "expected_seq rb_full = 601"
    using empty_heap_ok
    by (simp_all add: rb_full_def rb_ok_def rb_wf_def rb_nat expected_seq_def expected_dist_def
      dist1_def segs_sorted_def rb_example_def)
  ultimately show ?thesis by (simp add: client_can_def busy_host_def)
qed

lemma client_can_write:
  assumes c: "client_can k m w" and "0 < len" "len < 2 ^ 31" "nat len \<le> length bs" "k + nat len < 1024"
  shows "\<exists>w'. cmu_write [] w bs len = Inr (w', EXIT_SUCCESS) \<and> client_can (k + nat len) m w'"
proof -
  have sb: "sb_wf (send_buf (sock w))" using c by (simp add: client_can_def)
  have "min (nat len) (cap (send_buf (sock w)) - 1 - length (q_inflight (sb_abs (send_buf (sock w))))
      - length (q_fresh (sb_abs (send_buf (sock w))))) = nat len"
    using c assms(5) by (simp add: client_can_def)
  then obtain sb' where sb': "cmu_write_turn w bs 0 len = Inr (upd_sock (\<lambda>s. s\<lparr>send_buf := sb'\<rparr>) w, of_nat (nat len), len - int (nat len))"
    "sb_wf sb'" "cap sb' = 1024"
    "sb_abs sb' = (sb_abs (send_buf (sock w)))\<lparr>q_fresh := q_fresh (sb_abs (send_buf (sock w))) @ take (nat len) bs\<rparr>"
    using cmu_write_turn_ok [OF sb assms(2,3), of 0 bs] assms(4) c by (auto simp: client_can_def)
  then have "cmu_write [] w bs len = Inr (upd_sock (\<lambda>s. s\<lparr>send_buf := sb'\<rparr>) w, EXIT_SUCCESS)"
    using c assms(2) by (simp add: cmu_write_def cmu_write_loop.simps client_can_def)
  moreover have "client_can (k + nat len) m (upd_sock (\<lambda>s. s\<lparr>send_buf := sb'\<rparr>) w)"
    using c sb'(2,3) assms(4) unfolding client_can_def by (simp add: sb'(4))
  ultimately show ?thesis by blast
qed

definition client_at :: "nat \<Rightarrow> nat \<Rightarrow> nat \<Rightarrow> app \<Rightarrow> bool" where
  "client_at n k m s \<longleftrightarrow> client_can k m (app_host s) \<and> app_plan s = replicate n ([], [])
     \<and> length (app_buf s) = 9898 \<and> last (app_buf s) = 0"

lemma client_at_write:
  assumes "client_at (Suc n) k m s" and "0 < len" "len < 2 ^ 31" "nat len \<le> length bs" "k + nat len < 1024"
  shows "\<exists>s'. call_write bs len s = Inr s' \<and> client_at n (k + nat len) m s'"
  using client_can_write [OF _ assms(2-5), of m "app_host s"] assms(1)
  by (auto simp: client_at_def call_write_def)

lemma client_at_read:
  assumes at: "client_at (Suc n) k m s" and "0 < m" "flags \<noteq> TIMEOUT"
  shows "\<exists>s' i. call_read 200 flags s = Inr (s', i) \<and> client_at n k (m - min 200 m) s'"
proof -
  let ?rb = "recv_buf (sock (app_host s))"
  have c: "client_can k m (app_host s)" and l: "length (app_buf s) = 9898" "last (app_buf s) = 0"
    using at by (simp_all add: client_at_def)
  have e: "expected_seq ?rb - read_seq ?rb - 1 = m" "0 < expected_seq ?rb - read_seq ?rb - 1"
    "rb_ok ?rb (segs (app_host s)) []" "initialized (sock (app_host s))"
    using c assms(2) by (simp_all add: client_can_def)
  obtain rb' where r: "cmu_read (app_host s) (app_buf s) 200 flags = Inr (upd_sock (\<lambda>s. s\<lparr>recv_buf := rb'\<rparr>) (app_host s),
        map (\<lambda>q. byte_at ?rb (read_seq ?rb + 1 + q)) [0..<min 200 m] @ drop (min 200 m) (app_buf s), int (min 200 m))"
      "rb_ok rb' (segs (app_host s)) []" "read_seq rb' = read_seq ?rb + min 200 m" "expected_seq rb' = expected_seq ?rb"
    using cmu_read_ok [OF e(4) assms(3) e(3) _ _ _ e(2), of 200 "app_buf s"] l(1) e(1) by auto
  have "last (map (\<lambda>q. byte_at ?rb (read_seq ?rb + 1 + q)) [0..<min 200 m] @ drop (min 200 m) (app_buf s)) = 0"
    using l by (subst last_appendR) (auto simp: last_drop)
  moreover have "client_can k (m - min 200 m) (upd_sock (\<lambda>s. s\<lparr>recv_buf := rb'\<rparr>) (app_host s))"
    using c r(2-4) by (simp add: client_can_def)
  ultimately show ?thesis using r(1) at by (auto simp: call_read_def client_at_def)
qed

lemma client_at_print:
  assumes "client_at n k m s"
  shows "\<exists>s'. print_buf s = Inr s' \<and> client_at n k m s'"
proof -
  have "0 \<in> set (app_buf s)" using assms last_in_set [of "app_buf s"] by (force simp: client_at_def)
  then show ?thesis using assms by (simp add: print_buf_def printf_s_def client_at_def)
qed

lemma client_at_texts:
  assumes "client_at (length ts + n) k m s"
    and "\<forall>(t, len) \<in> set ts. 0 < len \<and> len < 2 ^ 31 \<and> nat len \<le> length (c_string t)"
    and "k + (\<Sum>x \<leftarrow> ts. nat (snd x)) < 1024"
  shows "\<exists>s'. write_texts ts s = Inr s' \<and> client_at n (k + (\<Sum>x \<leftarrow> ts. nat (snd x))) m s'"
  using assms
proof (induction ts arbitrary: k s)
  case (Cons x ts)
  obtain t len where x: "x = (t, len)" by (cases x)
  obtain s1 where s1: "call_write (c_string t) len s = Inr s1" "client_at (length ts + n) (k + nat len) m s1"
    using client_at_write [of "length ts + n" k m s len "c_string t"] Cons.prems x by auto
  from Cons.IH [OF s1(2)] Cons.prems(2,3) x
  obtain s' where "write_texts ts s1 = Inr s'" "client_at n (k + nat len + (\<Sum>x \<leftarrow> ts. nat (snd x))) m s'"
    by auto
  then show ?case using s1(1) x by (auto simp: add.assoc)
qed simp

lemma client_at_file:
  assumes at: "client_at (Suc n) k m s" and c: "contents \<noteq> []" "length contents \<le> 2000" "k + length contents < 1024"
  shows "\<exists>s'. send_file contents s = Inr s'"
proof -
  have l: "length (app_buf s) = 9898" using at by (simp add: client_at_def)
  let ?b = "contents @ drop (length contents) (app_buf s)"
  have m: "memcpy (app_buf s) 0 contents 0 (length contents) = Inr ?b" using l c by (simp add: memcpy_def)
  obtain w' where w: "cmu_write [] (app_host s) ?b (int (length contents)) = Inr (w', EXIT_SUCCESS)"
    using client_can_write [of k m "app_host s" "int (length contents)" ?b] at c l by (auto simp: client_at_def)
  have "call_write ?b (int (length contents)) (s\<lparr>app_buf := ?b\<rparr>) =
      Inr (s\<lparr>app_buf := ?b, app_host := w', app_plan := replicate n ([], [])\<rparr>)"
    using at w by (simp add: call_write_def client_at_def)
  then show ?thesis using m c
    by (subst send_file.simps) (simp add: Let_def send_file.simps [of "[]"] memcpy_def)
qed

definition client_begin :: app where
  "client_begin = \<lparr>app_host = busy_host, app_plan = replicate 11 ([], []), app_buf = replicate 9898 0, app_shown = []\<rparr>"

lemma client_example: "\<exists>s'. client_functionality (Some [1, 2, 3]) client_begin = Inr s'"
proof -
  have t: "(\<Sum>x \<leftarrow> client_texts. nat (snd x)) = 229" "length client_texts + 5 = 11"
    "\<forall>(t, len) \<in> set client_texts. 0 < len \<and> len < 2 ^ 31 \<and> nat len \<le> length (c_string t)"
    by (simp_all add: client_texts_def c_string_def)
  have "client_at (length client_texts + 5) 0 500 client_begin"
    unfolding t(2) using busy_host_can by (simp add: client_at_def client_begin_def)
  from client_at_texts [OF this t(3)] obtain s1 where
    s1: "write_texts client_texts client_begin = Inr s1" "client_at 5 229 500 s1"
    unfolding t(1) by auto
  obtain s2 n where s2: "call_read 200 NO_FLAG s1 = Inr (s2, n)" "client_at 4 229 300 s2"
    using client_at_read [of 4 229 500 s1 NO_FLAG] s1(2) by auto
  obtain s3 where s3: "print_buf s2 = Inr s3" "client_at 4 229 300 s3" using client_at_print [OF s2(2)] by blast
  obtain s4 where s4: "call_write (c_string ''hi there'') 9 s3 = Inr s4" "client_at 3 238 300 s4"
    using client_at_write [of 3 229 300 s3 9 "c_string ''hi there''"] s3(2) by (auto simp: c_string_def)
  obtain s5 n' where s5: "call_read 200 NO_FLAG s4 = Inr (s5, n')" "client_at 2 238 100 s5"
    using client_at_read [of 2 238 300 s4 NO_FLAG] s4(2) by auto
  obtain s6 where s6: "print_buf s5 = Inr s6" "client_at 2 238 100 s6" using client_at_print [OF s5(2)] by blast
  obtain s7 n'' where s7: "call_read 200 NO_WAIT s6 = Inr (s7, n'')" "client_at 1 238 0 s7"
    using client_at_read [of 1 238 100 s6 NO_WAIT] s6(2) by (auto simp: numeral_2_eq_2)
  obtain s8 where s8: "print_buf s7 = Inr s8" "client_at 1 238 0 s8" using client_at_print [OF s7(2)] by blast
  obtain s9 where "send_file [1, 2, 3] s8 = Inr s9"
    using client_at_file [of 0 238 0 s8 "[1, 2, 3]"] s8(2) by auto
  then show ?thesis
    by (simp add: client_functionality_def s1(1) s2(1) s3(1) s4(1) s5(1) s6(1) s7(1) s8(1))
qed

end
