(* ===== verification/Archive_Backend.thy ===== *)
theory Archive_Backend
  imports Backend_Receive Byte_Stream
begin

text \<open>
  \<open>archive/backend.c\<close>: the stop-and-wait backend that \<open>src/backend.c\<close> replaced. It sends one
  segment, waits until it is acknowledged, and only then sends the next. The socket it was
  written for had two flat buffers in place of the ring buffers: bytes to send, of which the
  thread takes all at once, and bytes received, which grow with \<open>realloc\<close>.
\<close>

section \<open>The state\<close>

text \<open>
  The process with the fields that today's \<open>cmu_socket_t\<close> still has (\<open>window\<close>, \<open>conn\<close>,
  \<open>my_port\<close>, \<open>dying\<close>), and the four fields of its predecessor. The lengths are \<open>int\<close>s that
  are never negative.
\<close>

record archived =
  process :: host
  sending_buf :: "u8 list option"
  sending_len :: u32
  received_buf :: "u8 list"
  received_len :: nat

definition upd_process :: "(host \<Rightarrow> host) \<Rightarrow> archived \<Rightarrow> archived" where
  "upd_process f a = a\<lparr>process := f (process a)\<rparr>"

text \<open>\<open>realloc\<close>: what was in the block stays, the rest is fresh memory.\<close>

definition realloc :: "(nat \<Rightarrow> u8) \<Rightarrow> u8 list \<Rightarrow> nat \<Rightarrow> u8 list" where
  "realloc junk b n = take n b @ map junk [length b..<n]"

section \<open>Receiving\<close>

definition has_been_acked :: "host \<Rightarrow> u32 \<Rightarrow> bool" where
  "has_been_acked w seq \<longleftrightarrow> after (last_ack_received (window (sock w))) seq"

text \<open>\<open>handle_message\<close>: its answer to a packet that is not a pure acknowledgement, the copy of the payload, the whole.\<close>

definition archive_answer :: "host \<Rightarrow> u8 list \<Rightarrow> host res" where
  "archive_answer w pkt =
     (let seq = last_ack_received (window (sock w)) in
      bindF (get_seq pkt) (\<lambda>hdr_seq.
      bindF (get_payload_len pkt) (\<lambda>len.
      let ack = hdr_seq + ucast len; plen = hdr_len + 0 in
      bindF (make_packet w seq ack plen ACK_FLAG_MASK 1 [] 0) (\<lambda>response_packet.
        sendto w response_packet plen))))"

definition archive_store :: "archived \<Rightarrow> u8 list \<Rightarrow> archived res" where
  "archive_store a pkt =
     bindF (get_seq pkt) (\<lambda>seq.
     if seq = next_seq_expected (window (sock (process a)))
     then bindF (get_payload_len pkt) (\<lambda>payload_len.
          let a = upd_process (upd_window (\<lambda>v. v\<lparr>next_seq_expected := seq + ucast payload_len\<rparr>)) a in
          bindF (get_payload pkt) (\<lambda>payload.
          bindF (memcpy (realloc (mem_junk (process a)) (received_buf a)
                           (received_len a + unat payload_len))
                   (received_len a) pkt payload (unat payload_len)) (\<lambda>b.
            Inr (a\<lparr>received_buf := b, received_len := received_len a + unat payload_len\<rparr>))))
     else Inr a)"

definition archive_handle_message :: "archived \<Rightarrow> u8 list \<Rightarrow> archived res" where
  "archive_handle_message a pkt =
     bindF (get_flags pkt) (\<lambda>flags.
     if flags = ACK_FLAG_MASK
     then bindF (get_ack pkt) (\<lambda>ack.
          Inr (if after ack (last_ack_received (window (sock (process a))))
               then upd_process (upd_window (\<lambda>v. v\<lparr>last_ack_received := ack\<rparr>)) a
               else a))
     else bindF (archive_answer (process a) pkt) (\<lambda>w. archive_store (a\<lparr>process := w\<rparr>) pkt))"

definition archive_check_for_data :: "archived \<Rightarrow> cmu_read_mode_t \<Rightarrow> archived res" where
  "archive_check_for_data a flags =
     (case recvfrom_peek (process a) sizeof_header of
        None \<Rightarrow> if flags = NO_FLAG then Inl Blocked else Inr a
      | Some (hdr, w) \<Rightarrow>
          if length hdr \<ge> sizeof_header
          then bindF (get_plen hdr) (\<lambda>plen.
               bindF (recv_packet w (unat plen)) (\<lambda>(pkt, w).
                 archive_handle_message (a\<lparr>process := w\<rparr>) pkt))
          else Inr (a\<lparr>process := w\<rparr>))"

section \<open>Sending\<close>

text \<open>
  The next segment of \<open>single_send\<close>, at \<open>data_offset\<close> with \<open>buf_len\<close> bytes left: the packet,
  its length, its sequence number and how many bytes it carries.
\<close>

definition next_segment ::
  "host \<Rightarrow> u8 list \<Rightarrow> nat \<Rightarrow> u32 \<Rightarrow> (u8 list option \<times> u16 \<times> u32 \<times> u16) res"
where
  "next_segment w data data_offset buf_len =
     (let payload_len = segment_len buf_len;
          seq = last_ack_received (window (sock w));
          ack = next_seq_expected (window (sock w));
          plen = hdr_len + payload_len
      in bindF (make_packet w seq ack plen 0 1 (drop data_offset data) payload_len) (\<lambda>msg.
           Inr (msg, plen, seq, payload_len)))"

text \<open>
  Its inner loop. \<open>others\<close> is what happens each time between the sending and the receiving:
  datagrams arrive, the application uses its side of the buffers. What is left of it is
  returned; if it is used up the thread is still waiting.
\<close>

fun await_ack ::
  "(archived \<Rightarrow> archived res) list \<Rightarrow> archived \<Rightarrow> u8 list option \<Rightarrow> u16 \<Rightarrow> u32 \<Rightarrow>
    (archived \<times> (archived \<Rightarrow> archived res) list) res"
where
  "await_ack [] a msg plen seq = Inl Blocked"
| "await_ack (f # others) a msg plen seq =
     bindF (sendto (process a) msg plen) (\<lambda>w.
     bindF (f (a\<lparr>process := w\<rparr>)) (\<lambda>a.
     bindF (archive_check_for_data a TIMEOUT) (\<lambda>a.
       if has_been_acked (process a) seq then Inr (a, others)
       else await_ack others a msg plen seq)))"

lemma await_ack_uses: "await_ack others a msg plen seq = Inr (a', rest) \<Longrightarrow> length rest < length others"
  by (induction others arbitrary: a) (fastforce split: if_splits)+

lemma next_segment_len:
  "next_segment w data off n = Inr (msg, plen, seq, payload_len) \<Longrightarrow> payload_len = segment_len n"
  by (auto simp: next_segment_def Let_def)

function single_send_loop ::
  "(archived \<Rightarrow> archived res) list \<Rightarrow> archived \<Rightarrow> u8 list \<Rightarrow> nat \<Rightarrow> u32 \<Rightarrow>
    (archived \<times> (archived \<Rightarrow> archived res) list) res"
where
  "single_send_loop others a data data_offset buf_len =
     (if buf_len \<noteq> 0
      then bindF (next_segment (process a) data data_offset buf_len) (\<lambda>(msg, plen, seq, payload_len).
           bindF (await_ack others a msg plen seq) (\<lambda>(a, others).
             single_send_loop others a data (data_offset + unat payload_len)
               (buf_len - ucast payload_len)))
      else Inr (a, others))"
  by pat_completeness auto
termination
proof (relation "measure (\<lambda>(others, a, data, off, n). unat n)", goal_cases)
  case 1
  show ?case by simp
next
  case (2 others a data off n)
  then show ?case
    by (auto dest!: next_segment_len simp: segment_len_decreases word_neq_0_conv)
qed

declare single_send_loop.simps [simp del]

text \<open>
  \<open>buf_len\<close> is an \<open>int\<close> that is tested with \<open>> 0\<close>: a length of \<open>2^31\<close> or more is negative and
  nothing is sent. In the loop it is only compared with 0 and read unsigned.
\<close>

definition single_send ::
  "(archived \<Rightarrow> archived res) list \<Rightarrow> archived \<Rightarrow> u8 list \<Rightarrow> u32 \<Rightarrow>
    (archived \<times> (archived \<Rightarrow> archived res) list) res"
where
  "single_send others a data buf_len =
     (if 0 < sint buf_len then single_send_loop others a data 0 buf_len else Inr (a, others))"

section \<open>The thread\<close>

text \<open>Taking everything there is to send.\<close>

definition take_sending :: "archived \<Rightarrow> (u8 list \<times> archived) res" where
  "take_sending a =
     (case sending_buf a of None \<Rightarrow> Inl NullDeref
      | Some b \<Rightarrow>
          bindF (memcpy (malloc (mem_junk (process a)) (unat (sending_len a))) 0 b 0 (unat (sending_len a)))
            (\<lambda>data. Inr (data, a\<lparr>sending_len := 0, sending_buf := None\<rparr>)))"

lemma single_send_uses:
  "single_send_loop others a data off n = Inr (a', rest) \<Longrightarrow> length rest \<le> length others"
proof (induction others a data off n rule: single_send_loop.induct)
  case (1 others a data off n)
  show ?case
  proof (cases "n = 0")
    case False
    with "1.prems" obtain msg plen seq m a2 others2 where
      s: "next_segment (process a) data off n = Inr (msg, plen, seq, m)"
        "await_ack others a msg plen seq = Inr (a2, others2)"
        "single_send_loop others2 a2 data (off + unat m) (n - ucast m) = Inr (a', rest)"
      by (subst (asm) single_send_loop.simps) auto
    from "1.IH" [OF False s(1) refl refl refl s(2) refl s(3)] await_ack_uses [OF s(2)]
    show ?thesis by simp
  qed (use "1.prems" in \<open>simp add: single_send_loop.simps\<close>)
qed

text \<open>
  The main loop; \<open>others\<close> as above, and what happens between two turns. Here too \<open>buf_len > 0\<close>
  is a test of an \<open>int\<close>.
\<close>

function archive_loop ::
  "(archived \<Rightarrow> archived res) list \<Rightarrow> archived \<Rightarrow>
    (archived \<times> (archived \<Rightarrow> archived res) list) res"
where
  "archive_loop others a =
     (if dying (sock (process a)) \<noteq> 0 \<and> sending_len a = 0 then Inr (a, others)
      else bindF (if 0 < sint (sending_len a)
                  then bindF (take_sending a) (\<lambda>(data, b).
                         single_send others b data (sending_len a))
                  else Inr (a, others)) (\<lambda>(a, others').
           bindF (archive_check_for_data a NO_WAIT) (\<lambda>a.
           case others' of [] \<Rightarrow> Inl Blocked
           | f # others'' \<Rightarrow> bindF (f a) (\<lambda>a. archive_loop others'' a))))"
  by pat_completeness auto
termination
  by (relation "measure (\<lambda>(others, a). length others)")
    (auto simp: single_send_def dest!: single_send_uses split: if_splits)

declare archive_loop.simps [simp del]

definition archive_begin_backend ::
  "(archived \<Rightarrow> archived res) list \<Rightarrow> archived \<Rightarrow>
    (archived \<times> (archived \<Rightarrow> archived res) list) res"
where
  "archive_begin_backend others a = archive_loop others a"


section \<open>What a datagram does\<close>

abbreviation acked_seq :: "archived \<Rightarrow> u32" where
  "acked_seq a \<equiv> last_ack_received (window (sock (process a)))"
abbreviation expected :: "archived \<Rightarrow> u32" where
  "expected a \<equiv> next_seq_expected (window (sock (process a)))"

lemma upd_process_simps [simp]:
  "process (upd_process f a) = f (process a)" "sending_buf (upd_process f a) = sending_buf a"
  "sending_len (upd_process f a) = sending_len a" "received_buf (upd_process f a) = received_buf a"
  "received_len (upd_process f a) = received_len a"
  by (simp_all add: upd_process_def)

definition take_datagram :: "sockaddr_in \<Rightarrow> (sockaddr_in \<times> u8 list) list \<Rightarrow> archived \<Rightarrow> archived" where
  "take_datagram sender rest =
     upd_process (\<lambda>w. upd_sock (\<lambda>s. s\<lparr>conn := sender\<rparr>) (w\<lparr>inbox := rest\<rparr>))"

lemma archive_check_packet:
  assumes "inbox (process a) = (from, peer_packet src dst seq ack flags adv p) # rest"
    and "length p + 25 < 2 ^ 16"
  shows "archive_check_for_data a mode =
    archive_handle_message (take_datagram from rest a) (peer_packet src dst seq ack flags adv p)"
  using peek_then_recv [OF assms]
  by (auto simp: archive_check_for_data_def take_datagram_def upd_process_def)

lemma archive_check_empty:
  "inbox (process a) = [] \<Longrightarrow> mode \<noteq> NO_FLAG \<Longrightarrow> archive_check_for_data a mode = Inr a"
  by (simp add: archive_check_for_data_def recvfrom_peek_def)

lemma archive_handle_pure_ack:
  assumes "length p + 25 < 2 ^ 16"
  shows "archive_handle_message a (peer_packet src dst seq ack ACK_FLAG_MASK adv p) =
    Inr (if after ack (acked_seq a) then upd_process (upd_window (\<lambda>v. v\<lparr>last_ack_received := ack\<rparr>)) a else a)"
  using peer_packet_fields [OF assms] by (simp add: archive_handle_message_def)

text \<open>The answer to \<open>n\<close> bytes of data with number \<open>seq\<close>, and what accepting bytes does.\<close>

definition archive_reply :: "host \<Rightarrow> u32 \<Rightarrow> nat \<Rightarrow> sockaddr_in \<times> u8 list" where
  "archive_reply w seq n =
     (conn (sock w), peer_packet (my_port (sock w)) (ntohs (sin_port (conn (sock w))))
        (last_ack_received (window (sock w))) (seq + of_nat n) ACK_FLAG_MASK 1 [])"

definition answer_to :: "u32 \<Rightarrow> nat \<Rightarrow> archived \<Rightarrow> archived" where
  "answer_to seq n = upd_process (\<lambda>w. w\<lparr>outbox := outbox w @ [archive_reply w seq n]\<rparr>)"

definition accept_bytes :: "u32 \<Rightarrow> u8 list \<Rightarrow> archived \<Rightarrow> archived" where
  "accept_bytes seq p a =
     (upd_process (upd_window (\<lambda>v. v\<lparr>next_seq_expected := seq + of_nat (length p)\<rparr>)) a)
       \<lparr>received_buf := received_buf a @ p, received_len := received_len a + length p\<rparr>"

lemma u16_of_nat_u32: "n < 2 ^ 16 \<Longrightarrow> ucast (of_nat n :: u16) = (of_nat n :: u32)"
  by (rule u32_eqI) (simp add: unat_of_nat)

lemma empty_packet:
  "peer_packet src dst seq ack flags adv [] = wire_header src dst seq ack 25 25 flags adv 0"
  by (simp add: peer_packet_def)

lemma archive_answer_ok:
  assumes "length p + 25 < 2 ^ 16"
  shows "archive_answer w (peer_packet src dst seq ack flags adv p) =
    Inr (w\<lparr>outbox := outbox w @ [archive_reply w seq (length p)]\<rparr>)"
  using assms make_packet_ok [of 0 "[]" w _ _ ACK_FLAG_MASK 1]
  by (simp add: archive_answer_def Let_def peer_packet_fields archive_reply_def sendto_def
    u16_of_nat_u32 empty_packet)

lemma archive_store_ok:
  assumes "length p + 25 < 2 ^ 16" and "received_len a = length (received_buf a)"
  shows "archive_store a (peer_packet src dst seq ack flags adv p) =
    Inr (if seq = expected a then accept_bytes seq p a else a)"
proof -
  have "memcpy (realloc (mem_junk (process a)) (received_buf a) (length (received_buf a) + length p))
      (length (received_buf a)) (peer_packet src dst q ack flags adv p) 25 (length p) =
    Inr (received_buf a @ p)" for q
    by (simp add: memcpy_def realloc_def peer_packet_def)
  then show ?thesis
    using assms by (simp add: archive_store_def peer_packet_fields Let_def accept_bytes_def
      u16_of_nat_u32 upd_process_def)
qed

lemma archive_handle_data:
  assumes "length p + 25 < 2 ^ 16" and "received_len a = length (received_buf a)"
    and "flags \<noteq> ACK_FLAG_MASK"
  shows "archive_handle_message a (peer_packet src dst seq ack flags adv p) =
    Inr (let b = answer_to seq (length p) a in if seq = expected a then accept_bytes seq p b else b)"
  using assms archive_store_ok [of p "answer_to seq (length p) a" src dst seq ack flags adv]
  by (simp add: archive_handle_message_def peer_packet_fields(1) archive_answer_ok answer_to_def
    upd_process_def)

text \<open>A segment as \<open>single_send\<close> builds it.\<close>

lemma next_segment_ok:
  assumes "off + unat n \<le> length data"
  defines "m \<equiv> min (unat n) MSS"
  shows "next_segment w data off n =
    Inr (Some (peer_packet (my_port (sock w)) (ntohs (sin_port (conn (sock w))))
           (last_ack_received (window (sock w))) (next_seq_expected (window (sock w))) 0 1
           (take m (drop off data))),
         25 + segment_len n, last_ack_received (window (sock w)), segment_len n)"
proof -
  have l: "unat (segment_len n) = m" by (simp add: m_def segment_len)
  then have s: "segment_len n = of_nat m" by (simp flip: l)
  have "m \<le> length data - off" and b: "m < 2 ^ 16 - 25" using assms(1) by (auto simp: m_def)
  then have t: "min (length data - off) m = m" by simp
  show ?thesis
    using make_packet_ok [of "segment_len n" "drop off data" w _ _ 0 1] assms(1) l b
    by (simp add: next_segment_def Let_def peer_packet_def s t m_def)
qed

end
