(* ===== verification/Stop_And_Wait.thy ===== *)
theory Stop_And_Wait
  imports Archive_Backend
begin

text \<open>
  Two processes with the archived backend and a network that loses, repeats and reorders. A
  process is its state and where its thread is: between two calls of \<open>single_send\<close>, or in
  the inner loop waiting for the acknowledgement of a segment. The invariant says that the
  peer has everything up to the current segment, and perhaps that segment.
\<close>

section \<open>The steps\<close>

text \<open>
  In the inner loop the thread holds the packet, its length and number, how many bytes it
  carries, the data, the offset and the number of bytes left.
\<close>

datatype control =
    Idle
  | Awaiting "u8 list option" u16 u32 u16 "u8 list" nat u32

text \<open>For the specification: the bytes the application has handed over and has taken.\<close>

record side =
  thread :: archived
  control :: control
  handed :: "u8 list"
  taken :: "u8 list"

text \<open>The test of the loop in \<open>single_send\<close>: the next segment, or the end.\<close>

definition go_on :: "archived \<Rightarrow> u8 list \<Rightarrow> nat \<Rightarrow> u32 \<Rightarrow> control res" where
  "go_on a data off n =
     (if n \<noteq> 0
      then bindF (next_segment (process a) data off n) (\<lambda>(msg, plen, seq, payload_len).
             Inr (Awaiting msg plen seq payload_len data off n))
      else Inr Idle)"

text \<open>
  What the application's calls do to the two buffers: append to the one, take from the
  front of the other. The calls of that version are not in the repository.
\<close>

definition app_append :: "u8 list \<Rightarrow> archived \<Rightarrow> archived" where
  "app_append bs a =
     a\<lparr>sending_buf := Some ((case sending_buf a of None \<Rightarrow> [] | Some b \<Rightarrow> b) @ bs),
       sending_len := sending_len a + of_nat (length bs)\<rparr>"

definition app_take :: "nat \<Rightarrow> archived \<Rightarrow> archived" where
  "app_take n a = a\<lparr>received_buf := drop n (received_buf a), received_len := received_len a - n\<rparr>"

inductive side_step :: "u8 list set \<Rightarrow> side \<Rightarrow> side \<Rightarrow> bool" for net where
  append: "length (handed s) + length bs < 2 ^ 31 \<Longrightarrow>
    side_step net s (s\<lparr>thread := app_append bs (thread s), handed := handed s @ bs\<rparr>)"
| take_bytes: "n \<le> received_len (thread s) \<Longrightarrow>
    side_step net s (s\<lparr>thread := app_take n (thread s), taken := taken s @ take n (received_buf (thread s))\<rparr>)"
| close: "side_step net s (s\<lparr>thread := upd_process (upd_sock (\<lambda>k. k\<lparr>dying := x\<rparr>)) (thread s)\<rparr>)"
| arrive: "d \<in> net \<Longrightarrow>
    side_step net s (s\<lparr>thread := upd_process (\<lambda>w. w\<lparr>inbox := inbox w @ [(sender, d)]\<rparr>) (thread s)\<rparr>)"
| begin_send: "control s = Idle \<Longrightarrow> 0 < sint (sending_len (thread s)) \<Longrightarrow>
    take_sending (thread s) = Inr (data, a) \<Longrightarrow> go_on a data 0 (sending_len (thread s)) = Inr c \<Longrightarrow>
    side_step net s (s\<lparr>thread := a, control := c\<rparr>)"
| transmit: "control s = Awaiting msg plen seq m data off n \<Longrightarrow>
    sendto (process (thread s)) msg plen = Inr w \<Longrightarrow>
    side_step net s (s\<lparr>thread := (thread s)\<lparr>process := w\<rparr>\<rparr>)"
| wait: "control s = Awaiting msg plen seq m data off n \<Longrightarrow>
    archive_check_for_data (thread s) TIMEOUT = Inr a \<Longrightarrow> \<not> has_been_acked (process a) seq \<Longrightarrow>
    side_step net s (s\<lparr>thread := a\<rparr>)"
| acknowledged: "control s = Awaiting msg plen seq m data off n \<Longrightarrow>
    archive_check_for_data (thread s) TIMEOUT = Inr a \<Longrightarrow> has_been_acked (process a) seq \<Longrightarrow>
    go_on a data (off + unat m) (n - ucast m) = Inr c \<Longrightarrow>
    side_step net s (s\<lparr>thread := a, control := c\<rparr>)"
| poll: "control s = Idle \<Longrightarrow> archive_check_for_data (thread s) NO_WAIT = Inr a \<Longrightarrow>
    side_step net s (s\<lparr>thread := a\<rparr>)"

definition sent_by :: "side \<Rightarrow> u8 list set" where
  "sent_by s = snd ` set (outbox (process (thread s)))"
definition arrived_at :: "side \<Rightarrow> u8 list set" where
  "arrived_at s = snd ` set (inbox (process (thread s)))"

inductive stop_and_wait :: "side \<Rightarrow> side \<Rightarrow> side \<Rightarrow> side \<Rightarrow> bool" for l0 r0 where
  start: "stop_and_wait l0 r0 l0 r0"
| left: "stop_and_wait l0 r0 l r \<Longrightarrow> side_step (sent_by r) l l' \<Longrightarrow> stop_and_wait l0 r0 l' r"
| right: "stop_and_wait l0 r0 l r \<Longrightarrow> side_step (sent_by l) r r' \<Longrightarrow> stop_and_wait l0 r0 l r'"

section \<open>Positions in the stream\<close>

definition pos :: "u32 \<Rightarrow> nat \<Rightarrow> u32" where "pos i k = i + of_nat k"

lemma pos_add: "pos i k + of_nat n = pos i (k + n)" by (simp add: pos_def)

lemma pos_inj: "a < 2 ^ 31 \<Longrightarrow> b < 2 ^ 31 \<Longrightarrow> pos i a = pos i b \<longleftrightarrow> a = b"
proof -
  assume "a < 2 ^ 31" and "b < 2 ^ 31"
  then have "unat (of_nat a :: u32) = a" and "unat (of_nat b :: u32) = b"
    by (simp_all add: unat_of_nat)
  then show ?thesis unfolding pos_def by (metis add_left_cancel)
qed

lemma after_pos:
  assumes "a < 2 ^ 31" and "b < 2 ^ 31"
  shows "after (pos i a) (pos i b) \<longleftrightarrow> b < a"
proof (cases "b < a")
  case True
  then have d: "pos i b - pos i a = - (of_nat (a - b))" by (simp add: pos_def of_nat_diff)
  have u: "unat (of_nat (a - b) :: u32) = a - b" using assms by (simp add: unat_of_nat)
  then have "of_nat (a - b) \<noteq> (0 :: u32)" using True by (metis unat_0 zero_less_diff less_numeral_extra(3))
  then show ?thesis
    using True assms unat_uminus32 [of "of_nat (a - b)"] u
    by (simp add: after_def before_def d sint_neg_u32)
next
  case False
  then have d: "pos i b - pos i a = of_nat (b - a)" by (simp add: pos_def of_nat_diff)
  have "unat (of_nat (b - a) :: u32) = b - a" using assms by (simp add: unat_of_nat)
  then show ?thesis
    using False assms by (simp add: after_def before_def d sint_neg_u32)
qed


section \<open>The invariant\<close>

fun current :: "control \<Rightarrow> u8 list" where
  "current Idle = []"
| "current (Awaiting msg plen seq m data off n) = take (unat m) (drop off data)"

fun remaining :: "control \<Rightarrow> u8 list" where
  "remaining Idle = []"
| "remaining (Awaiting msg plen seq m data off n) = drop (off + unat m) data"

definition queued :: "archived \<Rightarrow> u8 list" where
  "queued a = (case sending_buf a of None \<Rightarrow> [] | Some b \<Rightarrow> b)"

definition delivered :: "side \<Rightarrow> u8 list" where
  "delivered s = taken s @ received_buf (thread s)"

definition buffers_ok :: "archived \<Rightarrow> bool" where
  "buffers_ok a \<longleftrightarrow> received_len a = length (received_buf a)
     \<and> unat (sending_len a) = length (queued a)"

text \<open>The segment the thread waits for starts at number \<open>q\<close> and is what the packet carries.\<close>

fun control_ok :: "u32 \<Rightarrow> control \<Rightarrow> bool" where
  "control_ok q Idle \<longleftrightarrow> True"
| "control_ok q (Awaiting msg plen seq m data off n) \<longleftrightarrow> seq = q \<and> n \<noteq> 0 \<and> m = segment_len n
     \<and> length data = off + unat n \<and> plen = 25 + m
     \<and> (\<exists>src dst ack. msg = Some (peer_packet src dst seq ack 0 1 (take (unat m) (drop off data))))"

text \<open>One direction: \<open>dn\<close> is what the sender knows to be delivered.\<close>

definition half :: "u32 \<Rightarrow> u8 list \<Rightarrow> side \<Rightarrow> side \<Rightarrow> bool" where
  "half i dn l r \<longleftrightarrow>
     handed l = dn @ current (control l) @ remaining (control l) @ queued (thread l)
     \<and> length (handed l) < 2 ^ 31 \<and> control_ok (pos i (length dn)) (control l)
     \<and> buffers_ok (thread l)
     \<and> (delivered r = dn \<or> delivered r = dn @ current (control l))
     \<and> expected (thread r) = pos i (length (delivered r))"

text \<open>
  A datagram: a segment of the past or the current one, or an acknowledgement of the past or
  of all that is delivered.
\<close>

definition data_ok :: "u32 \<Rightarrow> u8 list \<Rightarrow> u8 list \<Rightarrow> u32 \<Rightarrow> u8 list \<Rightarrow> bool" where
  "data_ok i dn cur seq p \<longleftrightarrow> p \<noteq> []
     \<and> (\<exists>k. seq = pos i k \<and> (k + length p \<le> length dn \<or> k = length dn \<and> p = cur))"

definition ack_ok :: "u32 \<Rightarrow> u8 list \<Rightarrow> u8 list \<Rightarrow> u32 \<Rightarrow> bool" where
  "ack_ok j dn del ack \<longleftrightarrow> (\<exists>m. ack = pos j m \<and> (m \<le> length dn \<or> m = length del))"

definition datagram_ok ::
  "u32 \<Rightarrow> u8 list \<Rightarrow> u8 list \<Rightarrow> u32 \<Rightarrow> u8 list \<Rightarrow> u8 list \<Rightarrow> u8 list \<Rightarrow> bool"
where
  "datagram_ok i dn cur j dn' del d \<longleftrightarrow> (\<exists>src dst seq ack flags adv p.
     d = peer_packet src dst seq ack flags adv p \<and> length p \<le> MSS
     \<and> (flags = 0 \<and> data_ok i dn cur seq p \<or> flags = ACK_FLAG_MASK \<and> p = [] \<and> ack_ok j dn' del ack))"

lemma datagram_ok_data:
  "p \<noteq> [] \<Longrightarrow> length p \<le> MSS \<Longrightarrow> seq = pos i k \<Longrightarrow>
    k + length p \<le> length dn \<or> k = length dn \<and> p = cur \<Longrightarrow>
    datagram_ok i dn cur j dn' del (peer_packet src dst seq ack 0 adv p)"
  unfolding datagram_ok_def data_ok_def by blast

lemma datagram_ok_ack:
  "ack = pos j m \<Longrightarrow> m \<le> length dn' \<or> m = length del \<Longrightarrow>
    datagram_ok i dn cur j dn' del (peer_packet src dst seq ack ACK_FLAG_MASK adv [])"
  unfolding datagram_ok_def ack_ok_def by (metis le0 list.size(3))

lemma datagram_ok_mono:
  assumes "datagram_ok i dn cur j dn' del d"
    and "\<And>q p. data_ok i dn cur q p \<Longrightarrow> data_ok i e cur' q p"
    and "\<And>a. ack_ok j dn' del a \<Longrightarrow> ack_ok j e' del' a"
  shows "datagram_ok i e cur' j e' del' d"
  using assms unfolding datagram_ok_def by blast

lemma data_ok_begin: "data_ok i dn [] q p \<Longrightarrow> data_ok i dn cur q p"
  unfolding data_ok_def by blast

lemma data_ok_advance: "data_ok i dn cur q p \<Longrightarrow> data_ok i (dn @ cur) cur' q p"
  unfolding data_ok_def by fastforce

lemma ack_ok_store: "ack_ok j dn dn a \<Longrightarrow> ack_ok j dn del a"
  unfolding ack_ok_def by auto

lemma ack_ok_advance: "ack_ok j dn (dn @ cur) a \<Longrightarrow> ack_ok j (dn @ cur) (dn @ cur) a"
  unfolding ack_ok_def by fastforce

definition traffic :: "u32 \<Rightarrow> u8 list \<Rightarrow> u32 \<Rightarrow> u8 list \<Rightarrow> side \<Rightarrow> side \<Rightarrow> bool" where
  "traffic i dl j dr l r \<longleftrightarrow> (\<forall>d \<in> sent_by l \<union> arrived_at r.
     datagram_ok i dl (current (control l)) j dr (delivered l) d)"

definition consistent :: "u32 \<Rightarrow> u8 list \<Rightarrow> u32 \<Rightarrow> u8 list \<Rightarrow> side \<Rightarrow> side \<Rightarrow> bool" where
  "consistent i dl j dr l r \<longleftrightarrow> half i dl l r \<and> half j dr r l \<and> traffic i dl j dr l r \<and> traffic j dr i dl r l"

definition synchronised :: "u32 \<Rightarrow> u32 \<Rightarrow> side \<Rightarrow> side \<Rightarrow> bool" where
  "synchronised i j l r \<longleftrightarrow> (\<exists>dl dr. consistent i dl j dr l r
     \<and> acked_seq (thread l) = pos i (length dl) \<and> acked_seq (thread r) = pos j (length dr))"

lemma synchronised_sym: "synchronised i j l r \<Longrightarrow> synchronised j i r l"
  unfolding synchronised_def consistent_def by blast

section \<open>What a step keeps\<close>

lemma halfD:
  assumes "half i dn l r"
  shows "handed l = dn @ current (control l) @ remaining (control l) @ queued (thread l)"
    "length (handed l) < 2 ^ 31" "control_ok (pos i (length dn)) (control l)"
    "received_len (thread l) = length (received_buf (thread l))"
    "unat (sending_len (thread l)) = length (queued (thread l))"
    "delivered r = dn \<or> delivered r = dn @ current (control l)"
    "expected (thread r) = pos i (length (delivered r))"
    "length dn + length (current (control l)) < 2 ^ 31"
  using assms by (auto simp: half_def buffers_ok_def)

text \<open>
  A step that moves neither the thread nor the bytes delivered: the application may append
  to the queue, what is sent is in order, and only what the peer sent arrives.
\<close>

lemma consistent_keep:
  assumes "consistent i dl j dr l r"
    and "control l' = control l" and "handed l' = handed l @ bs"
    and "queued (thread l') = queued (thread l) @ bs" and "length (handed l') < 2 ^ 31"
    and "delivered l' = delivered l" and "buffers_ok (thread l')"
    and "expected (thread l') = expected (thread l)"
    and "\<forall>d \<in> sent_by l' - sent_by l. datagram_ok i dl (current (control l)) j dr (delivered l) d"
    and "arrived_at l' \<subseteq> arrived_at l \<union> sent_by r"
  shows "consistent i dl j dr l' r"
proof -
  have "half i dl l' r"
    using assms(1-5,7) unfolding consistent_def half_def by simp
  moreover have "half j dr r l'"
    using assms(1,6,8) unfolding consistent_def half_def by metis
  moreover have "traffic i dl j dr l' r"
    using assms(1,2,6,9) unfolding consistent_def traffic_def by auto
  moreover have "traffic j dr i dl r l'"
    using assms(1,2,6,10) unfolding consistent_def traffic_def by blast
  ultimately show ?thesis unfolding consistent_def by simp
qed

lemma consistent_buffers:
  assumes "consistent i dl j dr l r"
  shows "buffers_ok (thread l)" and "length (handed l) < 2 ^ 31"
  using assms by (auto simp: consistent_def half_def)

lemma synchronised_append:
  assumes "synchronised i j l r" and "length (handed l) + length bs < 2 ^ 31"
  shows "synchronised i j (l\<lparr>thread := app_append bs (thread l), handed := handed l @ bs\<rparr>) r"
proof -
  from assms(1) obtain dl dr where s: "consistent i dl j dr l r"
    "acked_seq (thread l) = pos i (length dl)" "acked_seq (thread r) = pos j (length dr)"
    by (auto simp: synchronised_def)
  have q: "length (queued (thread l)) \<le> length (handed l)"
    using s(1) by (auto simp: consistent_def half_def)
  have "unat (sending_len (thread l)) = length (queued (thread l))"
    using consistent_buffers [OF s(1)] by (simp add: buffers_ok_def)
  then have "unat (sending_len (thread l) + of_nat (length bs)) = length (queued (thread l)) + length bs"
    using q assms(2) by (subst unat_add32) (simp_all add: unat_of_nat)
  then have "buffers_ok (app_append bs (thread l))"
    using consistent_buffers [OF s(1)] by (simp add: buffers_ok_def app_append_def queued_def)
  then have "consistent i dl j dr (l\<lparr>thread := app_append bs (thread l), handed := handed l @ bs\<rparr>) r"
    using assms(2)
    by (intro consistent_keep [OF s(1), where bs = bs])
      (simp_all add: app_append_def queued_def delivered_def sent_by_def arrived_at_def)
  with s(2,3) show ?thesis
    unfolding synchronised_def by (intro exI [of _ dl] exI [of _ dr]) (simp add: app_append_def)
qed

text \<open>The other steps of this kind leave the application's bytes and the numbers alone.\<close>

lemma synchronised_keep:
  assumes "synchronised i j l r"
    and "control l' = control l" and "handed l' = handed l"
    and "queued (thread l') = queued (thread l)"
    and "delivered l' = delivered l" and "buffers_ok (thread l) \<Longrightarrow> buffers_ok (thread l')"
    and "window (sock (process (thread l'))) = window (sock (process (thread l)))"
    and "sent_by l' = sent_by l"
    and "arrived_at l' \<subseteq> arrived_at l \<union> sent_by r"
  shows "synchronised i j l' r"
proof -
  from assms(1) obtain dl dr where s: "consistent i dl j dr l r"
    "acked_seq (thread l) = pos i (length dl)" "acked_seq (thread r) = pos j (length dr)"
    by (auto simp: synchronised_def)
  have "consistent i dl j dr l' r"
    using assms(2-) consistent_buffers [OF s(1)]
    by (intro consistent_keep [OF s(1), where bs = "[]"]) simp_all
  with s(2,3) assms(7) show ?thesis unfolding synchronised_def by auto
qed

lemma synchronised_take:
  assumes "synchronised i j l r" and "n \<le> received_len (thread l)"
  shows "synchronised i j
    (l\<lparr>thread := app_take n (thread l), taken := taken l @ take n (received_buf (thread l))\<rparr>) r"
  by (rule synchronised_keep [OF assms(1)])
    (simp_all add: app_take_def queued_def delivered_def sent_by_def arrived_at_def buffers_ok_def)

lemma synchronised_close:
  assumes "synchronised i j l r"
  shows "synchronised i j (l\<lparr>thread := upd_process (upd_sock (\<lambda>k. k\<lparr>dying := x\<rparr>)) (thread l)\<rparr>) r"
  by (rule synchronised_keep [OF assms(1)])
    (simp_all add: queued_def delivered_def sent_by_def arrived_at_def buffers_ok_def)

lemma synchronised_arrive:
  assumes "synchronised i j l r" and "d \<in> sent_by r"
  shows "synchronised i j
    (l\<lparr>thread := upd_process (\<lambda>w. w\<lparr>inbox := inbox w @ [(sender, d)]\<rparr>) (thread l)\<rparr>) r"
  using assms(2)
  by (intro synchronised_keep [OF assms(1)])
    (auto simp: queued_def delivered_def sent_by_def arrived_at_def buffers_ok_def)


section \<open>The thread moves on\<close>

lemma go_on_ok:
  assumes "length data = off + unat n" and "go_on a data off n = Inr c"
  shows "control_ok (acked_seq a) c" and "current c @ remaining c = drop off data"
    and "length (current c) \<le> MSS" and "n \<noteq> 0 \<Longrightarrow> current c \<noteq> []"
proof -
  have m: "unat (segment_len n) = min (unat n) MSS" by (rule segment_len)
  have n: "n \<noteq> 0 \<Longrightarrow> 0 < unat n" by (simp add: unat_gt_0)
  have g: "n \<noteq> 0 \<Longrightarrow> \<exists>msg. c = Awaiting msg (25 + segment_len n) (acked_seq a) (segment_len n) data off n
      \<and> (\<exists>src dst ack. msg = Some (peer_packet src dst (acked_seq a) ack 0 1
            (take (unat (segment_len n)) (drop off data))))"
    using assms next_segment_ok [of off n data "process a"] unfolding m by (force simp: go_on_def)
  have d: "take k (drop off data) @ drop (off + k) data = drop off data" for k
    using append_take_drop_id [of k "drop off data"] by (simp add: add.commute)
  have z: "n = 0 \<Longrightarrow> c = Idle" using assms(2) by (simp add: go_on_def)
  show "control_ok (acked_seq a) c"
    using g z assms(1) by (cases "n = 0"; clarsimp; blast)
  show "current c @ remaining c = drop off data"
    using g z d assms(1) by (cases "n = 0") auto
  show "length (current c) \<le> MSS" and "n \<noteq> 0 \<Longrightarrow> current c \<noteq> []"
    using g z n assms(1) m by (cases "n = 0"; auto)+
qed

lemma control_okD:
  assumes "control_ok q (Awaiting msg plen seq m data off n)"
  shows "seq = q" "n \<noteq> 0" "length data = off + unat n" "unat m = min (unat n) MSS"
    "length (current (Awaiting msg plen seq m data off n)) = min (unat n) MSS"
    "\<exists>src dst ack. msg = Some (peer_packet src dst seq ack 0 1 (current (Awaiting msg plen seq m data off n)))"
proof -
  show "\<exists>src dst ack. msg = Some (peer_packet src dst seq ack 0 1 (current (Awaiting msg plen seq m data off n)))"
    using assms unfolding control_ok.simps current.simps by blast
qed (use assms in \<open>simp_all add: segment_len\<close>)

lemma synchronised_begin:
  assumes "synchronised i j l r" and "control l = Idle"
    and "take_sending (thread l) = Inr (data, a)" and "go_on a data 0 (sending_len (thread l)) = Inr c"
  shows "synchronised i j (l\<lparr>thread := a, control := c\<rparr>) r"
proof -
  from assms(1) obtain dl dr where s: "consistent i dl j dr l r"
    "acked_seq (thread l) = pos i (length dl)" "acked_seq (thread r) = pos j (length dr)"
    by (auto simp: synchronised_def)
  have b: "buffers_ok (thread l)" using consistent_buffers [OF s(1)] by simp
  have t: "data = queued (thread l)" "a = (thread l)\<lparr>sending_len := 0, sending_buf := None\<rparr>"
    using assms(3) b
    by (auto simp: take_sending_def buffers_ok_def queued_def memcpy_def malloc_def split: option.splits if_splits)
  have len: "length data = unat (sending_len (thread l))" using t(1) b by (simp add: buffers_ok_def)
  note g = go_on_ok [of data 0, OF _ assms(4)]
  have a: "acked_seq a = pos i (length dl)" using t(2) s(2) by simp
  have c: "control_ok (pos i (length dl)) c" "current c @ remaining c = queued (thread l)"
    using g(1,2) len a t(1) by simp_all
  let ?l = "l\<lparr>thread := a, control := c\<rparr>"
  have d: "delivered r = dl" "expected (thread r) = pos i (length dl)"
    using s(1) assms(2) by (auto simp: consistent_def half_def)
  have hl: "handed l = dl @ queued (thread l)" "length (handed l) < 2 ^ 31"
    using s(1) assms(2) by (auto simp: consistent_def half_def)
  have q: "queued a = []" "buffers_ok a" "sent_by ?l = sent_by l" "arrived_at ?l = arrived_at l"
    "delivered ?l = delivered l"
    using b t(2) by (simp_all add: queued_def buffers_ok_def sent_by_def arrived_at_def delivered_def)
  have "half i dl ?l r"
    unfolding half_def using hl c d q by simp
  moreover have "half j dr r ?l"
    using s(1) t(2) q(5) unfolding consistent_def half_def by (elim conjE) (intro conjI; simp)
  moreover have "traffic i dl j dr ?l r"
  proof -
    have "datagram_ok i dl (current c) j dr (delivered l) d"
      if "datagram_ok i dl [] j dr (delivered l) d" for d
      using that by (rule datagram_ok_mono) (simp_all add: data_ok_begin)
    then show ?thesis
      using s(1) assms(2) q unfolding consistent_def traffic_def by simp
  qed
  moreover have "traffic j dr i dl r ?l"
    using s(1) q unfolding consistent_def traffic_def by simp
  ultimately show ?thesis using s(3) a unfolding synchronised_def consistent_def by force
qed

lemma synchronised_transmit:
  assumes "synchronised i j l r" and "control l = Awaiting msg plen seq m data off n"
    and "sendto (process (thread l)) msg plen = Inr w"
  shows "synchronised i j (l\<lparr>thread := (thread l)\<lparr>process := w\<rparr>\<rparr>) r"
proof -
  from assms(1) obtain dl dr where s: "consistent i dl j dr l r"
    "acked_seq (thread l) = pos i (length dl)" "acked_seq (thread r) = pos j (length dr)"
    by (auto simp: synchronised_def)
  have ok: "control_ok (pos i (length dl)) (Awaiting msg plen seq m data off n)"
    using s(1) assms(2) unfolding consistent_def half_def by metis
  note c = control_okD [OF ok]
  obtain src dst ack where msg: "msg = Some (peer_packet src dst seq ack 0 1 (current (control l)))"
    using c(6) assms(2) by auto
  let ?d = "peer_packet src dst seq ack 0 1 (current (control l))"
  have "unat plen = length ?d"
    using ok c(4,5) assms(2) by (simp add: peer_packet_def unat_word_ariths)
  then have w: "w = (process (thread l))\<lparr>outbox := outbox (process (thread l)) @ [(conn (sock (process (thread l))), ?d)]\<rparr>"
    using assms(3) msg by (simp add: sendto_def)
  have "0 < unat n" using c(2) by (simp add: unat_gt_0)
  then have "current (control l) \<noteq> []" using c(5) assms(2) by auto
  then have d: "datagram_ok i dl (current (control l)) j dr (delivered l) ?d"
    using c(1,5) assms(2) by (intro datagram_ok_data [where k = "length dl"]) (simp_all del: current.simps)
  have "consistent i dl j dr (l\<lparr>thread := (thread l)\<lparr>process := w\<rparr>\<rparr>) r"
    using w d consistent_buffers [OF s(1)]
    by (intro consistent_keep [OF s(1), where bs = "[]"])
      (auto simp: queued_def delivered_def sent_by_def arrived_at_def buffers_ok_def)
  with s(2,3) w show ?thesis
    unfolding synchronised_def by (intro exI [of _ dl] exI [of _ dr]) simp
qed


section \<open>The thread receives\<close>

lemma receive_ack:
  assumes s: "consistent i dl j dr l r" and acked: "acked_seq (thread l) = pos i (length dl)"
    and "inbox (process (thread l)) = (sender, peer_packet src dst seq ack ACK_FLAG_MASK adv []) # rest"
    and ok: "ack_ok i dl (delivered r) ack"
    and check: "archive_check_for_data (thread l) mode = Inr a"
  shows "consistent i dl j dr (l\<lparr>thread := a\<rparr>) r \<and> (acked_seq a = pos i (length dl)
    \<or> delivered r = dl @ current (control l) \<and> current (control l) \<noteq> []
      \<and> acked_seq a = pos i (length (delivered r)))"
proof -
  let ?b = "take_datagram sender rest (thread l)"
  have a: "a = (if after ack (acked_seq ?b) then upd_process (upd_window (\<lambda>v. v\<lparr>last_ack_received := ack\<rparr>)) ?b else ?b)"
    using check archive_check_packet [OF assms(3)] archive_handle_pure_ack [of "[]"] by simp
  then have keep: "consistent i dl j dr (l\<lparr>thread := a\<rparr>) r"
    using consistent_buffers [OF s] assms(3)
    by (intro consistent_keep [OF s, where bs = "[]"])
      (auto simp: take_datagram_def queued_def delivered_def sent_by_def arrived_at_def buffers_ok_def)
  have l: "half i dl l r" using s by (simp add: consistent_def)
  note h = halfD [OF l]
  obtain m where m: "ack = pos i m" "m \<le> length dl \<or> m = length (delivered r)"
    using ok by (auto simp: ack_ok_def)
  have aft: "after ack (acked_seq ?b) \<longleftrightarrow> length dl < m"
    using m h(6,8) acked by (auto simp: take_datagram_def after_pos)
  show ?thesis
  proof (cases "length dl < m")
    case True
    then have "acked_seq a = pos i (length (delivered r))" "delivered r = dl @ current (control l)"
      "current (control l) \<noteq> []"
      using m h(6) a aft by auto
    then show ?thesis using keep by simp
  next
    case False
    then have "acked_seq a = pos i (length dl)" using a aft acked by (simp add: take_datagram_def)
    then show ?thesis using keep by simp
  qed
qed

lemma receive_data:
  assumes s: "consistent i dl j dr l r"
    and ib: "inbox (process (thread l)) = (sender, peer_packet src dst seq ack 0 adv p) # rest"
    and ok: "data_ok j dr (current (control r)) seq p" and "length p \<le> MSS"
    and check: "archive_check_for_data (thread l) mode = Inr a"
  shows "consistent i dl j dr (l\<lparr>thread := a\<rparr>) r \<and> acked_seq a = acked_seq (thread l)"
proof -
  let ?t = "take_datagram sender rest (thread l)"
  let ?b = "answer_to seq (length p) ?t"
  have lr: "half i dl l r" "half j dr r l" "traffic i dl j dr l r" "traffic j dr i dl r l"
    using s by (simp_all add: consistent_def)
  note h = halfD [OF lr(2)] and b = consistent_buffers [OF s]
  have lp: "length p + 25 < 2 ^ 16" using assms(4) by simp
  have a: "a = (if seq = expected (thread l) then accept_bytes seq p ?b else ?b)"
  proof -
    have "received_len ?t = length (received_buf ?t)" and t: "expected ?t = expected (thread l)"
      using halfD(4) [OF lr(1)] by (simp_all add: take_datagram_def)
    from archive_handle_data [OF lp this(1), of 0 src dst seq ack adv]
      archive_check_packet [OF ib lp] check
    show ?thesis unfolding t Let_def by (simp add: ACK_FLAG_MASK_def)
  qed
  obtain k where k: "seq = pos j k" "k + length p \<le> length dr \<or> k = length dr \<and> p = current (control r)"
    and p: "p \<noteq> []"
    using ok by (auto simp: data_ok_def)
  have kb: "k < 2 ^ 31" "length (delivered l) < 2 ^ 31"
    using k(2) h(6,8) by auto
  have e: "seq = expected (thread l) \<longleftrightarrow> k = length (delivered l)"
    using k(1) h(7) pos_inj [OF kb] by simp
  have reply: "datagram_ok i dl cur j dr del (snd (archive_reply w seq (length p)))"
    if "k + length p \<le> length dr \<or> k + length p = length del" for w del cur
    unfolding archive_reply_def snd_conv k(1) pos_add using that by (intro datagram_ok_ack) simp_all
  have new: "sent_by (l\<lparr>thread := ?b\<rparr>) = insert (snd (archive_reply
      (process ?t) seq (length p))) (sent_by l)"
    by (simp add: answer_to_def take_datagram_def sent_by_def)
  have old: "arrived_at (l\<lparr>thread := ?b\<rparr>) \<subseteq> arrived_at l"
    using ib by (auto simp: arrived_at_def answer_to_def take_datagram_def)
  have acked: "acked_seq a = acked_seq (thread l)"
    using a by (simp add: accept_bytes_def answer_to_def take_datagram_def)
  show ?thesis
  proof (cases "k = length (delivered l)")
    case False
    then have ab: "a = ?b" using a e by simp
    have "k + length p \<le> length dr \<or> k + length p = length (delivered l)"
      using k(2) h(6) False by auto
    then have "consistent i dl j dr (l\<lparr>thread := a\<rparr>) r"
      using b new old reply unfolding ab
      by (intro consistent_keep [OF s, where bs = "[]"])
        (auto simp: answer_to_def take_datagram_def queued_def delivered_def buffers_ok_def)
    with acked show ?thesis by simp
  next
    case True
    then have kp: "k = length dr" "p = current (control r)" "delivered l = dr"
      using k(2) h(6) p by auto
    let ?l = "l\<lparr>thread := a\<rparr>"
    have ab: "a = accept_bytes seq p ?b" using a e True by simp
    have eq: "control ?l = control l" "handed ?l = handed l" "queued a = queued (thread l)"
      "delivered ?l = dr @ p" "expected a = pos j (length (dr @ p))" "buffers_ok a"
      "sent_by ?l = sent_by (l\<lparr>thread := ?b\<rparr>)" "arrived_at ?l = arrived_at (l\<lparr>thread := ?b\<rparr>)"
      using b kp k(1)
      by (simp_all add: ab accept_bytes_def answer_to_def take_datagram_def queued_def delivered_def
        buffers_ok_def sent_by_def arrived_at_def pos_add)
    have "half i dl ?l r"
      using lr(1) eq unfolding half_def by (elim conjE) (intro conjI; simp)
    moreover have "half j dr r ?l"
      using lr(2) eq kp unfolding half_def by (elim conjE) (intro conjI; simp)
    moreover have "traffic i dl j dr ?l r"
    proof -
      have "datagram_ok i dl (current (control l)) j dr (dr @ p) d"
        if "datagram_ok i dl (current (control l)) j dr dr d" for d
        using that by (rule datagram_ok_mono) (simp_all add: ack_ok_store)
      then show ?thesis
        using lr(3) reply [of "dr @ p"] kp new eq(1,4,7,8) unfolding traffic_def by auto
    qed
    moreover have "traffic j dr i dl r ?l"
      using lr(4) old eq(1,8) unfolding traffic_def by auto
    ultimately show ?thesis using acked unfolding consistent_def by simp
  qed
qed

lemma receive_any:
  assumes "consistent i dl j dr l r" and "acked_seq (thread l) = pos i (length dl)"
    and "archive_check_for_data (thread l) mode = Inr a"
  shows "consistent i dl j dr (l\<lparr>thread := a\<rparr>) r \<and> (acked_seq a = pos i (length dl)
    \<or> delivered r = dl @ current (control l) \<and> current (control l) \<noteq> []
      \<and> acked_seq a = pos i (length (delivered r)))"
proof (cases "inbox (process (thread l))")
  case Nil
  then have "a = thread l"
    using assms(3) by (simp add: archive_check_for_data_def recvfrom_peek_def split: if_splits)
  then show ?thesis using assms(1,2) by simp
next
  case (Cons x rest)
  obtain sender d where x: "x = (sender, d)" by (cases x)
  have "d \<in> arrived_at l" using Cons x by (simp add: arrived_at_def)
  then have "datagram_ok j dr (current (control r)) i dl (delivered r) d"
    using assms(1) by (simp add: consistent_def traffic_def)
  then obtain src dst seq ack flags adv p where d: "d = peer_packet src dst seq ack flags adv p"
    "length p \<le> MSS"
    "flags = 0 \<and> data_ok j dr (current (control r)) seq p \<or> flags = ACK_FLAG_MASK \<and> p = [] \<and> ack_ok i dl (delivered r) ack"
    unfolding datagram_ok_def by blast
  from d(3) show ?thesis
  proof
    assume f: "flags = 0 \<and> data_ok j dr (current (control r)) seq p"
    with Cons x d have "inbox (process (thread l)) = (sender, peer_packet src dst seq ack 0 adv p) # rest"
      by simp
    from receive_data [OF assms(1) this _ d(2) assms(3)] f assms(2) show ?thesis by simp
  next
    assume f: "flags = ACK_FLAG_MASK \<and> p = [] \<and> ack_ok i dl (delivered r) ack"
    with Cons x d have "inbox (process (thread l)) = (sender, peer_packet src dst seq ack ACK_FLAG_MASK adv []) # rest"
      by simp
    from receive_ack [OF assms(1,2) this _ assms(3)] f show ?thesis by simp
  qed
qed


lemma synchronised_receive:
  assumes "synchronised i j l r" and "archive_check_for_data (thread l) mode = Inr a"
    and "\<And>msg plen seq m data off n. control l = Awaiting msg plen seq m data off n \<Longrightarrow>
      \<not> has_been_acked (process a) seq"
  shows "synchronised i j (l\<lparr>thread := a\<rparr>) r"
proof -
  from assms(1) obtain dl dr where s: "consistent i dl j dr l r"
    "acked_seq (thread l) = pos i (length dl)" "acked_seq (thread r) = pos j (length dr)"
    by (auto simp: synchronised_def)
  note rc = receive_any [OF s(1,2) assms(2)]
  have l: "half i dl l r" using s(1) by (simp add: consistent_def)
  have "acked_seq a = pos i (length dl)"
  proof (rule ccontr)
    assume "acked_seq a \<noteq> pos i (length dl)"
    then have full: "delivered r = dl @ current (control l)" "current (control l) \<noteq> []"
      "acked_seq a = pos i (length (delivered r))"
      using rc by auto
    then obtain msg plen seq m data off n where c: "control l = Awaiting msg plen seq m data off n"
      by (cases "control l") auto
    have "seq = pos i (length dl)" using halfD(3) [OF l] c by simp
    then have "has_been_acked (process a) seq"
      using full halfD(8) [OF l] by (simp add: has_been_acked_def after_pos)
    with assms(3) c show False by blast
  qed
  with rc s(3) show ?thesis unfolding synchronised_def by auto
qed

lemma synchronised_acknowledged:
  assumes "synchronised i j l r" and c: "control l = Awaiting msg plen seq m data off n"
    and check: "archive_check_for_data (thread l) TIMEOUT = Inr a" and acked: "has_been_acked (process a) seq"
    and go: "go_on a data (off + unat m) (n - ucast m) = Inr c'"
  shows "synchronised i j (l\<lparr>thread := a, control := c'\<rparr>) r"
proof -
  from assms(1) obtain dl dr where s: "consistent i dl j dr l r"
    "acked_seq (thread l) = pos i (length dl)" "acked_seq (thread r) = pos j (length dr)"
    by (auto simp: synchronised_def)
  note rc = receive_any [OF s(1,2) check]
  have l: "half i dl l r" using s(1) by (simp add: consistent_def)
  note h = halfD [OF l]
  have ok: "control_ok (pos i (length dl)) (Awaiting msg plen seq m data off n)" using h(3) unfolding c .
  note co = control_okD [OF ok]
  have "acked_seq a \<noteq> pos i (length dl)"
    using acked co(1) h(8) by (auto simp: has_been_acked_def after_pos)
  then have full: "delivered r = dl @ current (control l)" "current (control l) \<noteq> []"
    "acked_seq a = pos i (length (delivered r))" and l': "consistent i dl j dr (l\<lparr>thread := a\<rparr>) r"
    using rc by auto
  have "unat (n - ucast m) = unat n - unat m" using co(4) by (subst unat_sub32) auto
  then have "length data = off + unat m + unat (n - ucast m)" using co(3,4) by simp
  note g = go_on_ok [OF this go]
  let ?l = "l\<lparr>thread := a, control := c'\<rparr>" and ?dl = "dl @ current (control l)"
  have rem: "current c' @ remaining c' = remaining (control l)" using g(2) c by simp
  have eq: "sent_by ?l = sent_by (l\<lparr>thread := a\<rparr>)" "arrived_at ?l = arrived_at (l\<lparr>thread := a\<rparr>)"
    "delivered ?l = delivered (l\<lparr>thread := a\<rparr>)"
    by (simp_all add: sent_by_def arrived_at_def delivered_def)
  have lr: "half i dl (l\<lparr>thread := a\<rparr>) r" "half j dr r (l\<lparr>thread := a\<rparr>)"
    "traffic i dl j dr (l\<lparr>thread := a\<rparr>) r" "traffic j dr i dl r (l\<lparr>thread := a\<rparr>)"
    using l' by (simp_all add: consistent_def)
  have "half i ?dl ?l r"
    using lr(1) g(1) rem full unfolding half_def by (elim conjE) (intro conjI; simp)
  moreover have "half j dr r ?l"
    using lr(2) eq(3) unfolding half_def by (elim conjE) (intro conjI; simp)
  moreover have "traffic i ?dl j dr ?l r"
  proof -
    have "datagram_ok i ?dl (current c') j dr del d"
      if "datagram_ok i dl (current (control l)) j dr del d" for d del
      using that by (rule datagram_ok_mono) (simp_all add: data_ok_advance)
    then show ?thesis using lr(3) eq unfolding traffic_def by auto
  qed
  moreover have "traffic j dr i ?dl r ?l"
  proof -
    have "datagram_ok j dr (current (control r)) i ?dl (delivered r) d"
      if "datagram_ok j dr (current (control r)) i dl (delivered r) d" for d
      using that unfolding full(1) by (rule datagram_ok_mono) (simp_all add: ack_ok_advance)
    then show ?thesis using lr(4) eq unfolding traffic_def by auto
  qed
  ultimately show ?thesis
    using full(1,3) s(3) unfolding synchronised_def consistent_def
    by (intro exI [of _ ?dl] exI [of _ dr]) simp
qed

lemma synchronised_step:
  assumes "synchronised i j l r" and "side_step (sent_by r) l l'"
  shows "synchronised i j l' r"
  using assms(2)
proof cases
  case append
  then show ?thesis using synchronised_append [OF assms(1)] by simp
next
  case take_bytes
  then show ?thesis using synchronised_take [OF assms(1)] by simp
next
  case close
  then show ?thesis using synchronised_close [OF assms(1)] by simp
next
  case arrive
  then show ?thesis using synchronised_arrive [OF assms(1)] by simp
next
  case begin_send
  then show ?thesis using synchronised_begin [OF assms(1)] by simp
next
  case transmit
  then show ?thesis using synchronised_transmit [OF assms(1)] by simp
next
  case wait
  then show ?thesis using synchronised_receive [OF assms(1)] by simp
next
  case acknowledged
  then show ?thesis using synchronised_acknowledged [OF assms(1)] by simp
next
  case poll
  then show ?thesis using synchronised_receive [OF assms(1)] by simp
qed

lemma stop_and_wait_synchronised:
  "stop_and_wait l0 r0 l r \<Longrightarrow> synchronised i j l0 r0 \<Longrightarrow> synchronised i j l r"
proof (induction rule: stop_and_wait.induct)
  case (left l r l')
  then show ?case using synchronised_step by blast
next
  case (right l r r')
  then show ?case using synchronised_step synchronised_sym by blast
qed simp


section \<open>From the start\<close>

text \<open>Nothing sent, received or queued yet; the two sides agree on the numbers.\<close>

definition fresh_side :: "u32 \<Rightarrow> u32 \<Rightarrow> side \<Rightarrow> bool" where
  "fresh_side i j s \<longleftrightarrow> control s = Idle \<and> handed s = [] \<and> taken s = []
     \<and> acked_seq (thread s) = i \<and> expected (thread s) = j
     \<and> inbox (process (thread s)) = [] \<and> outbox (process (thread s)) = []
     \<and> sending_buf (thread s) = None \<and> sending_len (thread s) = 0
     \<and> received_buf (thread s) = [] \<and> received_len (thread s) = 0"

lemma fresh_synchronised:
  assumes "fresh_side i j l" and "fresh_side j i r"
  shows "synchronised i j l r"
  using assms unfolding synchronised_def
  by (intro exI [of _ "[]"])
    (simp add: fresh_side_def consistent_def half_def buffers_ok_def queued_def delivered_def
      traffic_def sent_by_def arrived_at_def pos_def)

text \<open>One direction as a byte stream: the sender holds the current segment and all after it.\<close>

interpretation stop_wait: byte_stream "\<lambda>(l, r). synchronised i j l r" "\<lambda>(l, r). handed l"
  "\<lambda>(l, r). delivered r"
  "\<lambda>(l, r). current (control l) @ remaining (control l) @ queued (thread l)"
  for i j
proof (unfold_locales, goal_cases)
  case (1 s)
  then show ?case by (auto simp: synchronised_def consistent_def half_def split: prod.splits)
next
  case (2 s)
  then obtain l r dl dr where "s = (l, r)" "half i dl l r"
    by (auto simp: synchronised_def consistent_def split: prod.splits)
  then show ?case by (auto simp: half_def)
qed

lemma synchronised_idle:
  assumes "synchronised i j l r" and "control l = Idle"
  shows "handed l = delivered r @ queued (thread l)"
  using assms by (auto simp: synchronised_def consistent_def half_def)

lemma ended_queue:
  assumes "synchronised i j l r" and "sending_len (thread l) = 0"
  shows "queued (thread l) = []"
  using assms by (auto simp: synchronised_def consistent_def half_def buffers_ok_def)

text \<open>A datagram of the network never makes the receiving thread fail.\<close>

lemma synchronised_receives:
  assumes "synchronised i j l r" and "mode \<noteq> NO_FLAG"
  shows "\<exists>a. archive_check_for_data (thread l) mode = Inr a"
proof (cases "inbox (process (thread l))")
  case Nil
  then show ?thesis using archive_check_empty assms(2) by blast
next
  case (Cons x rest)
  from assms(1) obtain dl dr where s: "consistent i dl j dr l r" by (auto simp: synchronised_def)
  obtain sender d where x: "x = (sender, d)" by (cases x)
  have "d \<in> arrived_at l" using Cons x by (simp add: arrived_at_def)
  then have "datagram_ok j dr (current (control r)) i dl (delivered r) d"
    using s by (simp add: consistent_def traffic_def)
  then obtain src dst seq ack flags adv p where d: "d = peer_packet src dst seq ack flags adv p"
    "length p \<le> MSS" "flags = 0 \<or> flags = ACK_FLAG_MASK"
    unfolding datagram_ok_def by blast
  have lp: "length p + 25 < 2 ^ 16" using d(2) by simp
  have c: "archive_check_for_data (thread l) mode =
      archive_handle_message (take_datagram sender rest (thread l)) d"
    using archive_check_packet [OF _ lp] Cons x unfolding d(1) by simp
  have "received_len (take_datagram sender rest (thread l)) =
      length (received_buf (take_datagram sender rest (thread l)))"
    using consistent_buffers [OF s] by (simp add: take_datagram_def buffers_ok_def)
  from archive_handle_data [OF lp this] archive_handle_pure_ack [OF lp] d(1,3) c
  show ?thesis by (metis (no_types))
qed

section \<open>The functions as runs\<close>

text \<open>
  A turn of what happens beside the thread: the bytes the application hands over in it, the
  state in which it leaves the peer, and what the thread sees of it.
\<close>

datatype turn = Turn (hands: "u8 list") (peer_then: side) (acts: "archived \<Rightarrow> archived res")

abbreviation hands_all :: "turn list \<Rightarrow> u8 list" where
  "hands_all ts \<equiv> concat (map hands ts)"

fun peer_after :: "side \<Rightarrow> turn list \<Rightarrow> side" where
  "peer_after r [] = r"
| "peer_after r (t # ts) = peer_after (peer_then t) ts"

text \<open>
  The turns are possible beside the thread: each continues the run of the two processes in
  which it happens, does not move the thread, hands over its bytes and nothing else, and
  brings the peer from the state the turn before has left it in to its own.
\<close>

fun beside :: "side \<Rightarrow> side \<Rightarrow> side \<Rightarrow> turn list \<Rightarrow> bool" where
  "beside l0 r0 r [] \<longleftrightarrow> True"
| "beside l0 r0 r (t # ts) \<longleftrightarrow>
     (\<forall>l a. stop_and_wait l0 r0 l r \<longrightarrow> length (handed l) + length (hands t) < 2 ^ 31 \<longrightarrow>
        acts t (thread l) = Inr a \<longrightarrow>
        (\<exists>l'. stop_and_wait l r l' (peer_then t) \<and> thread l' = a \<and> control l' = control l
           \<and> handed l' = handed l @ hands t))
     \<and> beside l0 r0 (peer_then t) ts"

lemma stop_and_wait_trans:
  "stop_and_wait l r l' r' \<Longrightarrow> stop_and_wait l0 r0 l r \<Longrightarrow> stop_and_wait l0 r0 l' r'"
  by (induction rule: stop_and_wait.induct) (auto intro: stop_and_wait.intros)

lemma besideD:
  assumes "beside l0 r0 r (t # ts)" and "stop_and_wait l0 r0 l r" and "acts t (thread l) = Inr a"
    and "length (handed l) + length (hands_all (t # ts)) < 2 ^ 31"
  obtains l' where "stop_and_wait l0 r0 l' (peer_then t)" "thread l' = a" "control l' = control l"
    "handed l' = handed l @ hands t" "length (handed l') + length (hands_all ts) < 2 ^ 31"
    "beside l0 r0 (peer_then t) ts"
proof -
  from assms obtain l' where "stop_and_wait l r l' (peer_then t)" "thread l' = a" "control l' = control l"
    "handed l' = handed l @ hands t"
    by fastforce
  with that stop_and_wait_trans [OF this(1) assms(2)] assms show ?thesis by simp
qed

text \<open>
  A part of the functions has used the first turns: it is a run to the thread's place \<open>c\<close>
  and state \<open>a'\<close>, the bytes of these turns are handed over, and the other turns are left.
\<close>

definition carried_out ::
  "side \<Rightarrow> side \<Rightarrow> side \<Rightarrow> side \<Rightarrow> turn list \<Rightarrow> (archived \<Rightarrow> archived res) list \<Rightarrow> archived \<Rightarrow> control \<Rightarrow> bool"
where
  "carried_out l0 r0 l r ts fs a' c \<longleftrightarrow> (\<exists>used rest l'. ts = used @ rest \<and> fs = map acts rest
     \<and> stop_and_wait l0 r0 l' (peer_after r used) \<and> beside l0 r0 (peer_after r used) rest
     \<and> thread l' = a' \<and> control l' = c \<and> handed l' = handed l @ hands_all used)"

lemma carried_outI:
  "ts = used @ rest \<Longrightarrow> fs = map acts rest \<Longrightarrow> stop_and_wait l0 r0 l' (peer_after r used) \<Longrightarrow>
    beside l0 r0 (peer_after r used) rest \<Longrightarrow> handed l' = handed l @ hands_all used \<Longrightarrow>
    carried_out l0 r0 l r ts fs (thread l') (control l')"
  unfolding carried_out_def by blast

lemma carried_outE:
  assumes "carried_out l0 r0 l r ts fs a' c"
  obtains used rest l' where "ts = used @ rest" "fs = map acts rest"
    "stop_and_wait l0 r0 l' (peer_after r used)" "beside l0 r0 (peer_after r used) rest"
    "handed l' = handed l @ hands_all used" "thread l' = a'" "control l' = c"
  using assms unfolding carried_out_def by blast

lemma carried_out_none:
  "stop_and_wait l0 r0 l r \<Longrightarrow> beside l0 r0 r ts \<Longrightarrow>
    carried_out l0 r0 l r ts (map acts ts) (thread l) (control l)"
  by (rule carried_outI [where used = "[]"]) simp_all

lemma carried_out_turn:
  assumes "carried_out l0 r0 l' (peer_then t) ts fs a' c" and "handed l' = handed l @ hands t"
  shows "carried_out l0 r0 l r (t # ts) fs a' c"
proof -
  from assms(1) obtain used rest l2 where u: "ts = used @ rest" "fs = map acts rest"
    "stop_and_wait l0 r0 l2 (peer_after (peer_then t) used)" "beside l0 r0 (peer_after (peer_then t) used) rest"
    "handed l2 = handed l' @ hands_all used" "thread l2 = a'" "control l2 = c"
    by (rule carried_outE)
  show ?thesis
    unfolding u(6,7) [symmetric]
    by (rule carried_outI [where used = "t # used"]) (use u(1-5) assms(2) in simp_all)
qed

lemma peer_after_append: "peer_after r (ts @ us) = peer_after (peer_after r ts) us"
  by (induction ts arbitrary: r) simp_all

lemma carried_out_trans:
  assumes "carried_out l0 r0 l r ts gs a c"
    and "\<And>mid l' r'. gs = map acts mid \<Longrightarrow> beside l0 r0 r' mid \<Longrightarrow> stop_and_wait l0 r0 l' r' \<Longrightarrow>
      thread l' = a \<Longrightarrow> control l' = c \<Longrightarrow> length (handed l') + length (hands_all mid) < 2 ^ 31 \<Longrightarrow>
      carried_out l0 r0 l' r' mid fs a' c'"
    and "length (handed l) + length (hands_all ts) < 2 ^ 31"
  shows "carried_out l0 r0 l r ts fs a' c'"
proof -
  from assms(1) obtain u mid l2 where u: "ts = u @ mid" "gs = map acts mid"
    "stop_and_wait l0 r0 l2 (peer_after r u)" "beside l0 r0 (peer_after r u) mid"
    "handed l2 = handed l @ hands_all u" "thread l2 = a" "control l2 = c"
    by (rule carried_outE)
  have "carried_out l0 r0 l2 (peer_after r u) mid fs a' c'"
    using assms(3) u(1,5) by (intro assms(2) [OF u(2,4,3,6,7)]) simp
  then obtain v rest l3 where v: "mid = v @ rest" "fs = map acts rest"
    "stop_and_wait l0 r0 l3 (peer_after (peer_after r u) v)"
    "beside l0 r0 (peer_after (peer_after r u) v) rest"
    "handed l3 = handed l2 @ hands_all v" "thread l3 = a'" "control l3 = c'"
    by (rule carried_outE)
  show ?thesis
    unfolding v(6,7) [symmetric]
    by (rule carried_outI [where used = "u @ v"]) (use u(1,5) v(1-5) in \<open>simp_all add: peer_after_append\<close>)
qed

lemma await_ack_run:
  assumes "await_ack (map acts ts) (thread l) msg plen seq = Inr (a', fs)"
    and "beside l0 r0 r ts" and "stop_and_wait l0 r0 l r"
    and "control l = Awaiting msg plen seq m data off n"
    and "go_on a' data (off + unat m) (n - ucast m) = Inr c"
    and "length (handed l) + length (hands_all ts) < 2 ^ 31"
  shows "carried_out l0 r0 l r ts fs a' c"
  using assms
proof (induction ts arbitrary: l r)
  case (Cons t ts)
  then obtain w a2 a3 where st: "sendto (process (thread l)) msg plen = Inr w"
    "acts t ((thread l)\<lparr>process := w\<rparr>) = Inr a2" "archive_check_for_data a2 TIMEOUT = Inr a3"
    "(if has_been_acked (process a3) seq then Inr (a3, map acts ts)
      else await_ack (map acts ts) a3 msg plen seq) = Inr (a', fs)"
    by auto
  let ?l = "l\<lparr>thread := (thread l)\<lparr>process := w\<rparr>\<rparr>"
  have "stop_and_wait l0 r0 ?l r"
    by (rule stop_and_wait.left [OF Cons.prems(3) side_step.transmit [OF Cons.prems(4) st(1)]])
  from besideD [OF Cons.prems(2) this, of a2] st(2) Cons.prems(6) obtain l2 where l2:
    "stop_and_wait l0 r0 l2 (peer_then t)" "thread l2 = a2" "control l2 = control l"
    "handed l2 = handed l @ hands t" "length (handed l2) + length (hands_all ts) < 2 ^ 31"
    "beside l0 r0 (peer_then t) ts"
    by auto
  show ?case
  proof (cases "has_been_acked (process a3) seq")
    case True
    with st(4) have e: "a3 = a'" "fs = map acts ts" by auto
    have "stop_and_wait l0 r0 (l2\<lparr>thread := a', control := c\<rparr>) (peer_then t)"
      by (rule stop_and_wait.left [OF l2(1) side_step.acknowledged])
        (use l2 Cons.prems(4,5) st(3) True e in auto)
    from carried_out_turn [OF carried_out_none [OF this l2(6)], of l] l2(4) e(2) show ?thesis by simp
  next
    case False
    have "stop_and_wait l0 r0 (l2\<lparr>thread := a3\<rparr>) (peer_then t)"
      by (rule stop_and_wait.left [OF l2(1) side_step.wait])
        (use l2 Cons.prems(4) st(3) False in auto)
    from Cons.IH [OF _ l2(6) this] False st(4) Cons.prems(4,5) l2(3,5)
    have "carried_out l0 r0 (l2\<lparr>thread := a3\<rparr>) (peer_then t) ts fs a' c" by simp
    from carried_out_turn [OF this, of l] l2(4) show ?thesis by simp
  qed
qed simp

lemma single_send_loop_run:
  assumes "single_send_loop fs a data off n = Inr (a', gs)" and "fs = map acts ts"
    and "beside l0 r0 r ts" and "stop_and_wait l0 r0 l r" and "thread l = a"
    and "go_on a data off n = Inr (control l)"
    and "length (handed l) + length (hands_all ts) < 2 ^ 31"
  shows "carried_out l0 r0 l r ts gs a' Idle"
  using assms
proof (induction fs a data off n arbitrary: l r ts rule: single_send_loop.induct)
  case (1 fs a data off n)
  show ?case
  proof (cases "n = 0")
    case True
    then show ?thesis
      using "1.prems" carried_out_none [OF "1.prems"(4,3)]
      by (auto simp: single_send_loop.simps go_on_def)
  next
    case False
    with "1.prems"(1) obtain msg plen seq m a2 fs2 where
      st: "next_segment (process a) data off n = Inr (msg, plen, seq, m)"
        "await_ack fs a msg plen seq = Inr (a2, fs2)"
        "single_send_loop fs2 a2 data (off + unat m) (n - ucast m) = Inr (a', gs)"
      by (subst (asm) single_send_loop.simps) auto
    have c: "control l = Awaiting msg plen seq m data off n"
      using "1.prems"(6) st(1) False by (simp add: go_on_def)
    obtain c2 where c2: "go_on a2 data (off + unat m) (n - ucast m) = Inr c2"
    proof (cases "n - ucast m = 0")
      case False
      with st(3) show ?thesis
        using that by (subst (asm) single_send_loop.simps) (auto simp: go_on_def)
    qed (use that in \<open>auto simp: go_on_def\<close>)
    have "carried_out l0 r0 l r ts fs2 a2 c2"
      using await_ack_run [OF _ "1.prems"(3,4) c c2 "1.prems"(7)] st(2) "1.prems"(2,5) by simp
    then show ?thesis
      by (rule carried_out_trans [OF _ _ "1.prems"(7)])
        (rule "1.IH" [OF False st(1) refl refl refl st(2) refl st(3)]; simp add: c2)
  qed
qed

lemma single_send_run:
  assumes "take_sending (thread l) = Inr (data, b)" and "0 < sint (sending_len (thread l))"
    and "single_send (map acts ts) b data (sending_len (thread l)) = Inr (a', fs)"
    and "beside l0 r0 r ts" and "stop_and_wait l0 r0 l r" and "control l = Idle"
    and "length (handed l) + length (hands_all ts) < 2 ^ 31"
  shows "carried_out l0 r0 l r ts fs a' Idle"
proof -
  have s: "single_send_loop (map acts ts) b data 0 (sending_len (thread l)) = Inr (a', fs)"
    using assms(2,3) by (simp add: single_send_def)
  have "sending_len (thread l) \<noteq> 0" using assms(2) by auto
  with s obtain c where c: "go_on b data 0 (sending_len (thread l)) = Inr c"
    by (subst (asm) single_send_loop.simps) (auto simp: go_on_def)
  let ?l = "l\<lparr>thread := b, control := c\<rparr>"
  have "stop_and_wait l0 r0 ?l r"
    by (rule stop_and_wait.left [OF assms(5) side_step.begin_send [OF assms(6,2,1) c]])
  from single_send_loop_run [OF s refl assms(4) this] c assms(7)
  have "carried_out l0 r0 ?l r ts fs a' Idle" by simp
  then show ?thesis unfolding carried_out_def by simp
qed

lemma archive_loop_turn:
  assumes "archive_loop others a = Inr (a', left)" and "\<not> (dying (sock (process a)) \<noteq> 0 \<and> sending_len a = 0)"
  obtains a2 a3 f fs a4 where
    "(if 0 < sint (sending_len a)
      then bindF (take_sending a) (\<lambda>(data, b). single_send others b data (sending_len a))
      else Inr (a, others)) = Inr (a2, f # fs)"
    "archive_check_for_data a2 NO_WAIT = Inr a3" "f a3 = Inr a4" "archive_loop fs a4 = Inr (a', left)"
proof -
  from assms obtain a2 others' where
    t: "(if 0 < sint (sending_len a)
        then bindF (take_sending a) (\<lambda>(data, b). single_send others b data (sending_len a))
        else Inr (a, others)) = Inr (a2, others')"
    "bindF (archive_check_for_data a2 NO_WAIT) (\<lambda>a. case others' of [] \<Rightarrow> Inl Blocked
       | f # fs \<Rightarrow> bindF (f a) (\<lambda>a. archive_loop fs a)) = Inr (a', left)"
    unfolding archive_loop.simps [of others a] if_not_P [OF assms(2)] bindF_eq_Inr [of "if _ then _ else _"]
    by fast
  then show ?thesis using that by (cases others') auto
qed

lemma archive_loop_ends:
  "archive_loop fs a = Inr (a', gs) \<Longrightarrow> sending_len a' = 0"
proof (induction fs a rule: archive_loop.induct)
  case (1 fs a)
  show ?case
  proof (cases "dying (sock (process a)) \<noteq> 0 \<and> sending_len a = 0")
    case True
    then show ?thesis using "1.prems" by (auto simp: archive_loop.simps)
  next
    case False
    with "1.prems" obtain a2 a3 f hs a4 where
      st: "(if 0 < sint (sending_len a)
          then bindF (take_sending a) (\<lambda>(data, b). single_send fs b data (sending_len a))
          else Inr (a, fs)) = Inr (a2, f # hs)"
        "archive_check_for_data a2 NO_WAIT = Inr a3" "f a3 = Inr a4" "archive_loop hs a4 = Inr (a', gs)"
      by (rule archive_loop_turn)
    from "1.IH" [OF False st(1) refl st(2) refl st(3,4)] show ?thesis .
  qed
qed

lemma archive_loop_run:
  assumes "archive_loop fs a = Inr (a', gs)" and "fs = map acts ts" and "thread l = a"
    and "beside l0 r0 r ts" and "stop_and_wait l0 r0 l r" and "control l = Idle"
    and "length (handed l) + length (hands_all ts) < 2 ^ 31"
  shows "carried_out l0 r0 l r ts gs a' Idle"
  using assms
proof (induction fs a arbitrary: l r ts rule: archive_loop.induct)
  case (1 fs a)
  show ?case
  proof (cases "dying (sock (process a)) \<noteq> 0 \<and> sending_len a = 0")
    case True
    then show ?thesis
      using "1.prems" carried_out_none [OF "1.prems"(5,4)] by (auto simp: archive_loop.simps)
  next
    case False
    with "1.prems"(1) obtain a2 a3 f hs a4 where
      st: "(if 0 < sint (sending_len a)
          then bindF (take_sending a) (\<lambda>(data, b). single_send fs b data (sending_len a))
          else Inr (a, fs)) = Inr (a2, f # hs)"
        "archive_check_for_data a2 NO_WAIT = Inr a3" "f a3 = Inr a4" "archive_loop hs a4 = Inr (a', gs)"
      by (rule archive_loop_turn)
    have first: "carried_out l0 r0 l r ts (f # hs) a2 Idle"
    proof (cases "0 < sint (sending_len a)")
      case True
      with st(1) obtain data b where "take_sending (thread l) = Inr (data, b)"
        "single_send (map acts ts) b data (sending_len (thread l)) = Inr (a2, f # hs)"
        using "1.prems"(2,3) by auto
      from single_send_run [OF this(1) _ this(2) "1.prems"(4-7)] True "1.prems"(3) show ?thesis by simp
    next
      case False
      with st(1) show ?thesis
        using "1.prems"(2,3,6) carried_out_none [OF "1.prems"(5,4)] by auto
    qed
    have "carried_out l0 r0 l' r' mid gs a' Idle"
      if mid: "f # hs = map acts mid" "beside l0 r0 r' mid" "stop_and_wait l0 r0 l' r'"
        "thread l' = a2" "control l' = Idle" "length (handed l') + length (hands_all mid) < 2 ^ 31"
      for mid l' r'
    proof -
      from mid(1) obtain t ts' where t: "mid = t # ts'" "f = acts t" "hs = map acts ts'" by auto
      have "stop_and_wait l0 r0 (l'\<lparr>thread := a3\<rparr>) r'"
        by (rule stop_and_wait.left [OF mid(3) side_step.poll [OF mid(5)]]) (simp add: mid(4) st(2))
      from besideD [OF mid(2) [unfolded t(1)] this, of a4] st(3) t mid(6) obtain l3 where l3:
        "stop_and_wait l0 r0 l3 (peer_then t)" "thread l3 = a4" "control l3 = Idle"
        "handed l3 = handed l' @ hands t" "length (handed l3) + length (hands_all ts') < 2 ^ 31"
        "beside l0 r0 (peer_then t) ts'"
        using mid(5) by auto
      from "1.IH" [OF False st(1) refl st(2) refl st(3,4) t(3) l3(2,6,1,3,5)]
      show ?thesis using carried_out_turn [of l0 r0 l3 t ts' gs a' Idle l'] l3(4) t(1) by simp
    qed
    from carried_out_trans [OF first this "1.prems"(7)] show ?thesis .
  qed
qed


section \<open>Sending to a peer that answers\<close>

text \<open>
  A peer with state \<open>peer\<close> at the address \<open>whence\<close> answers the last datagram sent, as its
  \<open>handle_message\<close> does, and the answer arrives.
\<close>

definition answered_by :: "host \<Rightarrow> sockaddr_in \<Rightarrow> archived \<Rightarrow> archived res" where
  "answered_by peer whence a =
     bindF (archive_answer peer (snd (last (outbox (process a))))) (\<lambda>p.
       Inr (upd_process (\<lambda>w. w\<lparr>inbox := inbox w @ [(whence, snd (last (outbox p)))]\<rparr>) a))"

definition segment_count :: "nat \<Rightarrow> nat" where
  "segment_count n = (n + MSS - 1) div MSS"

lemma segment_count_0 [simp]: "segment_count 0 = 0"
  by (simp add: segment_count_def)

lemma segment_count_step:
  assumes "0 < n"
  shows "segment_count n = Suc (segment_count (n - min n MSS))"
proof (cases "n \<le> MSS")
  case True
  then have "(n + 1374) div 1375 = Suc 0"
    using assms by (simp add: div_nat_eqI)
  with True show ?thesis by (simp add: segment_count_def)
next
  case False
  then have "n + 1374 = (n - 1375 + 1374) + 1375" by simp
  then have "(n + 1374) div 1375 = Suc ((n - 1375 + 1374) div 1375)" by simp
  with False show ?thesis by (simp add: segment_count_def)
qed

lemma await_ack_answered:
  assumes "inbox (process a) = []" and "p \<noteq> []" and "length p \<le> MSS"
    and d_def: "d = peer_packet src dst (acked_seq a) ack 0 1 p"
  shows "\<exists>a'. await_ack (answered_by peer whence # others) a (Some d) (25 + of_nat (length p)) (acked_seq a) = Inr (a', others)
    \<and> inbox (process a') = [] \<and> (\<exists>to. outbox (process a') = outbox (process a) @ [(to, d)])
    \<and> acked_seq a' = acked_seq a + of_nat (length p)
    \<and> received_buf a' = received_buf a \<and> received_len a' = received_len a
    \<and> sending_len a' = sending_len a \<and> sending_buf a' = sending_buf a"
proof -
  have lp: "length p + 25 < 2 ^ 16" using assms(3) by simp
  have len: "unat (25 + of_nat (length p) :: u16) = length d"
    using lp by (simp add: d_def peer_packet_def unat_word_ariths unat_of_nat)
  let ?w = "(process a)\<lparr>outbox := outbox (process a) @ [(conn (sock (process a)), d)]\<rparr>"
  have s: "sendto (process a) (Some d) (25 + of_nat (length p)) = Inr ?w"
    using len by (simp add: sendto_def)
  let ?r = "snd (archive_reply peer (acked_seq a) (length p))"
  let ?b = "upd_process (\<lambda>w. w\<lparr>inbox := inbox w @ [(whence, ?r)]\<rparr>) (a\<lparr>process := ?w\<rparr>)"
  have f: "answered_by peer whence (a\<lparr>process := ?w\<rparr>) = Inr ?b"
    using archive_answer_ok [OF lp] by (simp add: answered_by_def d_def)
  obtain x y q where r: "?r = peer_packet x y q (acked_seq a + of_nat (length p)) ACK_FLAG_MASK 1 []"
    by (simp add: archive_reply_def)
  have aft: "after (acked_seq a + of_nat (length p)) (acked_seq a)"
    using after_pos [of "length p" 0 "acked_seq a"] assms(2,3) by (simp add: pos_def)
  let ?c = "upd_process (upd_window (\<lambda>v. v\<lparr>last_ack_received := acked_seq a + of_nat (length p)\<rparr>))
      (take_datagram whence [] ?b)"
  have c: "archive_check_for_data ?b TIMEOUT = Inr ?c"
    using archive_check_packet [of ?b whence x y q "acked_seq a + of_nat (length p)" ACK_FLAG_MASK 1 "[]" "[]" TIMEOUT]
      archive_handle_pure_ack [of "[]" "take_datagram whence [] ?b" x y q "acked_seq a + of_nat (length p)" 1]
      assms(1) aft r
    by (simp add: take_datagram_def)
  have "has_been_acked (process ?c) (acked_seq a)"
    using aft by (simp add: has_been_acked_def)
  then have "await_ack (answered_by peer whence # others) a (Some d) (25 + of_nat (length p)) (acked_seq a) = Inr (?c, others)"
    using s f c by simp
  then show ?thesis by (intro exI [of _ ?c]) (simp add: take_datagram_def)
qed


text \<open>The segments of \<open>data\<close> from \<open>off\<close> on, of \<open>MSS\<close> bytes each but perhaps the last.\<close>

definition is_segment :: "u32 \<Rightarrow> u8 list \<Rightarrow> nat \<Rightarrow> nat \<Rightarrow> sockaddr_in \<times> u8 list \<Rightarrow> bool" where
  "is_segment seq data off k d \<longleftrightarrow> (\<exists>whence src dst ack. d = (whence,
     peer_packet src dst (seq + of_nat (k * MSS)) ack 0 1 (take MSS (drop (off + k * MSS) data))))"

lemma is_segment_next:
  "is_segment (seq + of_nat MSS) data (off + MSS) k d \<Longrightarrow> is_segment seq data off (Suc k) d"
  by (simp add: is_segment_def algebra_simps)

lemma single_send_answered:
  assumes "inbox (process a) = []" and "length data = off + unat n"
    and "\<forall>f \<in> set others. f = answered_by peer whence"
    and "segment_count (unat n) \<le> length others"
  shows "\<exists>a' ms. single_send_loop others a data off n = Inr (a', drop (segment_count (unat n)) others)
    \<and> outbox (process a') = outbox (process a) @ ms \<and> length ms = segment_count (unat n)
    \<and> concat (map (\<lambda>m. drop 25 (snd m)) ms) = drop off data
    \<and> (\<forall>k < length ms. is_segment (acked_seq a) data off k (ms ! k))
    \<and> acked_seq a' = acked_seq a + n \<and> received_buf a' = received_buf a"
  using assms
proof (induction others a data off n rule: single_send_loop.induct)
  case (1 others a data off n)
  show ?case
  proof (cases "n = 0")
    case True
    then show ?thesis using "1.prems"(2) by (simp add: single_send_loop.simps)
  next
    case False
    let ?m = "segment_len n" and ?p = "take (unat (segment_len n)) (drop off data)"
    have m: "unat ?m = min (unat n) MSS" by (rule segment_len)
    have n: "0 < unat n" using False by (simp add: unat_gt_0)
    have lp: "length ?p = unat ?m" using "1.prems"(2) m by simp
    have ne: "?p \<noteq> []" "length ?p \<le> MSS" using lp n m by auto
    have k: "segment_count (unat n) = Suc (segment_count (unat (n - ucast ?m)))"
      using segment_count_step [OF n] m by (subst unat_sub32) simp_all
    obtain others2 where o: "others = answered_by peer whence # others2"
      using "1.prems"(3,4) k by (cases others) auto
    obtain src dst ack where seg: "next_segment (process a) data off n =
        Inr (Some (peer_packet src dst (acked_seq a) ack 0 1 ?p), 25 + ?m, acked_seq a, ?m)"
      using next_segment_ok [of off n data "process a"] "1.prems"(2) by (auto simp: m)
    let ?d = "peer_packet src dst (acked_seq a) ack 0 1 ?p"
    have plen: "25 + of_nat (length ?p) = 25 + ?m" unfolding lp by simp
    from await_ack_answered [OF "1.prems"(1) ne refl, of peer whence others2 src dst ack]
    obtain a2 to where a2: "await_ack others a (Some ?d) (25 + ?m) (acked_seq a) = Inr (a2, others2)"
      "inbox (process a2) = []" "outbox (process a2) = outbox (process a) @ [(to, ?d)]"
      "acked_seq a2 = acked_seq a + ucast ?m" "received_buf a2 = received_buf a"
      unfolding plen o lp by auto
    have off: "length data = off + unat ?m + unat (n - ucast ?m)"
      using "1.prems"(2) m by (subst unat_sub32) simp_all
    have "\<forall>f \<in> set others2. f = answered_by peer whence"
      "segment_count (unat (n - ucast ?m)) \<le> length others2"
      using "1.prems"(3,4) k o by simp_all
    from "1.IH" [OF False seg refl refl refl a2(1) refl a2(2) off this]
    obtain a' ms where r: "single_send_loop others2 a2 data (off + unat ?m) (n - ucast ?m) =
        Inr (a', drop (segment_count (unat (n - ucast ?m))) others2)"
      "outbox (process a') = outbox (process a2) @ ms"
      "length ms = segment_count (unat (n - ucast ?m))"
      "concat (map (\<lambda>m. drop 25 (snd m)) ms) = drop (off + unat ?m) data"
      "\<forall>k < length ms. is_segment (acked_seq a2) data (off + unat ?m) k (ms ! k)"
      "acked_seq a' = acked_seq a2 + (n - ucast ?m)" "received_buf a' = received_buf a2"
      by blast
    have "drop 25 ?d = ?p" by (simp add: peer_packet_def)
    moreover have "?p @ drop (off + unat ?m) data = drop off data"
      using append_take_drop_id [of "unat ?m" "drop off data"] by (simp add: add.commute)
    moreover have "single_send_loop others a data off n =
        Inr (a', drop (segment_count (unat n)) others)"
    proof -
      have "drop (segment_count (unat n)) others = drop (segment_count (unat (n - ucast ?m))) others2"
        using k o by simp
      then show ?thesis
        by (subst single_send_loop.simps) (simp only: False seg a2(1) r(1) bindF.simps prod.case if_True not_False_eq_True)
    qed
    moreover have "is_segment (acked_seq a) data off k (((to, ?d) # ms) ! k)" if "k < Suc (length ms)" for k
    proof (cases k)
      case 0
      have "?p = take MSS (drop off data)" using "1.prems"(2) m by (auto simp: min_def)
      with 0 show ?thesis by (auto simp: is_segment_def)
    next
      case (Suc k')
      with that r(3) have "segment_count (unat (n - ucast ?m)) \<noteq> 0" by simp
      moreover have "unat (n - ucast ?m) = unat n - unat ?m" using m by (subst unat_sub32) simp_all
      ultimately have "unat ?m \<noteq> unat n" by auto
      with m have M: "unat ?m = MSS" by (simp add: min_def split: if_splits)
      then have "(ucast ?m :: u32) = of_nat MSS" by (intro u32_eqI) simp
      then show ?thesis
        using r(5) that Suc a2(4) M by (auto intro!: is_segment_next)
    qed
    ultimately show ?thesis
      using r(2-7) a2(3-5) k by (intro exI [of _ a'] exI [of _ "(to, ?d) # ms"]) simp
  qed
qed

end
