(* ===== verification/Archive_Theorems.thy ===== *)
theory Archive_Theorems
  imports Stop_And_Wait
begin

text \<open>
  What the archived stop-and-wait backend guarantees, for two processes and any network, and
  for its functions run to their end.
\<close>

text \<open>Two processes that agree on the numbers 10 and 20, and two bytes sent from one to the other.\<close>

definition side_example :: "u32 \<Rightarrow> u32 \<Rightarrow> side" where
  "side_example i j =
     \<lparr>thread = \<lparr>process = upd_window (\<lambda>v. v\<lparr>last_ack_received := i, next_seq_expected := j\<rparr>) host_example,
                sending_buf = None, sending_len = 0, received_buf = [], received_len = 0\<rparr>,
      control = Idle, handed = [], taken = []\<rparr>"

lemma side_example_fresh: "fresh_side i j (side_example i j)"
  by (simp add: fresh_side_def side_example_def host_example_def)

text \<open>
  The application hands over two bytes, the peer receives them and its answer arrives, the
  application closes.
\<close>

abbreviation (input) anywhere :: sockaddr_in where "anywhere \<equiv> \<lparr>sin_addr = 1, sin_port = 2\<rparr>"

definition two_bytes :: "u8 list" where
  "two_bytes = peer_packet (my_port (sock host_example)) (ntohs (sin_port (conn (sock host_example)))) 10 20 0 1 [7, 8]"

definition asked :: archived where
  "asked = take_datagram anywhere [] (thread (side_example 20 10))"

definition answering_peer :: side where
  "answering_peer = (side_example 20 10)\<lparr>thread := accept_bytes 10 [7, 8] (answer_to 10 2 asked)\<rparr>"

definition answer :: "u8 list" where
  "answer = snd (archive_reply (process asked) 10 2)"

definition three_turns :: "turn list" where
  "three_turns =
     [Turn [7, 8] (side_example 20 10) (\<lambda>a. Inr (app_append [7, 8] a)),
      Turn [] answering_peer (\<lambda>a. if two_bytes \<in> snd ` set (outbox (process a))
        then Inr (upd_process (\<lambda>w. w\<lparr>inbox := inbox w @ [(anywhere, answer)]\<rparr>) a) else Inl Blocked),
      Turn [] answering_peer (\<lambda>a. Inr (upd_process (upd_sock (\<lambda>k. k\<lparr>dying := 1\<rparr>)) a))]"

lemma beside_append:
  assumes "stop_and_wait l0 r0 l r" and "length (handed l) + length bs < 2 ^ 31"
  shows "\<exists>l'. stop_and_wait l r l' r \<and> thread l' = app_append bs (thread l) \<and> control l' = control l
    \<and> handed l' = handed l @ bs"
  using stop_and_wait.left [OF stop_and_wait.start [of l r] side_step.append [OF assms(2)]]
  by (intro exI [of _ "l\<lparr>thread := app_append bs (thread l), handed := handed l @ bs\<rparr>"]) simp

lemma beside_close:
  "\<exists>l'. stop_and_wait l r l' r \<and> thread l' = upd_process (upd_sock (\<lambda>k. k\<lparr>dying := x\<rparr>)) (thread l)
    \<and> control l' = control l \<and> handed l' = handed l"
  using stop_and_wait.left [OF stop_and_wait.start [of l r] side_step.close [of _ l x]]
  by (intro exI [of _ "l\<lparr>thread := upd_process (upd_sock (\<lambda>k. k\<lparr>dying := x\<rparr>)) (thread l)\<rparr>"]) simp

lemma peer_receives: "archive_check_for_data
    (upd_process (\<lambda>w. w\<lparr>inbox := inbox w @ [(anywhere, two_bytes)]\<rparr>) (thread (side_example 20 10))) NO_WAIT =
  Inr (thread answering_peer)" (is "archive_check_for_data ?t _ = _")
proof -
  have i: "inbox (process ?t) = (anywhere, two_bytes) # []"
    by (simp add: side_example_def host_example_def)
  have k: "take_datagram anywhere [] ?t = asked" by (simp add: asked_def take_datagram_def upd_process_def)
  have f: "received_len asked = length (received_buf asked)" "expected asked = 10"
    by (simp_all add: asked_def side_example_def host_example_def take_datagram_def)
  have "archive_handle_message asked two_bytes = Inr (thread answering_peer)"
    using archive_handle_data [OF _ f(1), of "[7, 8]" 0 _ _ 10 20 1]
    by (simp add: two_bytes_def f(2) answering_peer_def ACK_FLAG_MASK_def Let_def flip: numeral_2_eq_2)
  with archive_check_packet [OF i [unfolded two_bytes_def], of NO_WAIT] show ?thesis
    by (simp add: k flip: two_bytes_def)
qed

lemma beside_answer:
  assumes "two_bytes \<in> sent_by l"
  shows "\<exists>l'. stop_and_wait l (side_example 20 10) l' answering_peer
    \<and> thread l' = upd_process (\<lambda>w. w\<lparr>inbox := inbox w @ [(anywhere, answer)]\<rparr>) (thread l)
    \<and> control l' = control l \<and> handed l' = handed l"
proof -
  let ?r0 = "side_example 20 10"
  let ?t = "upd_process (\<lambda>w. w\<lparr>inbox := inbox w @ [(anywhere, two_bytes)]\<rparr>) (thread ?r0)"
  let ?r1 = "?r0\<lparr>thread := ?t\<rparr>"
  have "stop_and_wait l ?r0 l ?r1"
    by (rule stop_and_wait.right [OF stop_and_wait.start side_step.arrive [OF assms]])
  then have "stop_and_wait l ?r0 l (?r1\<lparr>thread := thread answering_peer\<rparr>)"
    by (rule stop_and_wait.right [OF _ side_step.poll]) (simp_all add: peer_receives, simp add: side_example_def)
  then have "stop_and_wait l ?r0 l answering_peer" by (simp add: answering_peer_def)
  moreover have "answer \<in> sent_by answering_peer"
    by (simp add: sent_by_def answering_peer_def accept_bytes_def answer_to_def answer_def)
  ultimately show ?thesis
    using stop_and_wait.left [OF _ side_step.arrive, of l ?r0 l answering_peer answer anywhere]
    by (intro exI [of _ "l\<lparr>thread := upd_process (\<lambda>w. w\<lparr>inbox := inbox w @ [(anywhere, answer)]\<rparr>) (thread l)\<rparr>"]) simp
qed

lemma three_turns_beside: "beside l0 (side_example 20 10) (side_example 20 10) three_turns"
  using beside_append beside_answer beside_close
  by (auto simp: three_turns_def sent_by_def split: if_splits)

text \<open>The thread beside these turns: every function of it is entered, and it returns.\<close>

lemma three_turns_return:
  "\<exists>a. archive_begin_backend (map acts three_turns) (thread (side_example 10 20)) = Inr (a, [])"
proof -
  let ?a0 = "thread (side_example 10 20)"
  obtain f g where fs: "map acts three_turns = [\<lambda>a. Inr (app_append [7, 8] a), f, g]"
    "f = (\<lambda>a. if two_bytes \<in> snd ` set (outbox (process a))
        then Inr (upd_process (\<lambda>w. w\<lparr>inbox := inbox w @ [(anywhere, answer)]\<rparr>) a) else Inl Blocked)"
    "g = (\<lambda>a. Inr (upd_process (upd_sock (\<lambda>k. k\<lparr>dying := 1\<rparr>)) a))"
    by (simp add: three_turns_def)
  have c0: "archive_check_for_data ?a0 NO_WAIT = Inr ?a0"
    by (rule archive_check_empty) (simp_all add: side_example_def host_example_def)
  define a1 where "a1 = app_append [7, 8] ?a0"
  define a2 where "a2 = a1\<lparr>sending_len := 0, sending_buf := None\<rparr>"
  have len: "sending_len a1 = 2" by (simp add: a1_def app_append_def side_example_def)
  have t: "take_sending a1 = Inr ([7, 8], a2)"
    by (simp add: a2_def a1_def take_sending_def app_append_def side_example_def memcpy_def)
  have m: "unat (2 :: u32) = 2" "segment_len 2 = 2" "sint (2 :: u32) = 2" by code_simp+
  have pr: "process a2 = process ?a0" by (simp add: a2_def a1_def app_append_def)
  have ns: "next_segment (process a2) [7, 8] 0 2 = Inr (Some two_bytes, 27, 10, 2)"
    using next_segment_ok [of 0 2 "[7, 8]" "process a2"]
    by (simp add: m pr two_bytes_def side_example_def)
  define w where "w = (process a2)\<lparr>outbox := [(conn (sock (process a2)), two_bytes)]\<rparr>"
  have sd: "sendto (process a2) (Some two_bytes) 27 = Inr w"
    by (simp add: sendto_def w_def two_bytes_def peer_packet_def pr side_example_def host_example_def)
  define a3 where "a3 = upd_process (\<lambda>w. w\<lparr>inbox := inbox w @ [(anywhere, answer)]\<rparr>) (a2\<lparr>process := w\<rparr>)"
  have f: "f (a2\<lparr>process := w\<rparr>) = Inr a3" by (simp add: fs(2) w_def a3_def)
  have i: "inbox (process a3) = (anywhere, answer) # []"
    by (simp add: a3_def w_def pr side_example_def host_example_def)
  obtain x y q where e: "answer = peer_packet x y q 12 ACK_FLAG_MASK 1 []"
    by (simp add: answer_def archive_reply_def)
  have af: "after (12 :: u32) 10" by code_simp
  define a4 where "a4 = upd_process (upd_window (\<lambda>v. v\<lparr>last_ack_received := 12\<rparr>)) (take_datagram anywhere [] a3)"
  have "acked_seq (take_datagram anywhere [] a3) = 10"
    by (simp add: take_datagram_def a3_def w_def pr side_example_def)
  then have c3: "archive_check_for_data a3 TIMEOUT = Inr a4"
    using archive_check_packet [OF i [unfolded e], of TIMEOUT] archive_handle_pure_ack [of "[]"] af
    by (simp add: a4_def e)
  have h: "has_been_acked (process a4) 10" using af by (simp add: has_been_acked_def a4_def)
  have ss: "single_send [f, g] a2 [7, 8] 2 = Inr (a4, [g])"
    by (simp add: single_send_def m single_send_loop.simps [of _ _ _ _ 2] single_send_loop.simps [of _ _ _ _ 0]
      ns sd f c3 h del: has_been_acked_def)
  have c4: "archive_check_for_data a4 NO_WAIT = Inr a4"
    by (rule archive_check_empty) (simp_all add: a4_def take_datagram_def)
  define a5 where "a5 = upd_process (upd_sock (\<lambda>k. k\<lparr>dying := 1\<rparr>)) a4"
  have g: "g a4 = Inr a5" by (simp add: fs(3) a5_def)
  have l4: "sending_len a4 = 0" by (simp add: a4_def a3_def a2_def take_datagram_def)
  have "archive_loop [] a5 = Inr (a5, [])"
    using l4 by (subst archive_loop.simps) (simp add: a5_def)
  then have "archive_loop [f, g] a1 = Inr (a5, [])"
    using len m t ss c4 g by (simp add: archive_loop.simps [of _ a1])
  moreover have "dying (sock (process ?a0)) = 0" "sending_len ?a0 = 0"
    by (simp_all add: side_example_def host_example_def)
  ultimately have "archive_loop (map acts three_turns) ?a0 = Inr (a5, [])"
    using c0 by (simp add: archive_loop.simps [of _ ?a0] fs(1) a1_def)
  then show ?thesis by (simp add: archive_begin_backend_def)
qed

lemma two_bytes_run:
  "\<exists>l. stop_and_wait (side_example 10 20) (side_example 20 10) l answering_peer
    \<and> control l = Idle \<and> handed l = [7, 8] \<and> sending_len (thread l) = 0"
proof -
  obtain a where a: "archive_loop (map acts three_turns) (thread (side_example 10 20)) = Inr (a, [])"
    using three_turns_return unfolding archive_begin_backend_def by blast
  have "carried_out (side_example 10 20) (side_example 20 10) (side_example 10 20) (side_example 20 10)
      three_turns [] a Idle"
    by (rule archive_loop_run [OF a refl refl three_turns_beside stop_and_wait.start])
      (simp_all add: side_example_def three_turns_def)
  then show ?thesis
    by (rule carried_outE)
      (use archive_loop_ends [OF a] in \<open>auto simp: three_turns_def side_example_def\<close>)
qed

text \<open>
  C22: Two processes with the archived backend start in agreement on the numbers; their
  applications hand over and take bytes at any time and the network loses, repeats and
  reorders. What one side has received is always a prefix of what the other handed over, and
  it is all but what is still queued whenever the sending thread is not waiting for an
  acknowledgement. (At most \<open>2^31 - 1\<close> bytes in each direction.)
\<close>

theorem archive_in_order:
  assumes "fresh_side i j l0" and "fresh_side j i r0" and "stop_and_wait l0 r0 l r"
  shows "prefix (delivered r) (handed l) \<and> prefix (delivered l) (handed r)
    \<and> (control l = Idle \<longrightarrow> handed l = delivered r @ queued (thread l))
    \<and> (control r = Idle \<longrightarrow> handed r = delivered l @ queued (thread r))"
proof -
  have lr: "synchronised i j l r"
    using stop_and_wait_synchronised [OF assms(3) fresh_synchronised [OF assms(1,2)]] .
  note rl = synchronised_sym [OF lr]
  show ?thesis
    using stop_wait.in_order [of i j "(l, r)"] stop_wait.in_order [of j i "(r, l)"]
      synchronised_idle [OF lr] synchronised_idle [OF rl] lr rl by simp
qed

theorem archive_in_order_witness:
  "\<exists>l r. stop_and_wait (side_example 10 20) (side_example 20 10) l r \<and> delivered r = [7, 8]"
proof -
  obtain l where run: "stop_and_wait (side_example 10 20) (side_example 20 10) l answering_peer"
    "control l = Idle" "handed l = [7, 8]" "sending_len (thread l) = 0"
    using two_bytes_run by blast
  note f = side_example_fresh [of 10 20] side_example_fresh [of 20 10]
  have "queued (thread l) = []"
    using ended_queue [OF stop_and_wait_synchronised [OF run(1) fresh_synchronised [OF f]]] run(4) .
  then have "delivered answering_peer = [7, 8]"
    using archive_in_order [OF f run(1)] run(2,3) by simp
  then show ?thesis using run(1) by blast
qed

text \<open>
  C27: The thread of the archived backend, run as the C function with its nested loops. While
  it runs, turn by turn, its application hands over the bytes \<open>hands\<close> of the turn and the
  network and the peer move on, the peer to the state \<open>peer_then\<close>. When the thread ends, the
  bytes handed over in the turns it has used, all of them and in order, are what the peer has
  received, in the state in which the last of these turns has left it. (Fewer than \<open>2^31\<close> bytes.)
\<close>

theorem archive_thread_ends:
  assumes "fresh_side i j l0" and "fresh_side j i r0"
    and "beside l0 r0 r0 ts" and "length (hands_all ts) < 2 ^ 31"
    and "archive_begin_backend (map acts ts) (thread l0) = Inr (a, rest)"
  shows "let used = take (length ts - length rest) ts; r = peer_after r0 used in
    delivered r = hands_all used
    \<and> (\<exists>l. stop_and_wait l0 r0 l r \<and> thread l = a \<and> handed l = hands_all used)"
proof -
  have l0: "control l0 = Idle" "handed l0 = []" using assms(1) by (simp_all add: fresh_side_def)
  have loop: "archive_loop (map acts ts) (thread l0) = Inr (a, rest)"
    using assms(5) by (simp add: archive_begin_backend_def)
  from archive_loop_run [OF this refl refl assms(3) stop_and_wait.start l0(1)] assms(4) l0(2)
  have "carried_out l0 r0 l0 r0 ts rest a Idle" by simp
  then obtain used left l where run: "ts = used @ left" "rest = map acts left"
    "stop_and_wait l0 r0 l (peer_after r0 used)" "handed l = hands_all used" "thread l = a" "control l = Idle"
    by (rule carried_outE) (use l0(2) in auto)
  have s: "synchronised i j l (peer_after r0 used)"
    using stop_and_wait_synchronised [OF run(3) fresh_synchronised [OF assms(1,2)]] .
  have "delivered (peer_after r0 used) = handed l"
    using stop_wait.complete [of i j "(l, peer_after r0 used)"] s run(5,6) ended_queue [OF s]
      archive_loop_ends [OF loop] by simp
  then show ?thesis using run by (auto simp: Let_def)
qed

theorem archive_thread_ends_witness:
  "\<exists>a. archive_begin_backend (map acts three_turns) (thread (side_example 10 20)) = Inr (a, [])
    \<and> delivered answering_peer = [7, 8]
    \<and> (\<exists>l. stop_and_wait (side_example 10 20) (side_example 20 10) l answering_peer \<and> thread l = a
        \<and> handed l = [7, 8])"
proof -
  obtain a where a: "archive_begin_backend (map acts three_turns) (thread (side_example 10 20)) = Inr (a, [])"
    using three_turns_return by blast
  have "peer_after (side_example 20 10) three_turns = answering_peer" "hands_all three_turns = [7, 8]"
    by (simp_all add: three_turns_def)
  then show ?thesis
    using archive_thread_ends [OF side_example_fresh side_example_fresh three_turns_beside _ a] a
    by (simp add: Let_def)
qed

text \<open>
  C28: When the peer answers and the answers arrive, \<open>single_send\<close> with a length that is
  positive as an \<open>int\<close> returns: it has sent one packet per answer and no other, the \<open>k\<close>-th
  with the bytes from \<open>k * MSS\<close> on, at most \<open>MSS\<close> of them, and their number; together they are
  the data, and the number it has acknowledged has moved by the length of the data. With any
  other length it returns without sending.
\<close>

theorem single_send_completes:
  assumes "inbox (process a) = []" and "length data = unat n"
    and "\<forall>f \<in> set others. f = answered_by peer whence"
    and "length others = (unat n + MSS - 1) div MSS"
  shows "(0 < sint n \<longrightarrow> (\<exists>a' ms. single_send others a data n = Inr (a', [])
      \<and> outbox (process a') = outbox (process a) @ ms \<and> length ms = length others
      \<and> (\<forall>k < length ms. \<exists>whence src dst ack. ms ! k = (whence,
          peer_packet src dst (acked_seq a + of_nat (k * MSS)) ack 0 1 (take MSS (drop (k * MSS) data))))
      \<and> concat (map (\<lambda>m. drop 25 (snd m)) ms) = data
      \<and> acked_seq a' = acked_seq a + n \<and> received_buf a' = received_buf a))
    \<and> (sint n \<le> 0 \<longrightarrow> single_send others a data n = Inr (a, others))"
  using single_send_answered [of a data 0 n others peer whence] assms
  by (auto simp: single_send_def segment_count_def is_segment_def)

theorem single_send_completes_witness:
  "\<exists>a' ms. single_send [answered_by host_example \<lparr>sin_addr = 1, sin_port = 2\<rparr>]
      (thread (side_example 10 20)) [7, 8] 2 = Inr (a', [])
    \<and> outbox (process a') = ms \<and> concat (map (\<lambda>m. drop 25 (snd m)) ms) = [7, 8]
    \<and> acked_seq a' = 12"
proof -
  have "inbox (process (thread (side_example 10 20))) = []" "outbox (process (thread (side_example 10 20))) = []"
    "acked_seq (thread (side_example 10 20)) = 10"
    by (simp_all add: side_example_def host_example_def)
  moreover have "unat (2 :: u32) = 2" "sint (2 :: u32) = 2" by code_simp+
  ultimately show ?thesis
    using single_send_completes [of "thread (side_example 10 20)" "[7, 8]" 2
        "[answered_by host_example \<lparr>sin_addr = 1, sin_port = 2\<rparr>]" host_example "\<lparr>sin_addr = 1, sin_port = 2\<rparr>"]
    by auto
qed

end
