(* ===== verification/Spec2Isabelle.thy ===== *)
theory Spec2Isabelle
  imports Thread_Theorems Session_Theorems Lost_Ack Client_Session Archive_Theorems
begin

text \<open>
  CMU-TCP: a reliable byte stream over UDP, the project under \<open>src/project-2_15-441\<close>.

  The program. An application calls \<open>cmu_socket\<close>, \<open>cmu_write\<close>, \<open>cmu_read\<close> and \<open>cmu_close\<close>
  (\<open>src/cmu_tcp.c\<close>). Each socket has a thread (\<open>src/backend.c\<close>) that makes the three-way
  handshake and then loops: it takes at most one datagram, resends or sends data, and looks
  whether it should end. The two share the socket structure: a send buffer
  (\<open>src/send_buffer.c\<close>), a ring of bytes kept until they are acknowledged, and a receive
  buffer (\<open>src/recv_buffer.c\<close>), a ring of bytes with a doubly linked list of the segments
  that arrived out of order. Packets are built and read by \<open>src/cmu_packet.c\<close>.

  The model. A C function is a function on records that returns a value or a \<open>fault\<close>: an
  assertion that fails, an access outside a block, a read of an unassigned pointer, a null or
  dangling pointer, a call that waits for something that does not come. Integers are words of
  their C width, so all arithmetic wraps as in C. Blocks of memory are lists of bytes with
  bounds-checked accesses; the segments live on an explicit heap. Operating system, allocator
  and network are arguments: what system calls answer, what fresh memory holds, what has
  arrived.

  Threads. \<open>System\<close> takes a whole call of a thread as one step. \<open>Threads\<close> cuts the backend's
  loop at its locks: there a step is what a thread does under one mutex, or between two, and
  the application's calls come in at every place the code leaves them, also in the middle of
  the handling of a packet. \<open>Sessions\<close> does the same for the handshake, so that a session is
  everything from the return of \<open>cmu_socket\<close> on: the thread's place is a \<open>stage\<close>, and the calls
  come in as soon as \<open>initialized\<close> lets them, on the server's side before it has answered. What
  one thread does under a mutex is taken to exclude what the other does under the same one; \<open>wait_cond\<close> is the flag \<open>waiting\<close> of the application.

  The theories.
  \<^item> \<open>Prelude\<close>: C integers, faults and sequencing, \<open>malloc\<close> and \<open>memcpy\<close>, words as numbers.
  \<^item> \<open>Packet\<close>: \<open>cmu_packet.h\<close>, \<open>cmu_packet.c\<close>, constants of \<open>grading.h\<close>. What
    \<open>create_packet\<close> does on every input, the round trip, serial number comparison.
  \<^item> \<open>Ring\<close>: reading and writing a list as a ring, shared by the two buffers.
  \<^item> \<open>Send_Buffer\<close>: \<open>send_buffer.c\<close>. Each operation implements that of a queue of bytes in
    flight and fresh bytes; the locale \<open>retransmission_queue\<close> and its interpretation give the
    stream property. \<open>dump_safe\<close> says exactly when \<open>send_buffer_dump\<close> stays inside its blocks.
  \<^item> \<open>Segments\<close>, \<open>Segment_Lists\<close>: the linked list of \<open>recv_buffer.c\<close> as code, and as the
    sorted list of intervals it stands for.
  \<^item> \<open>Recv_Buffer\<close>, \<open>Recv_Stream\<close>: the rest of \<open>recv_buffer.c\<close>; the locale \<open>reassembly\<close> and
    its interpretation give in-order delivery from segments in any order.
  \<^item> \<open>Socket\<close>: \<open>cmu_tcp.h\<close> and \<open>cmu_tcp.c\<close>; the record \<open>host\<close> is a process with its socket,
    heap, arrived and sent datagrams, and clock.
  \<^item> \<open>Backend\<close>: \<open>backend.c\<close>, function by function.
  \<^item> \<open>Backend_Send\<close>, \<open>Backend_Receive\<close>, \<open>Handshake\<close>: what sending, receiving and the handshake
    do, on every branch, and the packets the code does not expect.
  \<^item> \<open>System\<close>: two endpoints and a network that loses, repeats and reorders, as a step relation
    in which every step is one of the functions above; the invariant \<open>linked\<close> of the two, kept
    by every step.
  \<^item> \<open>Connection\<close>, \<open>Progress\<close>, \<open>Connection_Theorems\<close>: what fresh sockets mean for the
    invariant, what it says of the two streams; steps that succeed; loops that end; the
    theorems about a connection made of whole calls.
  \<^item> \<open>Full_Window\<close>: a connection in which data that just fills the receive buffer is acknowledged
    and which is silent from then on: the window is announced only in answer to data, and a
    closed window is probed only while bytes are in flight.
  \<^item> \<open>Lost_Ack\<close>: a handshake whose last packet is lost: the client takes the connection for
    established and is silent, the server blocks in \<open>recvfrom\<close>.
  \<^item> \<open>Threads\<close>, \<open>Thread_Facts\<close>, \<open>Thread_Progress\<close>, \<open>Windows\<close>, \<open>Thread_Theorems\<close>: the thread's place in its loop as a
    \<open>control\<close> value and its sections as \<open>thread_section\<close>; the invariant, with the packet in the
    hands of the thread; what the sections keep of it; the theorems: no section fails,
    announced windows are kept, data goes through, loss is repaired.
  \<^item> \<open>Sessions\<close>: \<open>begin_backend\<close> from its first line on in sections, and the C function as a run
    of them. \<open>Session_Invariant\<close>, \<open>Session_Steps\<close>, \<open>Session_Pairs\<close>: during the handshake each
    side is seen as if it had completed it with the number its peer will announce; on these
    views every section is a step of \<open>System\<close> or \<open>Threads\<close>, or none, so their invariant holds;
    the places of the two threads fit the packets on their way.
  \<^item> \<open>Session_Facts\<close>, \<open>Session_Progress\<close>, \<open>Dialogues\<close>, \<open>Session_Theorems\<close>: \<open>cmu_socket\<close> establishes
    that invariant (\<open>dialogue\<close>); the theorems about whole sessions: in order, no loss, complete
    at the end, no lost wake-up, the handshake fails nowhere and is completed whatever is lost
    (\<open>after_losses\<close>) but for the client's last packet, packets have the declared format, \<open>begin_backend\<close> is a run of the sections.
  \<^item> \<open>Byte_Stream\<close>: what both backends promise in one direction, as a locale: in order, and every
    byte received or still held by the sender. Interpreted in \<open>Connection\<close> (\<open>sliding_window\<close>),
    \<open>Dialogues\<close> (\<open>session_stream\<close>, \<open>session_stream_back\<close>) and \<open>Stop_And_Wait\<close> (\<open>stop_wait\<close>).
  \<^item> \<open>Applications\<close>, \<open>Client_Session\<close>: \<open>client.c\<close>, \<open>server.c\<close> and \<open>tests/testing_server.c\<close> as sequences
    of calls; a call's turns are steps of a connection, so the whole client is a run of one in
    which the application writes the client's texts and then the file.
  \<^item> \<open>Archive_Backend\<close>, \<open>Stop_And_Wait\<close>, \<open>Archive_Theorems\<close>: \<open>archive/backend.c\<close>, the earlier
    backend that waits for each acknowledgement; two such processes and any network as a step
    relation with the thread's place in its loops as a \<open>control\<close> value; the C functions with
    their nested loops are runs of it beside given turns of application, network and peer.

  Bounds and fuel. A scan of the segment list gets as many rounds as there are allocated
  segments and one more, which no acyclic list exceeds (\<open>segment_merge_list\<close>). The client's
  handshake takes the answers of \<open>poll\<close> as a list, the server's a number of turns; the theorems
  say how many suffice. The main loop and the loop of \<open>cmu_write\<close> take the list of what the
  other thread does between two turns; if it is used up, the call is still running, which is
  the value \<open>Blocked\<close>. The loops of the archived backend and the calls of the applications take
  such lists too. The loops that send end because the number of bytes left goes down.

  Assumptions. Allocation succeeds. The theorems about the receive buffer assume an allocator
  that zeroes (\<open>heap_ok\<close>), since \<open>recv_buffer_second_segment_uninitialised\<close> shows the code
  relies on it. Theorems about a whole stream assume that its sequence numbers do not wrap
  around 32 bits, because the buffers compare them with \<open><\<close> and not with \<open>before\<close>. Buffers have
  at most \<open>MSS\<close> bytes where that is said; \<open>cmu_socket\<close> makes them 1024 bytes long. Steps of a
  connection are those in which no fault occurs; that send and resend fault exactly when
  bytes wrap around in the ring is part of their theorems.

  Not modelled. The socket structure and the calls that \<open>archive/backend.c\<close> was written for are
  not in the repository: its extra fields are part of the state, and appending to one buffer
  and taking from the other stand for the calls. What the server does after its endless loop
  is not reached. The tests in Python, the packet dissector and the set-up scripts are not part
  of the protocol. \<open>send_buffer_clean\<close> only frees what are values here. Mutexes carry no state of
  their own, and accesses outside any mutex (the window, \<open>conn\<close>) are not cut into smaller steps
  than the section they stand in. In particular \<open>multiple_send\<close> and \<open>resend_unacknowledged\<close> read
  the receive buffer for the window they announce under \<open>send_lock\<close> only, so in the program
  \<open>cmu_read\<close> may be between its two assignments to the buffer (\<open>recv_buffer.c\<close>, the end of
  \<open>recv_buffer_read\<close>); in \<open>thread_section\<close> that read is one step, and what the torn read would
  announce is not modelled. A session has one client and one server, and all that arrives
  was sent by one of the two. Messages to the terminal are left out but for
  the strings the applications print.
\<close>

end
